(* ===== verification/Prelude.thy ===== *)
theory Prelude
  imports Main "HOL-Library.Word"
begin

text \<open>
  Shared vocabulary of the development: the collections that carry the component proofs,
  the lemmas on indexed lists of threads, C strings and their bounded buffers, and the
  decimal and hexadecimal conversions of the \<open>printf\<close> family with their inverse
  \<open>atoi\<close>. Everything here is about the C and C++ standard library as the
  sources use it; the components of the program are in the theories that import this one.
\<close>

named_theorems pc_simps \<open>classification of program counters\<close>
named_theorems fmt_simps \<open>facts about formatted output\<close>

section \<open>Threads as indexed lists\<close>

text \<open>
  The threads of a concurrent component are the elements of a list of local states. A step
  of thread \<open>t\<close> updates position \<open>t\<close>, and the counting arguments (how many
  threads are inside a region of the code) are about the length of a filtered list.
\<close>

type_synonym tid = nat

definition count_pc :: "('p \<Rightarrow> bool) \<Rightarrow> 'p list \<Rightarrow> nat" where
  "count_pc P ps = length (filter P ps)"

lemma count_pc_update:
  assumes "t < length ps"
  shows "count_pc P (ps[t := p]) + (if P (ps ! t) then 1 else 0)
       = count_pc P ps + (if P p then 1 else 0)"
  using assms unfolding count_pc_def
proof (induction ps arbitrary: t)
  case Nil
  then show ?case by simp
next
  case (Cons a ps)
  then show ?case by (cases t) auto
qed

lemma count_pc_enter:
  "t < length ps \<Longrightarrow> \<not> P (ps ! t) \<Longrightarrow> P p \<Longrightarrow> count_pc P (ps[t := p]) = Suc (count_pc P ps)"
  using count_pc_update [of t ps P p] by simp

lemma count_pc_leave:
  "t < length ps \<Longrightarrow> P (ps ! t) \<Longrightarrow> \<not> P p \<Longrightarrow> count_pc P ps = Suc (count_pc P (ps[t := p]))"
  using count_pc_update [of t ps P p] by simp

lemma count_pc_same:
  "t < length ps \<Longrightarrow> P (ps ! t) = P p \<Longrightarrow> count_pc P (ps[t := p]) = count_pc P ps"
  using count_pc_update [of t ps P p] by (simp split: if_splits)

lemma count_pc_pos: "t < length ps \<Longrightarrow> P (ps ! t) \<Longrightarrow> 0 < count_pc P ps"
  by (auto simp: count_pc_def filter_empty_conv)

lemma count_pc_zero: "\<forall>t < length ps. \<not> P (ps ! t) \<Longrightarrow> count_pc P ps = 0"
  by (auto simp: count_pc_def filter_empty_conv in_set_conv_nth)

lemma count_pc_leave':
  "t < length ps \<Longrightarrow> P (ps ! t) \<Longrightarrow> \<not> P p \<Longrightarrow> count_pc P (ps[t := p]) = count_pc P ps - 1"
  using count_pc_leave [of t ps P p] by simp

lemma count_pc_zero_iff: "count_pc P ps = 0 \<longleftrightarrow> (\<forall>t < length ps. \<not> P (ps ! t))"
  using count_pc_zero [of ps P] count_pc_pos [of _ ps P] by (metis less_nat_zero_code)

lemma count_pc_cong:
  "(\<And>t. t < length ps \<Longrightarrow> P (ps ! t) = Q (ps ! t)) \<Longrightarrow> count_pc P ps = count_pc Q ps"
  unfolding count_pc_def by (rule arg_cong [where f = length], rule filter_cong)
    (auto simp: in_set_conv_nth)

lemma sum_list_nth_update:
  fixes f :: "'p \<Rightarrow> nat"
  assumes "t < length ps"
  shows "sum_list (map f (ps[t := p])) + f (ps ! t) = sum_list (map f ps) + f p"
  using assms
proof (induction ps arbitrary: t)
  case (Cons q ps)
  then show ?case by (cases t) fastforce+
qed simp

lemmas count_pc_simps = count_pc_enter count_pc_same count_pc_leave'

section \<open>The four bytes of a 32-bit number\<close>

lemma base256_split:
  fixes n :: nat
  assumes "n < 4294967296"
  shows "n = n mod 256 + 256 * (n div 256 mod 256) + 65536 * (n div 65536 mod 256) +
      16777216 * (n div 16777216 mod 256)"
proof -
  have d: "n div 65536 = n div 256 div 256" "n div 16777216 = n div 256 div 256 div 256"
    by (simp_all add: div_mult2_eq [symmetric])
  have "n div 16777216 < 256" using assms by simp
  then have "n div 16777216 mod 256 = n div 16777216" by simp
  moreover have "n = n mod 256 + 256 * (n div 256)" by simp
  moreover have "n div 256 = n div 256 mod 256 + 256 * (n div 65536)" unfolding d by simp
  moreover have "n div 65536 = n div 65536 mod 256 + 256 * (n div 16777216)" unfolding d by simp
  ultimately show ?thesis by linarith
qed

section \<open>C strings and bounded buffers\<close>

text \<open>
  A \<open>char\<close> is a byte. What a C string function sees of a buffer ends at the first
  \<open>'\<Zero>'\<close> byte; \<open>strlen\<close> is the length of that part. \<open>snprintf\<close> stores at
  most \<open>n - 1\<close> bytes of the formatted text.
\<close>

type_synonym byte = char

definition nul :: byte where "nul = CHR 0x00"

definition c_str :: "byte list \<Rightarrow> byte list" where
  "c_str buf = takeWhile (\<lambda>c. c \<noteq> nul) buf"

text \<open>String literals of the sources that are not ASCII are written as their UTF-8 bytes.\<close>

definition utf8 :: "nat list \<Rightarrow> string" where
  "utf8 bs = map char_of bs"

definition strlen :: "byte list \<Rightarrow> nat" where
  "strlen buf = length (c_str buf)"

definition snprintf_buf :: "nat \<Rightarrow> string \<Rightarrow> byte list" where
  "snprintf_buf n s = take (n - 1) s"

lemma c_str_id [simp]: "nul \<notin> set s \<Longrightarrow> c_str s = s"
  unfolding c_str_def by (induction s) auto

lemma c_str_append_nul [simp]: "c_str (s @ nul # r) = c_str s"
  unfolding c_str_def by (induction s) auto

lemma nul_notin_c_str [simp]: "nul \<notin> set (c_str s)"
  unfolding c_str_def by (auto dest: set_takeWhileD)

lemma c_str_idem [simp]: "c_str (c_str s) = c_str s"
  by simp

lemma length_c_str_le: "length (c_str s) \<le> length s"
  unfolding c_str_def by (rule length_takeWhile_le)

lemma set_c_str_subset: "set (c_str s) \<subseteq> set s"
  unfolding c_str_def by (auto dest: set_takeWhileD)

lemma length_snprintf_buf: "0 < n \<Longrightarrow> length (snprintf_buf n s) < n"
  by (simp add: snprintf_buf_def)

lemma snprintf_buf_fits: "length s < n \<Longrightarrow> snprintf_buf n s = s"
  by (simp add: snprintf_buf_def)

section \<open>Numbers in positional notation\<close>

text \<open>
  \<open>%d\<close>, \<open>%u\<close>, \<open>%ld\<close> and \<open>%x\<close> print a number most significant digit first with
  no leading zero. \<open>read_base\<close> is their left inverse.
\<close>

definition digit_char :: "nat \<Rightarrow> char" where
  "digit_char d = (if d < 10 then char_of (48 + d) else char_of (87 + d))"

definition char_digit :: "char \<Rightarrow> nat" where
  "char_digit c = (if of_char c < (58::nat) then of_char c - 48 else of_char c - 87)"

fun show_base :: "nat \<Rightarrow> nat \<Rightarrow> string" where
  "show_base b n =
     (if n < b \<or> b < 2 then [digit_char n] else show_base b (n div b) @ [digit_char (n mod b)])"

definition read_base :: "nat \<Rightarrow> string \<Rightarrow> nat" where
  "read_base b s = foldl (\<lambda>a c. a * b + char_digit c) 0 s"

declare show_base.simps [simp del]

lemma char_digit_digit_char [simp]: "d < 16 \<Longrightarrow> char_digit (digit_char d) = d"
  by (auto simp: char_digit_def digit_char_def)

lemma read_base_snoc: "read_base b (s @ [c]) = read_base b s * b + char_digit c"
  by (simp add: read_base_def)

lemma read_show_base:
  "2 \<le> b \<Longrightarrow> b \<le> 16 \<Longrightarrow> read_base b (show_base b n) = n"
proof (induction b n rule: show_base.induct)
  case (1 b n)
  show ?case
  proof (cases "n < b")
    case True
    with "1.prems" show ?thesis by (subst show_base.simps) (simp add: read_base_def)
  next
    case False
    have "n mod b < b" using "1.prems" by simp
    with "1.prems" have "n mod b < 16" by linarith
    with False "1.prems" "1.IH" show ?thesis
      by (subst show_base.simps) (simp add: read_base_snoc)
  qed
qed

lemma show_base_inj: "2 \<le> b \<Longrightarrow> b \<le> 16 \<Longrightarrow> show_base b m = show_base b n \<Longrightarrow> m = n"
  using read_show_base by metis

lemma set_show_base:
  "2 \<le> b \<Longrightarrow> b \<le> 16 \<Longrightarrow> set (show_base b n) \<subseteq> digit_char ` {d. d < b}"
proof (induction b n rule: show_base.induct)
  case (1 b n)
  then show ?case by (subst show_base.simps) auto
qed

lemma show_base_nonempty [simp]: "show_base b n \<noteq> []"
  by (subst show_base.simps) auto

lemma length_show_base:
  "2 \<le> b \<Longrightarrow> n < b ^ Suc k \<Longrightarrow> length (show_base b n) \<le> Suc k"
proof (induction k arbitrary: n)
  case 0
  then show ?case by (subst show_base.simps) simp
next
  case (Suc k)
  from Suc.prems have "n div b < b ^ Suc k"
    by (simp add: less_mult_imp_div_less mult.commute)
  with Suc show ?case by (subst show_base.simps) auto
qed

section \<open>Decimal output and \<open>atoi\<close>\<close>

definition show_nat :: "nat \<Rightarrow> string" where "show_nat n = show_base 10 n"

definition show_int :: "int \<Rightarrow> string" where
  "show_int i = (if i < 0 then CHR ''-'' # show_nat (nat (- i)) else show_nat (nat i))"

definition show_hex :: "nat \<Rightarrow> string" where "show_hex n = show_base 16 n"

definition is_digit :: "char \<Rightarrow> bool" where
  "is_digit c \<longleftrightarrow> 48 \<le> (of_char c :: nat) \<and> (of_char c :: nat) \<le> 57"

definition is_space :: "char \<Rightarrow> bool" where
  "is_space c \<longleftrightarrow> (of_char c :: nat) = 32 \<or> (9 \<le> (of_char c :: nat) \<and> (of_char c :: nat) \<le> 13)"

text \<open>
  \<open>atoi\<close> skips white space, takes one optional sign and then the longest run of digits;
  with no digit it is 0. The result here is the mathematical value: the C function is
  only defined where it fits an \<open>int\<close>.
\<close>

definition atoi :: "string \<Rightarrow> int" where
  "atoi s =
     (case dropWhile is_space s of
        [] \<Rightarrow> 0
      | c # r \<Rightarrow>
          if c = CHR ''-'' then - int (read_base 10 (takeWhile is_digit r))
          else if c = CHR ''+'' then int (read_base 10 (takeWhile is_digit r))
          else int (read_base 10 (takeWhile is_digit (c # r))))"

lemma is_digit_digit_char [simp]: "d < 10 \<Longrightarrow> is_digit (digit_char d)"
  by (simp add: is_digit_def digit_char_def)

lemma show_nat_digits: "c \<in> set (show_nat n) \<Longrightarrow> is_digit c"
  using set_show_base [of 10 n] by (auto simp: show_nat_def)

lemma show_nat_nonempty [simp]: "show_nat n \<noteq> []"
  by (simp add: show_nat_def)

lemma read_show_nat [simp]: "read_base 10 (show_nat n) = n"
  by (simp add: show_nat_def read_show_base)

lemma show_nat_inj [simp]: "show_nat m = show_nat n \<longleftrightarrow> m = n"
  using read_show_nat by metis

lemma digit_not_space: "is_digit c \<Longrightarrow> \<not> is_space c"
  by (auto simp: is_digit_def is_space_def)

lemma digit_not_nul: "is_digit c \<Longrightarrow> c \<noteq> nul"
  by (auto simp: is_digit_def nul_def)

lemma nul_notin_show_nat [simp]: "nul \<notin> set (show_nat n)"
  using show_nat_digits digit_not_nul by blast

lemma length_show_nat_le: "n < 10 ^ Suc k \<Longrightarrow> length (show_nat n) \<le> Suc k"
  unfolding show_nat_def by (rule length_show_base) simp_all

lemma atoi_show_nat [simp]: "atoi (show_nat n) = int n"
proof -
  obtain c r where cr: "show_nat n = c # r" by (cases "show_nat n") auto
  have all: "\<forall>c \<in> set (show_nat n). is_digit c" using show_nat_digits by blast
  then have d: "is_digit c" using cr by simp
  then have "dropWhile is_space (show_nat n) = c # r"
    by (simp add: cr digit_not_space)
  moreover have "takeWhile is_digit (c # r) = c # r"
    using all by (simp only: cr [symmetric] takeWhile_eq_all_conv)
  moreover have "c \<noteq> CHR ''-''" "c \<noteq> CHR ''+''"
    using d by (auto simp: is_digit_def)
  ultimately show ?thesis
    using read_show_nat [of n] by (simp add: atoi_def cr)
qed

text \<open>
  A text of digits can be cut off a longer text at the first byte that is no digit, so a
  number printed before a separator can be read back.
\<close>

lemma takeWhile_append_stop:
  "\<forall>x \<in> set xs. P x \<Longrightarrow> \<not> P y \<Longrightarrow> takeWhile P (xs @ y # ys) = xs"
  by (induction xs) auto

lemma sep_split:
  assumes "x \<notin> set a" and "x \<notin> set b" and "a @ x # c = b @ x # d"
  shows "a = b \<and> c = d"
proof -
  have ta: "takeWhile (\<lambda>y. y \<noteq> x) (a @ x # c) = a"
    by (rule takeWhile_append_stop) (use assms(1) in auto)
  have tb: "takeWhile (\<lambda>y. y \<noteq> x) (b @ x # d) = b"
    by (rule takeWhile_append_stop) (use assms(2) in auto)
  from ta tb assms(3) have "a = b" by simp
  with assms(3) show ?thesis by simp
qed

end
