(* ===== verification/Lts.thy ===== *)
theory Lts
  imports Prelude
begin

text \<open>
  Labelled transition systems, for the concurrent components. A step carries
  \<open>Some e\<close> when it has an effect an observer of the component can see and \<open>None\<close>
  when it is internal. The locale \<open>inductive_invariant\<close> is the contract "every step keeps
  the invariant"; \<open>trace_refinement\<close> extends it with the contract of a simulation by a
  deterministic abstract machine, and gives the inclusion of the observable traces.
\<close>

inductive run :: "('s \<Rightarrow> 'e option \<Rightarrow> 's \<Rightarrow> bool) \<Rightarrow> 's \<Rightarrow> 'e list \<Rightarrow> 's \<Rightarrow> bool"
  for S :: "'s \<Rightarrow> 'e option \<Rightarrow> 's \<Rightarrow> bool" where
  run_nil: "run S s [] s"
| run_tau: "run S s es s' \<Longrightarrow> S s' None s'' \<Longrightarrow> run S s es s''"
| run_vis: "run S s es s' \<Longrightarrow> S s' (Some e) s'' \<Longrightarrow> run S s (es @ [e]) s''"

definition reachable ::
  "('s \<Rightarrow> bool) \<Rightarrow> ('s \<Rightarrow> 'e option \<Rightarrow> 's \<Rightarrow> bool) \<Rightarrow> 's \<Rightarrow> bool" where
  "reachable I S s \<longleftrightarrow> (\<exists>s0 es. I s0 \<and> run S s0 es s)"

lemma reachable_init: "I s \<Longrightarrow> reachable I S s"
  unfolding reachable_def using run_nil by metis

lemma reachable_step: "reachable I S s \<Longrightarrow> S s l s' \<Longrightarrow> reachable I S s'"
  unfolding reachable_def by (cases l) (metis run_tau, metis run_vis)

lemma reachable_run: "I s0 \<Longrightarrow> run S s0 es s \<Longrightarrow> reachable I S s"
  unfolding reachable_def by blast

lemma run_trans: "run S s' es' s'' \<Longrightarrow> run S s es s' \<Longrightarrow> run S s (es @ es') s''"
proof (induction rule: run.induct)
  case (run_nil s')
  then show ?case by simp
next
  case (run_tau s' es' u v)
  then show ?case by (metis run.run_tau)
next
  case (run_vis s' es' u e v)
  then show ?case by (metis append.assoc run.run_vis)
qed

lemma run_one_vis: "S s (Some e) s' \<Longrightarrow> run S s [e] s'"
  using run_vis [OF run_nil] by fastforce

lemma run_one_tau: "S s None s' \<Longrightarrow> run S s [] s'"
  using run_tau [OF run_nil] by fastforce

text \<open>
  A schedule resolves every choice of a component (which thread moves, which value it
  makes, which waiter is woken). \<open>schedule X s cs\<close> executes one, with \<open>X\<close> the
  component's executable step; where \<open>X\<close> only makes steps of the relation, so does the
  schedule.
\<close>

fun schedule ::
  "('c \<Rightarrow> 's \<Rightarrow> ('e option \<times> 's) option) \<Rightarrow> 's \<Rightarrow> 'c list \<Rightarrow> ('e list \<times> 's) option" where
  "schedule X s [] = Some ([], s)"
| "schedule X s (c # cs) =
     (case X c s of
        None \<Rightarrow> None
      | Some (l, s') \<Rightarrow>
          (case schedule X s' cs of
             None \<Rightarrow> None
           | Some (es, s'') \<Rightarrow> Some ((case l of None \<Rightarrow> es | Some e \<Rightarrow> e # es), s'')))"

lemma schedule_run:
  "schedule X s cs = Some (es, s') \<Longrightarrow>
   (\<And>c s l s'. c \<in> set cs \<Longrightarrow> X c s = Some (l, s') \<Longrightarrow> S s l s') \<Longrightarrow> run S s es s'"
proof (induction cs arbitrary: s es)
  case Nil
  then show ?case by (simp add: run_nil)
next
  case (Cons c cs)
  from Cons.prems(1) obtain l u fs where x: "X c s = Some (l, u)"
    and r: "schedule X u cs = Some (fs, s')"
    and es: "es = (case l of None \<Rightarrow> fs | Some e \<Rightarrow> e # fs)"
    by (auto split: option.splits)
  have st: "S s l u" by (rule Cons.prems(2) [OF _ x]) simp
  have tl: "run S u fs s'" by (rule Cons.IH [OF r]) (rule Cons.prems(2), simp_all)
  show ?case
  proof (cases l)
    case None
    then show ?thesis using run_trans [OF tl run_one_tau] st es by fastforce
  next
    case (Some e)
    then show ?thesis using run_trans [OF tl run_one_vis] st es by fastforce
  qed
qed

lemma schedule_append:
  "schedule X s cs = Some (es, u) \<Longrightarrow> schedule X u ds = Some (fs, v) \<Longrightarrow>
   schedule X s (cs @ ds) = Some (es @ fs, v)"
  by (induction cs arbitrary: s es) (auto split: option.splits)

fun abs_run :: "('a \<Rightarrow> 'e \<Rightarrow> 'a option) \<Rightarrow> 'a \<Rightarrow> 'e list \<Rightarrow> 'a option" where
  "abs_run A a [] = Some a"
| "abs_run A a (e # es) = (case A a e of None \<Rightarrow> None | Some a' \<Rightarrow> abs_run A a' es)"

lemma abs_run_snoc:
  "abs_run A a (es @ [e]) = (case abs_run A a es of None \<Rightarrow> None | Some a' \<Rightarrow> A a' e)"
  by (induction A a es rule: abs_run.induct) (auto split: option.splits)

lemma abs_run_prefix:
  "abs_run A a (es @ fs) = Some b \<Longrightarrow> \<exists>c. abs_run A a es = Some c \<and> abs_run A c fs = Some b"
  by (induction A a es rule: abs_run.induct) (auto split: option.splits)

locale inductive_invariant =
  fixes init :: "'s \<Rightarrow> bool"
    and step :: "'s \<Rightarrow> 'e option \<Rightarrow> 's \<Rightarrow> bool"
    and inv :: "'s \<Rightarrow> bool"
  assumes inv_init: "init s \<Longrightarrow> inv s"
    and inv_step: "inv s \<Longrightarrow> step s l s' \<Longrightarrow> inv s'"
begin

lemma inv_run: "run step s es s' \<Longrightarrow> inv s \<Longrightarrow> inv s'"
  by (induction rule: run.induct) (auto intro: inv_step)

lemma inv_reachable: "reachable init step s \<Longrightarrow> inv s"
  unfolding reachable_def using inv_run inv_init by blast

end

locale trace_refinement = inductive_invariant init step inv
  for init :: "'s \<Rightarrow> bool"
    and step :: "'s \<Rightarrow> 'e option \<Rightarrow> 's \<Rightarrow> bool"
    and inv :: "'s \<Rightarrow> bool" +
  fixes abs :: "'s \<Rightarrow> 'a"
    and astep :: "'a \<Rightarrow> 'e \<Rightarrow> 'a option"
  assumes sim_tau: "inv s \<Longrightarrow> step s None s' \<Longrightarrow> abs s' = abs s"
    and sim_vis: "inv s \<Longrightarrow> step s (Some e) s' \<Longrightarrow> astep (abs s) e = Some (abs s')"
begin

lemma run_refines: "run step s es s' \<Longrightarrow> inv s \<Longrightarrow> abs_run astep (abs s) es = Some (abs s')"
proof (induction rule: run.induct)
  case (run_nil s)
  then show ?case by simp
next
  case (run_tau s es s' s'')
  then show ?case using sim_tau inv_run by fastforce
next
  case (run_vis s es s' e s'')
  then show ?case using sim_vis inv_run by (fastforce simp: abs_run_snoc)
qed

lemma trace_refines: "init s \<Longrightarrow> run step s es s' \<Longrightarrow> abs_run astep (abs s) es = Some (abs s')"
  using run_refines inv_init by blast

end

text \<open>
  The contract of a system with a budget: internal steps do not raise it, visible ones cost
  at least one unit. So the number of events is bounded by the budget at the start.
\<close>

locale event_budget =
  fixes step :: "'s \<Rightarrow> 'e option \<Rightarrow> 's \<Rightarrow> bool"
    and ok :: "'s \<Rightarrow> bool"
    and budget :: "'s \<Rightarrow> nat"
  assumes budget_ok: "ok s \<Longrightarrow> step s l s' \<Longrightarrow> ok s'"
    and budget_tau: "ok s \<Longrightarrow> step s None s' \<Longrightarrow> budget s' \<le> budget s"
    and budget_vis: "ok s \<Longrightarrow> step s (Some e) s' \<Longrightarrow> budget s' < budget s"
begin

lemma run_budget_ok: "run step s es s' \<Longrightarrow> ok s \<Longrightarrow> ok s'"
  by (induction rule: run.induct) (auto intro: budget_ok)

lemma run_budget: "run step s es s' \<Longrightarrow> ok s \<Longrightarrow> budget s' + length es \<le> budget s"
proof (induction rule: run.induct)
  case (run_tau s es s' s'')
  then show ?case using budget_tau run_budget_ok by fastforce
next
  case (run_vis s es s' e s'')
  then show ?case using budget_vis run_budget_ok by fastforce
qed simp

end

end
