(* ===== verification/Pthread.thy ===== *)
theory Pthread
  imports Lts
begin

text \<open>
  The synchronisation objects: the pthread mutex with the RAII wrapper of
  \<open>lockGuard.hpp\<close>, the condition variable and the semaphore with the wrapper of
  \<open>sem.hpp\<close>. A mutex is its owner. A call that blocks is \<open>None\<close>; so is a call whose
  behaviour POSIX leaves undefined (unlocking a mutex another thread owns).
  The waiters of a condition variable are the threads whose program counter is in the
  waiting class \<open>W\<close>; a wake-up moves one of them to its re-acquire state. POSIX allows
  spurious wake-ups, which the components have as separate steps.
\<close>

section \<open>Mutex and lockGuard\<close>

type_synonym mutex = "tid option"

definition pthread_mutex_lock :: "tid \<Rightarrow> mutex \<Rightarrow> mutex option" where
  "pthread_mutex_lock t m = (if m = None then Some (Some t) else None)"

definition pthread_mutex_unlock :: "tid \<Rightarrow> mutex \<Rightarrow> mutex option" where
  "pthread_mutex_unlock t m = (if m = Some t then Some None else None)"

definition Mutex_lock :: "tid \<Rightarrow> mutex \<Rightarrow> mutex option" where
  "Mutex_lock t m = pthread_mutex_lock t m"

definition Mutex_unlock :: "tid \<Rightarrow> mutex \<Rightarrow> mutex option" where
  "Mutex_unlock t m = pthread_mutex_unlock t m"

definition lockGuard_ctor :: "tid \<Rightarrow> mutex \<Rightarrow> mutex option" where
  "lockGuard_ctor t m = Mutex_lock t m"

definition lockGuard_dtor :: "tid \<Rightarrow> mutex \<Rightarrow> mutex option" where
  "lockGuard_dtor t m = Mutex_unlock t m"

lemma lockGuard_ctor_Some [simp]: "lockGuard_ctor t m = Some m' \<longleftrightarrow> m = None \<and> m' = Some t"
  by (auto simp: lockGuard_ctor_def Mutex_lock_def pthread_mutex_lock_def)

lemma lockGuard_dtor_Some [simp]: "lockGuard_dtor t m = Some m' \<longleftrightarrow> m = Some t \<and> m' = None"
  by (auto simp: lockGuard_dtor_def Mutex_unlock_def pthread_mutex_unlock_def)

lemma pthread_mutex_lock_Some [simp]:
  "pthread_mutex_lock t m = Some m' \<longleftrightarrow> m = None \<and> m' = Some t"
  by (auto simp: pthread_mutex_lock_def)

lemma pthread_mutex_unlock_Some [simp]:
  "pthread_mutex_unlock t m = Some m' \<longleftrightarrow> m = Some t \<and> m' = None"
  by (auto simp: pthread_mutex_unlock_def)

text \<open>What a critical section relies on, whichever lock provides it.\<close>

locale exclusive_lock =
  fixes acquire :: "tid \<Rightarrow> 'm \<Rightarrow> 'm option"
    and release :: "tid \<Rightarrow> 'm \<Rightarrow> 'm option"
    and owner :: "'m \<Rightarrow> tid option"
  assumes acquire_owner: "acquire t m = Some m' \<Longrightarrow> owner m = None \<and> owner m' = Some t"
    and acquire_free: "owner m = None \<Longrightarrow> acquire t m \<noteq> None"
    and release_owner: "release t m = Some m' \<Longrightarrow> owner m = Some t \<and> owner m' = None"
    and release_held: "owner m = Some t \<Longrightarrow> release t m \<noteq> None"
begin

lemma held_blocks: "acquire t m = Some m' \<Longrightarrow> acquire u m' = None"
  using acquire_owner by (metis not_Some_eq)

lemma scope_releases:
  "acquire t m = Some m' \<Longrightarrow> \<exists>m''. release t m' = Some m'' \<and> owner m'' = None"
  using acquire_owner release_held release_owner by (metis not_None_eq)

lemma only_owner_releases: "acquire t m = Some m' \<Longrightarrow> release u m' = Some m'' \<Longrightarrow> u = t"
  using acquire_owner release_owner by fastforce

end

interpretation guard: exclusive_lock lockGuard_ctor lockGuard_dtor "\<lambda>m. m"
  by unfold_locales
    (auto simp: lockGuard_ctor_def lockGuard_dtor_def Mutex_lock_def Mutex_unlock_def
      pthread_mutex_lock_def pthread_mutex_unlock_def split: if_splits)

interpretation raw_mutex: exclusive_lock pthread_mutex_lock pthread_mutex_unlock "\<lambda>m. m"
  by unfold_locales
    (auto simp: pthread_mutex_lock_def pthread_mutex_unlock_def split: if_splits)

section \<open>The mutex discipline\<close>

text \<open>
  \<open>mutex_inv h m ps\<close>: the threads whose program counter is in the critical region
  \<open>h\<close> are exactly the owner of the mutex. The lemmas are its preservation by the kinds
  of step a thread can make.
\<close>

definition mutex_inv :: "('p \<Rightarrow> bool) \<Rightarrow> mutex \<Rightarrow> 'p list \<Rightarrow> bool" where
  "mutex_inv h m ps \<longleftrightarrow>
     (\<forall>t < length ps. h (ps ! t) \<longleftrightarrow> m = Some t) \<and> (\<forall>t. m = Some t \<longrightarrow> t < length ps)"

lemma mutex_inv_owner: "mutex_inv h m ps \<Longrightarrow> t < length ps \<Longrightarrow> h (ps ! t) \<Longrightarrow> m = Some t"
  by (auto simp: mutex_inv_def)

lemma mutex_inv_held: "mutex_inv h (Some t) ps \<Longrightarrow> t < length ps \<and> h (ps ! t)"
  by (auto simp: mutex_inv_def)

lemma mutex_inv_unique:
  "mutex_inv h m ps \<Longrightarrow> t < length ps \<Longrightarrow> u < length ps \<Longrightarrow> h (ps ! t) \<Longrightarrow> h (ps ! u) \<Longrightarrow> t = u"
  by (auto simp: mutex_inv_def)

lemma mutex_inv_free: "mutex_inv h None ps \<Longrightarrow> t < length ps \<Longrightarrow> \<not> h (ps ! t)"
  by (auto simp: mutex_inv_def)

lemma mutex_inv_acquire:
  "mutex_inv h None ps \<Longrightarrow> t < length ps \<Longrightarrow> h p \<Longrightarrow> mutex_inv h (Some t) (ps[t := p])"
  by (auto simp: mutex_inv_def nth_list_update)

lemma mutex_inv_release:
  "mutex_inv h (Some t) ps \<Longrightarrow> \<not> h p \<Longrightarrow> mutex_inv h None (ps[t := p])"
  by (auto simp: mutex_inv_def nth_list_update)

lemma mutex_inv_stay:
  "mutex_inv h m ps \<Longrightarrow> t < length ps \<Longrightarrow> h (ps ! t) = h p \<Longrightarrow> mutex_inv h m (ps[t := p])"
  by (auto simp: mutex_inv_def nth_list_update)

section \<open>Condition variables\<close>

inductive pthread_cond_signal :: "('p \<Rightarrow> bool) \<Rightarrow> ('p \<Rightarrow> 'p) \<Rightarrow> 'p list \<Rightarrow> 'p list \<Rightarrow> bool"
  for W :: "'p \<Rightarrow> bool" and w :: "'p \<Rightarrow> 'p" where
  wake_one: "u < length ps \<Longrightarrow> W (ps ! u) \<Longrightarrow> pthread_cond_signal W w ps (ps[u := w (ps ! u)])"
| wake_none: "\<forall>u < length ps. \<not> W (ps ! u) \<Longrightarrow> pthread_cond_signal W w ps ps"

definition pthread_cond_broadcast :: "('p \<Rightarrow> bool) \<Rightarrow> ('p \<Rightarrow> 'p) \<Rightarrow> 'p list \<Rightarrow> 'p list" where
  "pthread_cond_broadcast W w ps = map (\<lambda>p. if W p then w p else p) ps"

lemma signal_length: "pthread_cond_signal W w ps ps' \<Longrightarrow> length ps' = length ps"
  by (auto elim: pthread_cond_signal.cases)

lemma signal_nth:
  "pthread_cond_signal W w ps ps' \<Longrightarrow> t < length ps \<Longrightarrow>
   ps' ! t = ps ! t \<or> (W (ps ! t) \<and> ps' ! t = w (ps ! t))"
  by (auto elim!: pthread_cond_signal.cases simp: nth_list_update split: if_splits)

lemma signal_other:
  "pthread_cond_signal W w ps ps' \<Longrightarrow> t < length ps \<Longrightarrow> \<not> W (ps ! t) \<Longrightarrow> ps' ! t = ps ! t"
  using signal_nth by metis

lemma signal_total: "\<exists>ps'. pthread_cond_signal W w ps ps'"
  by (metis pthread_cond_signal.wake_none pthread_cond_signal.wake_one)

lemma signal_wakes:
  assumes "pthread_cond_signal W w ps ps'" and "\<exists>t < length ps. W (ps ! t)"
  shows "\<exists>t < length ps. W (ps ! t) \<and> ps' ! t = w (ps ! t)"
  using assms by (cases rule: pthread_cond_signal.cases) (auto simp: nth_list_update)

lemma mutex_inv_signal:
  assumes "pthread_cond_signal W w ps ps'" and "mutex_inv h m ps"
    and "\<And>p. W p \<Longrightarrow> \<not> h p \<and> \<not> h (w p)"
  shows "mutex_inv h m ps'"
  using assms(1)
proof cases
  case (wake_one u)
  then show ?thesis using assms(2,3) by (auto intro!: mutex_inv_stay)
next
  case wake_none
  then show ?thesis using assms(2) by simp
qed

lemma signal_count:
  assumes "pthread_cond_signal W w ps ps'" and "\<And>p. W p \<Longrightarrow> P (w p) = P p"
  shows "count_pc P ps' = count_pc P ps"
  using assms(1) by cases (auto intro!: count_pc_same simp: assms(2))

text \<open>The same wake-up with the choice of the waiter made by the schedule.\<close>

definition signal_choice ::
  "('p \<Rightarrow> bool) \<Rightarrow> ('p \<Rightarrow> 'p) \<Rightarrow> 'p list \<Rightarrow> tid \<Rightarrow> 'p list option" where
  "signal_choice W w ps u =
     (if list_all (\<lambda>p. \<not> W p) ps then Some ps
      else if u < length ps \<and> W (ps ! u) then Some (ps[u := w (ps ! u)]) else None)"

lemma signal_choice_sound: "signal_choice W w ps u = Some ps' \<Longrightarrow> pthread_cond_signal W w ps ps'"
  by (auto simp: signal_choice_def list_all_length split: if_splits
      intro: pthread_cond_signal.intros)

section \<open>Semaphores\<close>

text \<open>
  \<open>Sem\<close>'s constructor passes an \<open>int\<close> to the \<open>unsigned\<close> parameter of \<open>sem_init\<close>.
\<close>

definition Sem_ctor :: "int \<Rightarrow> nat" where
  "Sem_ctor value = nat (value mod 2 ^ 32)"

definition Sem_p :: "nat \<Rightarrow> nat option" where
  "Sem_p v = (if 0 < v then Some (v - 1) else None)"

definition Sem_v :: "nat \<Rightarrow> nat" where
  "Sem_v v = Suc v"

lemma Sem_p_Some [simp]: "Sem_p v = Some v' \<longleftrightarrow> v = Suc v'"
  by (auto simp: Sem_p_def)

lemma Sem_ctor_nat [simp]: "n < 2 ^ 32 \<Longrightarrow> Sem_ctor (int n) = n"
  by (simp add: Sem_ctor_def)

end
