(* ===== verification/Fifo_Spec.thy ===== *)
theory Fifo_Spec
  imports Lts
begin

text \<open>
  What the queues of the program promise, independent of how they are built: a FIFO with
  an optional capacity. \<open>fifo_step\<close> is the abstract machine whose traces the blocking
  queue, the ring queue and the thread pool's task queue refine; the locale
  \<open>fifo_container\<close> is the contract of the container inside them (what \<open>front\<close> and
  \<open>pop\<close> give after \<open>push\<close>).
\<close>

datatype 'a qevent = Put 'a | Get 'a

type_synonym 'a fifo = "nat option \<times> 'a list"

definition has_room :: "nat option \<Rightarrow> 'a list \<Rightarrow> bool" where
  "has_room c q = (case c of None \<Rightarrow> True | Some n \<Rightarrow> length q < n)"

fun fifo_step :: "'a fifo \<Rightarrow> 'a qevent \<Rightarrow> 'a fifo option" where
  "fifo_step (c, q) (Put x) = (if has_room c q then Some (c, q @ [x]) else None)"
| "fifo_step (c, []) (Get x) = None"
| "fifo_step (c, y # q) (Get x) = (if x = y then Some (c, q) else None)"

fun puts :: "'a qevent list \<Rightarrow> 'a list" where
  "puts [] = []"
| "puts (Put x # es) = x # puts es"
| "puts (Get x # es) = puts es"

fun gets :: "'a qevent list \<Rightarrow> 'a list" where
  "gets [] = []"
| "gets (Put x # es) = gets es"
| "gets (Get x # es) = x # gets es"

lemma puts_append [simp]: "puts (es @ fs) = puts es @ puts fs"
  by (induction es rule: puts.induct) auto

lemma gets_append [simp]: "gets (es @ fs) = gets es @ gets fs"
  by (induction es rule: gets.induct) auto

lemma fifo_step_cap: "fifo_step (c, q) e = Some (c', q') \<Longrightarrow> c' = c"
  by (cases "((c, q), e)" rule: fifo_step.cases) (auto split: if_splits)

lemma fifo_step_content:
  "fifo_step (c, q) e = Some (c', q') \<Longrightarrow> q @ puts [e] = gets [e] @ q'"
  by (cases "((c, q), e)" rule: fifo_step.cases) (auto split: if_splits)

text \<open>FIFO order and conservation: what was put in is what was taken out, then what is left.\<close>

lemma fifo_run_order:
  "abs_run fifo_step (c, q) es = Some (c', q') \<Longrightarrow> c' = c \<and> q @ puts es = gets es @ q'"
proof (induction es arbitrary: q)
  case Nil
  then show ?case by simp
next
  case (Cons e es)
  then obtain d r where st: "fifo_step (c, q) e = Some (d, r)"
    and rest: "abs_run fifo_step (d, r) es = Some (c', q')"
    by (auto split: option.splits)
  have d: "d = c" using fifo_step_cap [OF st] by simp
  have IH: "c' = c \<and> r @ puts es = gets es @ q'"
    using Cons.IH rest by (simp add: d)
  have "q @ puts [e] = gets [e] @ r" by (rule fifo_step_content [OF st])
  then have "q @ puts (e # es) = gets [e] @ r @ puts es"
    using puts_append [of "[e]" es] by simp
  also have "\<dots> = gets (e # es) @ q'"
    using IH gets_append [of "[e]" es] by simp
  finally show ?case using IH by simp
qed

lemma fifo_run_bound:
  "abs_run fifo_step (Some n, q) es = Some (c', q') \<Longrightarrow> length q \<le> n \<Longrightarrow> length q' \<le> n"
proof (induction es arbitrary: q)
  case Nil
  then show ?case by simp
next
  case (Cons e es)
  then obtain d r where st: "fifo_step (Some n, q) e = Some (d, r)"
    and rest: "abs_run fifo_step (d, r) es = Some (c', q')"
    by (auto split: option.splits)
  have d: "d = Some n" using fifo_step_cap [OF st] by simp
  have "length r \<le> n"
    using st Cons.prems(2)
    by (cases "((Some n, q), e)" rule: fifo_step.cases) (auto simp: has_room_def split: if_splits)
  with Cons.IH rest d show ?case by simp
qed

section \<open>The container inside a queue\<close>

text \<open>
  The operations a queue's client calls: \<open>add\<close> (the body of \<open>push\<close> once there is room),
  \<open>remove\<close> (the body of \<open>pop\<close> once there is an element) and the two tests.
\<close>

locale fifo_container =
  fixes add :: "'a \<Rightarrow> 'q \<Rightarrow> 'q"
    and remove :: "'q \<Rightarrow> 'a \<times> 'q"
    and is_empty :: "'q \<Rightarrow> bool"
    and is_full :: "'q \<Rightarrow> bool"
    and content :: "'q \<Rightarrow> 'a list"
    and bound :: "'q \<Rightarrow> nat option"
    and wf :: "'q \<Rightarrow> bool"
  assumes empty_content: "wf q \<Longrightarrow> is_empty q = (content q = [])"
    and full_content: "wf q \<Longrightarrow> is_full q = (\<not> has_room (bound q) (content q))"
    and add_content: "wf q \<Longrightarrow> \<not> is_full q \<Longrightarrow> content (add x q) = content q @ [x]"
    and add_bound: "wf q \<Longrightarrow> \<not> is_full q \<Longrightarrow> bound (add x q) = bound q"
    and add_wf: "wf q \<Longrightarrow> \<not> is_full q \<Longrightarrow> wf (add x q)"
    and remove_fst: "wf q \<Longrightarrow> \<not> is_empty q \<Longrightarrow> fst (remove q) = hd (content q)"
    and remove_content: "wf q \<Longrightarrow> \<not> is_empty q \<Longrightarrow> content (snd (remove q)) = tl (content q)"
    and remove_bound: "wf q \<Longrightarrow> \<not> is_empty q \<Longrightarrow> bound (snd (remove q)) = bound q"
    and remove_wf: "wf q \<Longrightarrow> \<not> is_empty q \<Longrightarrow> wf (snd (remove q))"
begin

lemma add_refines:
  "wf q \<Longrightarrow> \<not> is_full q \<Longrightarrow>
   fifo_step (bound q, content q) (Put x) = Some (bound (add x q), content (add x q))"
  by (simp add: full_content add_content add_bound)

lemma remove_refines:
  assumes "wf q" and "\<not> is_empty q"
  shows "fifo_step (bound q, content q) (Get (fst (remove q)))
       = Some (bound (snd (remove q)), content (snd (remove q)))"
proof -
  obtain y ys where "content q = y # ys"
    using assms by (auto simp: empty_content neq_Nil_conv)
  with assms show ?thesis by (simp add: remove_fst remove_content remove_bound)
qed

lemma remove_after_add:
  assumes "wf q" and "is_empty q" and "\<not> is_full q"
  shows "fst (remove (add x q)) = x \<and> is_empty (snd (remove (add x q)))"
proof -
  have c: "content q = []" using assms by (simp add: empty_content)
  have w: "wf (add x q)" using assms by (simp add: add_wf)
  have ne: "\<not> is_empty (add x q)" using assms w c by (simp add: empty_content add_content)
  show ?thesis
    using assms c w ne remove_wf [OF w ne]
    by (simp add: empty_content remove_fst remove_content add_content)
qed

text \<open>
  Filling a queue and emptying it returns the elements in the order they went in.
\<close>

fun add_all :: "'a list \<Rightarrow> 'q \<Rightarrow> 'q" where
  "add_all [] q = q"
| "add_all (x # xs) q = add_all xs (add x q)"

fun remove_n :: "nat \<Rightarrow> 'q \<Rightarrow> 'a list" where
  "remove_n 0 q = []"
| "remove_n (Suc n) q = fst (remove q) # remove_n n (snd (remove q))"

lemma add_all_content:
  assumes "wf q" and "bound q = Some n" and "length (content q) + length xs \<le> n"
  shows "wf (add_all xs q) \<and> content (add_all xs q) = content q @ xs"
  using assms
proof (induction xs arbitrary: q)
  case Nil
  then show ?case by simp
next
  case (Cons x xs)
  have nf: "\<not> is_full q" using Cons.prems by (simp add: full_content has_room_def)
  have "wf (add_all xs (add x q)) \<and> content (add_all xs (add x q)) = content (add x q) @ xs"
    by (rule Cons.IH) (use Cons.prems nf in \<open>simp_all add: add_wf add_bound add_content\<close>)
  with Cons.prems nf show ?case by (simp add: add_content)
qed

lemma remove_n_content: "wf q \<Longrightarrow> n \<le> length (content q) \<Longrightarrow> remove_n n q = take n (content q)"
proof (induction n arbitrary: q)
  case 0
  then show ?case by simp
next
  case (Suc n)
  have ne: "\<not> is_empty q" using Suc.prems by (auto simp: empty_content)
  obtain y ys where c: "content q = y # ys" using Suc.prems by (cases "content q") auto
  have "remove_n n (snd (remove q)) = take n (content (snd (remove q)))"
    by (rule Suc.IH) (use Suc.prems ne in \<open>simp_all add: remove_wf remove_content\<close>)
  with Suc.prems ne c show ?case by (simp add: remove_fst remove_content)
qed

lemma fill_then_drain:
  assumes "wf q" and "is_empty q" and "bound q = Some n" and "length xs \<le> n"
  shows "remove_n (length xs) (add_all xs q) = xs"
proof -
  have c: "content q = []" using assms by (simp add: empty_content)
  have "wf (add_all xs q) \<and> content (add_all xs q) = content q @ xs"
    by (rule add_all_content [OF assms(1,3)]) (use assms(4) c in simp)
  with c show ?thesis by (simp add: remove_n_content)
qed

end

end
