(* ===== verification/Block_Queue.thy ===== *)
theory Block_Queue
  imports Pthread Fifo_Spec
begin

text \<open>
  \<open>0114/BlockQueue.hpp\<close>: the blocking bounded queue built from a \<open>std::queue\<close>, one mutex
  and two condition variables, and its clients in \<open>0114/ConProd.cc\<close>. The container's
  operations come first and are interpreted as a \<open>fifo_container\<close>; then every thread's
  program, one step per access to the shared state, with producers and consumers that loop
  for ever as \<open>productor\<close> and \<open>consumer\<close> do.
\<close>

section \<open>The container: __bq and __capacity\<close>

record 'a block_queue =
  bq :: "'a list"
  capacity :: nat

definition gDefaultCap :: nat where "gDefaultCap = 5"

definition BlockQueue_ctor :: "nat \<Rightarrow> 'a block_queue" where
  "BlockQueue_ctor cap = \<lparr>bq = [], capacity = cap\<rparr>"

definition isQueueEmpty :: "'a block_queue \<Rightarrow> bool" where
  "isQueueEmpty q \<longleftrightarrow> length (bq q) = 0"

definition isQueueFull :: "'a block_queue \<Rightarrow> bool" where
  "isQueueFull q \<longleftrightarrow> length (bq q) = capacity q"

definition bq_push :: "'a \<Rightarrow> 'a block_queue \<Rightarrow> 'a block_queue" where
  "bq_push x q = q\<lparr>bq := bq q @ [x]\<rparr>"

definition bq_wakes_consumer :: "'a block_queue \<Rightarrow> bool" where
  "bq_wakes_consumer q \<longleftrightarrow> capacity q div 2 \<le> length (bq q)"

definition bq_pop :: "'a block_queue \<Rightarrow> 'a \<times> 'a block_queue" where
  "bq_pop q = (hd (bq q), q\<lparr>bq := tl (bq q)\<rparr>)"

definition bq_wf :: "'a block_queue \<Rightarrow> bool" where
  "bq_wf q \<longleftrightarrow> length (bq q) \<le> capacity q"

lemmas bq_ops = isQueueEmpty_def isQueueFull_def bq_push_def bq_pop_def bq_wf_def

interpretation bqc: fifo_container bq_push bq_pop isQueueEmpty isQueueFull bq
  "\<lambda>q. Some (capacity q)" bq_wf
  by unfold_locales (auto simp: bq_ops has_room_def)

section \<open>The threads\<close>

text \<open>
  Where a thread is. \<open>Push_Wait\<close> and \<open>Pop_Wait\<close> are inside \<open>pthread_cond_wait\<close> with the
  mutex released; \<open>Push_Wake\<close> and \<open>Pop_Wake\<close> have been woken and compete for the mutex
  before \<open>pthread_cond_wait\<close> returns. \<open>Cons_Use x\<close> is a consumer that runs the task it took.
\<close>

datatype 'a bq_pc =
    Prod_Make
  | Push_Lock 'a | Push_Test 'a | Push_Wait 'a | Push_Wake 'a | Push_Put 'a
  | Push_Sig 'a | Push_Unlock 'a | Prod_Print 'a
  | Pop_Lock | Pop_Test | Pop_Wait | Pop_Wake | Pop_Take
  | Pop_Sig 'a | Pop_Unlock 'a | Cons_Use 'a

record 'a bq_sys =
  bqs_q :: "'a block_queue"
  bqs_mtx :: mutex
  bqs_pcs :: "'a bq_pc list"

fun waits_Full :: "'a bq_pc \<Rightarrow> bool" where
  "waits_Full (Push_Wait x) = True"
| "waits_Full _ = False"

fun waits_Empty :: "'a bq_pc \<Rightarrow> bool" where
  "waits_Empty Pop_Wait = True"
| "waits_Empty _ = False"

fun bq_wake :: "'a bq_pc \<Rightarrow> 'a bq_pc" where
  "bq_wake (Push_Wait x) = Push_Wake x"
| "bq_wake Pop_Wait = Pop_Wake"
| "bq_wake p = p"

definition bq_init :: "nat \<Rightarrow> nat \<Rightarrow> nat \<Rightarrow> 'a bq_sys \<Rightarrow> bool" where
  "bq_init cap np nc s \<longleftrightarrow>
     s = \<lparr>bqs_q = BlockQueue_ctor cap, bqs_mtx = None,
          bqs_pcs = replicate nc Pop_Lock @ replicate np Prod_Make\<rparr>"

text \<open>
  \<open>mk\<close> is the set of values a producer can make (what \<open>rand()\<close> leaves open).
\<close>

inductive push_step ::
  "('a \<Rightarrow> bool) \<Rightarrow> 'a bq_sys \<Rightarrow> 'a qevent option \<Rightarrow> 'a bq_sys \<Rightarrow> bool"
  for mk :: "'a \<Rightarrow> bool" where
  make: "t < length (bqs_pcs s) \<Longrightarrow> bqs_pcs s ! t = Prod_Make \<Longrightarrow> mk x \<Longrightarrow>
    push_step mk s None (s\<lparr>bqs_pcs := (bqs_pcs s)[t := Push_Lock x]\<rparr>)"
| lock: "t < length (bqs_pcs s) \<Longrightarrow> bqs_pcs s ! t = Push_Lock x \<Longrightarrow>
    lockGuard_ctor t (bqs_mtx s) = Some m \<Longrightarrow>
    push_step mk s None (s\<lparr>bqs_mtx := m, bqs_pcs := (bqs_pcs s)[t := Push_Test x]\<rparr>)"
| wait: "t < length (bqs_pcs s) \<Longrightarrow> bqs_pcs s ! t = Push_Test x \<Longrightarrow> isQueueFull (bqs_q s) \<Longrightarrow>
    pthread_mutex_unlock t (bqs_mtx s) = Some m \<Longrightarrow>
    push_step mk s None (s\<lparr>bqs_mtx := m, bqs_pcs := (bqs_pcs s)[t := Push_Wait x]\<rparr>)"
| wake: "t < length (bqs_pcs s) \<Longrightarrow> bqs_pcs s ! t = Push_Wake x \<Longrightarrow>
    pthread_mutex_lock t (bqs_mtx s) = Some m \<Longrightarrow>
    push_step mk s None (s\<lparr>bqs_mtx := m, bqs_pcs := (bqs_pcs s)[t := Push_Test x]\<rparr>)"
| room: "t < length (bqs_pcs s) \<Longrightarrow> bqs_pcs s ! t = Push_Test x \<Longrightarrow> \<not> isQueueFull (bqs_q s) \<Longrightarrow>
    push_step mk s None (s\<lparr>bqs_pcs := (bqs_pcs s)[t := Push_Put x]\<rparr>)"
| put: "t < length (bqs_pcs s) \<Longrightarrow> bqs_pcs s ! t = Push_Put x \<Longrightarrow>
    push_step mk s (Some (Put x))
      (s\<lparr>bqs_q := bq_push x (bqs_q s), bqs_pcs := (bqs_pcs s)[t := Push_Sig x]\<rparr>)"
| signal: "t < length (bqs_pcs s) \<Longrightarrow> bqs_pcs s ! t = Push_Sig x \<Longrightarrow>
    bq_wakes_consumer (bqs_q s) \<Longrightarrow> pthread_cond_signal waits_Empty bq_wake (bqs_pcs s) ps \<Longrightarrow>
    push_step mk s None (s\<lparr>bqs_pcs := ps[t := Push_Unlock x]\<rparr>)"
| no_signal: "t < length (bqs_pcs s) \<Longrightarrow> bqs_pcs s ! t = Push_Sig x \<Longrightarrow>
    \<not> bq_wakes_consumer (bqs_q s) \<Longrightarrow>
    push_step mk s None (s\<lparr>bqs_pcs := (bqs_pcs s)[t := Push_Unlock x]\<rparr>)"
| unlock: "t < length (bqs_pcs s) \<Longrightarrow> bqs_pcs s ! t = Push_Unlock x \<Longrightarrow>
    lockGuard_dtor t (bqs_mtx s) = Some m \<Longrightarrow>
    push_step mk s None (s\<lparr>bqs_mtx := m, bqs_pcs := (bqs_pcs s)[t := Prod_Print x]\<rparr>)"
| print: "t < length (bqs_pcs s) \<Longrightarrow> bqs_pcs s ! t = Prod_Print x \<Longrightarrow>
    push_step mk s None (s\<lparr>bqs_pcs := (bqs_pcs s)[t := Prod_Make]\<rparr>)"

inductive pop_step :: "'a bq_sys \<Rightarrow> 'a qevent option \<Rightarrow> 'a bq_sys \<Rightarrow> bool" where
  lock: "t < length (bqs_pcs s) \<Longrightarrow> bqs_pcs s ! t = Pop_Lock \<Longrightarrow>
    lockGuard_ctor t (bqs_mtx s) = Some m \<Longrightarrow>
    pop_step s None (s\<lparr>bqs_mtx := m, bqs_pcs := (bqs_pcs s)[t := Pop_Test]\<rparr>)"
| wait: "t < length (bqs_pcs s) \<Longrightarrow> bqs_pcs s ! t = Pop_Test \<Longrightarrow> isQueueEmpty (bqs_q s) \<Longrightarrow>
    pthread_mutex_unlock t (bqs_mtx s) = Some m \<Longrightarrow>
    pop_step s None (s\<lparr>bqs_mtx := m, bqs_pcs := (bqs_pcs s)[t := Pop_Wait]\<rparr>)"
| wake: "t < length (bqs_pcs s) \<Longrightarrow> bqs_pcs s ! t = Pop_Wake \<Longrightarrow>
    pthread_mutex_lock t (bqs_mtx s) = Some m \<Longrightarrow>
    pop_step s None (s\<lparr>bqs_mtx := m, bqs_pcs := (bqs_pcs s)[t := Pop_Test]\<rparr>)"
| ready: "t < length (bqs_pcs s) \<Longrightarrow> bqs_pcs s ! t = Pop_Test \<Longrightarrow> \<not> isQueueEmpty (bqs_q s) \<Longrightarrow>
    pop_step s None (s\<lparr>bqs_pcs := (bqs_pcs s)[t := Pop_Take]\<rparr>)"
| take: "t < length (bqs_pcs s) \<Longrightarrow> bqs_pcs s ! t = Pop_Take \<Longrightarrow> bq_pop (bqs_q s) = (x, q) \<Longrightarrow>
    pop_step s (Some (Get x))
      (s\<lparr>bqs_q := q, bqs_pcs := (bqs_pcs s)[t := Pop_Sig x]\<rparr>)"
| signal: "t < length (bqs_pcs s) \<Longrightarrow> bqs_pcs s ! t = Pop_Sig x \<Longrightarrow>
    pthread_cond_signal waits_Full bq_wake (bqs_pcs s) ps \<Longrightarrow>
    pop_step s None (s\<lparr>bqs_pcs := ps[t := Pop_Unlock x]\<rparr>)"
| unlock: "t < length (bqs_pcs s) \<Longrightarrow> bqs_pcs s ! t = Pop_Unlock x \<Longrightarrow>
    lockGuard_dtor t (bqs_mtx s) = Some m \<Longrightarrow>
    pop_step s None (s\<lparr>bqs_mtx := m, bqs_pcs := (bqs_pcs s)[t := Cons_Use x]\<rparr>)"
| use: "t < length (bqs_pcs s) \<Longrightarrow> bqs_pcs s ! t = Cons_Use x \<Longrightarrow>
    pop_step s None (s\<lparr>bqs_pcs := (bqs_pcs s)[t := Pop_Lock]\<rparr>)"

text \<open>A step of the programs, and a step of the system with POSIX's spurious wake-ups.\<close>

definition bq_prog_step ::
  "('a \<Rightarrow> bool) \<Rightarrow> 'a bq_sys \<Rightarrow> 'a qevent option \<Rightarrow> 'a bq_sys \<Rightarrow> bool" where
  "bq_prog_step mk s l s' \<longleftrightarrow> push_step mk s l s' \<or> pop_step s l s'"

definition bq_spurious :: "'a bq_sys \<Rightarrow> 'a bq_sys \<Rightarrow> bool" where
  "bq_spurious s s' \<longleftrightarrow>
     (\<exists>t < length (bqs_pcs s). (waits_Full (bqs_pcs s ! t) \<or> waits_Empty (bqs_pcs s ! t)) \<and>
        s' = s\<lparr>bqs_pcs := (bqs_pcs s)[t := bq_wake (bqs_pcs s ! t)]\<rparr>)"

definition bq_step ::
  "('a \<Rightarrow> bool) \<Rightarrow> 'a bq_sys \<Rightarrow> 'a qevent option \<Rightarrow> 'a bq_sys \<Rightarrow> bool" where
  "bq_step mk s l s' \<longleftrightarrow> bq_prog_step mk s l s' \<or> (l = None \<and> bq_spurious s s')"

text \<open>An executable step: thread \<open>t\<close> moves, a producer makes \<open>x\<close>, a signal wakes \<open>u\<close>.\<close>

definition bq_exec ::
  "tid \<times> 'a \<times> tid \<Rightarrow> 'a bq_sys \<Rightarrow> ('a qevent option \<times> 'a bq_sys) option" where
  "bq_exec c s = (case c of (t, x, u) \<Rightarrow>
     if \<not> t < length (bqs_pcs s) then None else
     let go = (\<lambda>m q ps p. s\<lparr>bqs_q := q, bqs_mtx := m, bqs_pcs := ps[t := p]\<rparr>);
         m = bqs_mtx s; q = bqs_q s; ps = bqs_pcs s in
     (case ps ! t of
        Prod_Make \<Rightarrow> Some (None, go m q ps (Push_Lock x))
      | Push_Lock y \<Rightarrow> map_option (\<lambda>m'. (None, go m' q ps (Push_Test y))) (lockGuard_ctor t m)
      | Push_Test y \<Rightarrow>
          if isQueueFull q
          then map_option (\<lambda>m'. (None, go m' q ps (Push_Wait y))) (pthread_mutex_unlock t m)
          else Some (None, go m q ps (Push_Put y))
      | Push_Wait y \<Rightarrow> None
      | Push_Wake y \<Rightarrow> map_option (\<lambda>m'. (None, go m' q ps (Push_Test y))) (pthread_mutex_lock t m)
      | Push_Put y \<Rightarrow> Some (Some (Put y), go m (bq_push y q) ps (Push_Sig y))
      | Push_Sig y \<Rightarrow>
          if bq_wakes_consumer q
          then map_option (\<lambda>ps'. (None, go m q ps' (Push_Unlock y)))
                 (signal_choice waits_Empty bq_wake ps u)
          else Some (None, go m q ps (Push_Unlock y))
      | Push_Unlock y \<Rightarrow> map_option (\<lambda>m'. (None, go m' q ps (Prod_Print y))) (lockGuard_dtor t m)
      | Prod_Print y \<Rightarrow> Some (None, go m q ps Prod_Make)
      | Pop_Lock \<Rightarrow> map_option (\<lambda>m'. (None, go m' q ps Pop_Test)) (lockGuard_ctor t m)
      | Pop_Test \<Rightarrow>
          if isQueueEmpty q
          then map_option (\<lambda>m'. (None, go m' q ps Pop_Wait)) (pthread_mutex_unlock t m)
          else Some (None, go m q ps Pop_Take)
      | Pop_Wait \<Rightarrow> None
      | Pop_Wake \<Rightarrow> map_option (\<lambda>m'. (None, go m' q ps Pop_Test)) (pthread_mutex_lock t m)
      | Pop_Take \<Rightarrow> (case bq_pop q of (y, q') \<Rightarrow> Some (Some (Get y), go m q' ps (Pop_Sig y)))
      | Pop_Sig y \<Rightarrow>
          map_option (\<lambda>ps'. (None, go m q ps' (Pop_Unlock y))) (signal_choice waits_Full bq_wake ps u)
      | Pop_Unlock y \<Rightarrow> map_option (\<lambda>m'. (None, go m' q ps (Cons_Use y))) (lockGuard_dtor t m)
      | Cons_Use y \<Rightarrow> Some (None, go m q ps Pop_Lock)))"

lemma bq_sys_self [simp]: "s\<lparr>bqs_q := bqs_q s\<rparr> = s" "s\<lparr>bqs_mtx := bqs_mtx s\<rparr> = s"
  by simp_all

lemma bq_exec_sound: "bq_exec (t, x, u) s = Some (l, s') \<Longrightarrow> mk x \<Longrightarrow> bq_step mk s l s'"
  by (auto simp: bq_exec_def Let_def bq_step_def bq_prog_step_def
      split: bq_pc.splits if_splits prod.splits
      intro: push_step.intros pop_step.intros dest!: signal_choice_sound)

lemma bq_schedule_run:
  assumes "schedule bq_exec s cs = Some (es, s')" and "\<forall>c \<in> set cs. mk (fst (snd c))"
  shows "run (bq_step mk) s es s'"
  by (rule schedule_run [OF assms(1)]) (use assms(2) bq_exec_sound in fastforce)

section \<open>The invariant\<close>

fun bq_in_cs :: "'a bq_pc \<Rightarrow> bool" where
  "bq_in_cs (Push_Test x) = True"
| "bq_in_cs (Push_Put x) = True"
| "bq_in_cs (Push_Sig x) = True"
| "bq_in_cs (Push_Unlock x) = True"
| "bq_in_cs Pop_Test = True"
| "bq_in_cs Pop_Take = True"
| "bq_in_cs (Pop_Sig x) = True"
| "bq_in_cs (Pop_Unlock x) = True"
| "bq_in_cs _ = False"

fun bq_pc_ok :: "'a block_queue \<Rightarrow> 'a bq_pc \<Rightarrow> bool" where
  "bq_pc_ok q (Push_Put x) = (\<not> isQueueFull q)"
| "bq_pc_ok q Pop_Take = (\<not> isQueueEmpty q)"
| "bq_pc_ok q _ = True"

definition bq_inv :: "'a bq_sys \<Rightarrow> bool" where
  "bq_inv s \<longleftrightarrow> bq_wf (bqs_q s) \<and> mutex_inv bq_in_cs (bqs_mtx s) (bqs_pcs s) \<and>
     (\<forall>t. bqs_mtx s = Some t \<longrightarrow> bq_pc_ok (bqs_q s) (bqs_pcs s ! t))"

lemma waits_not_in_cs:
  "waits_Empty p \<Longrightarrow> \<not> bq_in_cs p \<and> \<not> bq_in_cs (bq_wake p)"
  "waits_Full p \<Longrightarrow> \<not> bq_in_cs p \<and> \<not> bq_in_cs (bq_wake p)"
  by (cases p; simp)+

lemma bq_inv_holder:
  "bq_inv s \<Longrightarrow> t < length (bqs_pcs s) \<Longrightarrow> bq_in_cs (bqs_pcs s ! t) \<Longrightarrow>
   bqs_mtx s = Some t \<and> bq_pc_ok (bqs_q s) (bqs_pcs s ! t)"
  by (auto simp: bq_inv_def dest: mutex_inv_owner)

text \<open>One lemma per kind of step: entering the critical section, leaving it, moving in it,
  moving outside it.\<close>

lemma bq_inv_acquire:
  "bq_inv s \<Longrightarrow> bqs_mtx s = None \<Longrightarrow> t < length (bqs_pcs s) \<Longrightarrow> bq_in_cs p \<Longrightarrow>
   bq_pc_ok (bqs_q s) p \<Longrightarrow> bq_inv (s\<lparr>bqs_mtx := Some t, bqs_pcs := (bqs_pcs s)[t := p]\<rparr>)"
  by (auto simp: bq_inv_def mutex_inv_acquire)

lemma bq_inv_release:
  "bq_inv s \<Longrightarrow> bqs_mtx s = Some t \<Longrightarrow> \<not> bq_in_cs p \<Longrightarrow>
   bq_inv (s\<lparr>bqs_mtx := None, bqs_pcs := (bqs_pcs s)[t := p]\<rparr>)"
  by (auto simp: bq_inv_def mutex_inv_release)

lemma bq_inv_inside:
  "bq_inv s \<Longrightarrow> t < length (bqs_pcs s) \<Longrightarrow> bq_in_cs (bqs_pcs s ! t) \<Longrightarrow> bq_in_cs p \<Longrightarrow>
   bq_wf q \<Longrightarrow> bq_pc_ok q p \<Longrightarrow>
   bq_inv (s\<lparr>bqs_q := q, bqs_pcs := (bqs_pcs s)[t := p]\<rparr>)"
  by (auto simp: bq_inv_def mutex_inv_stay dest: mutex_inv_owner)

lemma bq_inv_outside:
  "bq_inv s \<Longrightarrow> t < length (bqs_pcs s) \<Longrightarrow> \<not> bq_in_cs (bqs_pcs s ! t) \<Longrightarrow> \<not> bq_in_cs p \<Longrightarrow>
   bq_inv (s\<lparr>bqs_pcs := (bqs_pcs s)[t := p]\<rparr>)"
  by (auto simp: bq_inv_def mutex_inv_stay nth_list_update dest: mutex_inv_held)

lemma bq_inv_signal:
  assumes inv: "bq_inv s" and sig: "pthread_cond_signal W bq_wake (bqs_pcs s) ps"
    and W: "\<And>p. W p \<Longrightarrow> \<not> bq_in_cs p \<and> \<not> bq_in_cs (bq_wake p)"
  shows "bq_inv (s\<lparr>bqs_pcs := ps\<rparr>)"
  using sig
proof cases
  case (wake_one u)
  then show ?thesis using bq_inv_outside [OF inv] W by simp
next
  case wake_none
  then show ?thesis using inv by simp
qed

lemma bq_inv_signal_step:
  assumes inv: "bq_inv s" and sig: "pthread_cond_signal W bq_wake (bqs_pcs s) ps"
    and W: "\<And>p. W p \<Longrightarrow> \<not> bq_in_cs p \<and> \<not> bq_in_cs (bq_wake p)"
    and t: "t < length (bqs_pcs s)" "bq_in_cs (bqs_pcs s ! t)"
    and p: "bq_in_cs p" "\<And>q. bq_pc_ok q p"
  shows "bq_inv (s\<lparr>bqs_pcs := ps[t := p]\<rparr>)"
proof -
  let ?s = "s\<lparr>bqs_pcs := ps\<rparr>"
  have inv': "bq_inv ?s" by (rule bq_inv_signal [OF inv sig W])
  have "ps ! t = bqs_pcs s ! t" using signal_other [OF sig t(1)] t(2) W by blast
  then have "bq_inv (?s\<lparr>bqs_q := bqs_q ?s, bqs_pcs := (bqs_pcs ?s)[t := p]\<rparr>)"
    using inv' t p signal_length [OF sig]
    by (intro bq_inv_inside) (auto simp: bq_inv_def)
  then show ?thesis by simp
qed

lemma push_step_inv: "push_step mk s l s' \<Longrightarrow> bq_inv s \<Longrightarrow> bq_inv s'"
proof (induction rule: push_step.induct)
  case (put t s x)
  then have h: "bqs_mtx s = Some t \<and> bq_pc_ok (bqs_q s) (bqs_pcs s ! t)"
    by (intro bq_inv_holder) simp_all
  have "bq_wf (bqs_q s)" using put.prems by (simp add: bq_inv_def)
  with put h show ?case by (intro bq_inv_inside) (simp_all add: bqc.add_wf)
next
  case (signal t s x ps)
  show ?case
    by (rule bq_inv_signal_step [OF signal.prems signal.hyps(4)])
      (use signal.hyps in \<open>simp_all add: waits_not_in_cs\<close>)
next
  case (room t s x)
  then have "bq_inv (s\<lparr>bqs_q := bqs_q s, bqs_pcs := (bqs_pcs s)[t := Push_Put x]\<rparr>)"
    by (intro bq_inv_inside) (simp_all add: bq_inv_def)
  then show ?case by simp
next
  case (no_signal t s x)
  then have "bq_inv (s\<lparr>bqs_q := bqs_q s, bqs_pcs := (bqs_pcs s)[t := Push_Unlock x]\<rparr>)"
    by (intro bq_inv_inside) (simp_all add: bq_inv_def)
  then show ?case by simp
qed (auto intro!: bq_inv_acquire bq_inv_release bq_inv_outside)

lemma pop_step_inv: "pop_step s l s' \<Longrightarrow> bq_inv s \<Longrightarrow> bq_inv s'"
proof (induction rule: pop_step.induct)
  case (take t s x q)
  then have h: "bqs_mtx s = Some t \<and> bq_pc_ok (bqs_q s) (bqs_pcs s ! t)"
    by (intro bq_inv_holder) simp_all
  have "bq_wf (bqs_q s)" using take.prems by (simp add: bq_inv_def)
  with take h have "bq_wf q" using bqc.remove_wf [of "bqs_q s"] by simp
  with take show ?case by (intro bq_inv_inside) simp_all
next
  case (signal t s x ps)
  show ?case
    by (rule bq_inv_signal_step [OF signal.prems signal.hyps(3)])
      (use signal.hyps in \<open>simp_all add: waits_not_in_cs\<close>)
next
  case (ready t s)
  then have "bq_inv (s\<lparr>bqs_q := bqs_q s, bqs_pcs := (bqs_pcs s)[t := Pop_Take]\<rparr>)"
    by (intro bq_inv_inside) (simp_all add: bq_inv_def)
  then show ?case by simp
qed (auto intro!: bq_inv_acquire bq_inv_release bq_inv_outside)

lemma bq_spurious_inv: "bq_spurious s s' \<Longrightarrow> bq_inv s \<Longrightarrow> bq_inv s'"
  unfolding bq_spurious_def using waits_not_in_cs bq_inv_outside by blast

lemma bq_step_inv: "bq_inv s \<Longrightarrow> bq_step mk s l s' \<Longrightarrow> bq_inv s'"
  unfolding bq_step_def bq_prog_step_def
  using push_step_inv pop_step_inv bq_spurious_inv by blast

lemma bq_init_inv: "bq_init cap np nc s \<Longrightarrow> bq_inv s"
  by (auto simp: bq_init_def bq_inv_def BlockQueue_ctor_def bq_wf_def mutex_inv_def nth_append)

section \<open>Refinement of the abstract FIFO\<close>

definition bq_abs :: "'a bq_sys \<Rightarrow> 'a fifo" where
  "bq_abs s = (Some (capacity (bqs_q s)), bq (bqs_q s))"

lemma bq_tau_abs: "bq_step mk s None s' \<Longrightarrow> bq_abs s' = bq_abs s"
  by (auto simp: bq_step_def bq_prog_step_def bq_spurious_def bq_abs_def
      elim!: push_step.cases pop_step.cases)

lemma bq_vis_abs:
  assumes inv: "bq_inv s" and step: "bq_step mk s (Some e) s'"
  shows "fifo_step (bq_abs s) e = Some (bq_abs s')"
proof -
  have wf: "bq_wf (bqs_q s)" using inv by (simp add: bq_inv_def)
  from step consider "push_step mk s (Some e) s'" | "pop_step s (Some e) s'"
    by (auto simp: bq_step_def bq_prog_step_def)
  then show ?thesis
  proof cases
    case 1
    then show ?thesis
    proof cases
      case (put t x)
      then have "\<not> isQueueFull (bqs_q s)" using bq_inv_holder [OF inv] by fastforce
      then show ?thesis
        using bqc.add_refines [OF wf, of x] put by (simp add: bq_abs_def del: fifo_step.simps)
    qed
  next
    case 2
    then show ?thesis
    proof cases
      case (take t x q)
      then have "\<not> isQueueEmpty (bqs_q s)" using bq_inv_holder [OF inv] by fastforce
      then show ?thesis
        using bqc.remove_refines [OF wf] take by (simp add: bq_abs_def)
    qed
  qed
qed

interpretation bql: trace_refinement "bq_init cap np nc" "bq_step mk" bq_inv bq_abs fifo_step
  for cap np nc :: nat and mk :: "'a \<Rightarrow> bool"
  by unfold_locales (auto intro: bq_init_inv bq_step_inv bq_tau_abs bq_vis_abs)

text \<open>A concrete run: the consumer waits, the producer pushes 7 and wakes it, it takes 7.\<close>

lemma bq_demo_run:
  "\<exists>s0 (s :: nat bq_sys). bq_init 1 1 1 s0 \<and> run (bq_step (\<lambda>_. True)) s0 [Put 7, Get 7] s \<and>
     bqs_mtx s = Some 0 \<and> bqs_pcs s = [Pop_Sig 7, Prod_Print 7]"
proof -
  define s0 :: "nat bq_sys" where
    "s0 = \<lparr>bqs_q = BlockQueue_ctor 1, bqs_mtx = None, bqs_pcs = [Pop_Lock, Prod_Make]\<rparr>"
  let ?cs = "[(0, 0, 0), (0, 0, 0), (1, 7, 0), (1, 0, 0), (1, 0, 0), (1, 0, 0), (1, 0, 0),
              (1, 0, 0), (0, 0, 0), (0, 0, 0), (0, 0, 0)] :: (nat \<times> nat \<times> nat) list"
  have "\<exists>s. schedule bq_exec s0 ?cs = Some ([Put 7, Get 7], s) \<and> bqs_mtx s = Some 0 \<and>
          bqs_pcs s = [Pop_Sig 7, Prod_Print 7]"
    by (simp add: s0_def bq_exec_def BlockQueue_ctor_def isQueueEmpty_def isQueueFull_def
        bq_push_def bq_pop_def bq_wakes_consumer_def signal_choice_def
        lockGuard_ctor_def lockGuard_dtor_def Mutex_lock_def Mutex_unlock_def
        pthread_mutex_lock_def pthread_mutex_unlock_def)
  moreover have "bq_init 1 1 1 s0" by (simp add: bq_init_def s0_def)
  ultimately show ?thesis using bq_schedule_run [where mk = "\<lambda>_. True"] by blast
qed

text \<open>
  C2. The blocking queue is a bounded FIFO: along every interleaving of any number of
  producers and consumers, spurious wake-ups included, the values put in are the values
  taken out, in the same order, followed by what the queue holds, and the queue never
  holds more than its capacity.
\<close>

theorem block_queue_is_bounded_fifo:
  assumes "bq_init cap np nc s0" and "run (bq_step mk) s0 es s"
  shows "puts es = gets es @ bq (bqs_q s) \<and> length (bq (bqs_q s)) \<le> cap"
proof -
  have "abs_run fifo_step (bq_abs s0) es = Some (bq_abs s)"
    by (rule bql.trace_refines [OF assms])
  moreover have "bq_abs s0 = (Some cap, [])"
    using assms(1) by (simp add: bq_init_def bq_abs_def BlockQueue_ctor_def)
  ultimately have r: "abs_run fifo_step (Some cap, []) es = Some (bq_abs s)" by simp
  show ?thesis
    using fifo_run_order [OF r [unfolded bq_abs_def]] fifo_run_bound [OF r [unfolded bq_abs_def]]
    by simp
qed

theorem block_queue_is_bounded_fifo_witness:
  "\<exists>s :: nat bq_sys. puts [Put 7, Get 7] = gets [Put 7, Get 7] @ bq (bqs_q s) \<and>
     length (bq (bqs_q s)) \<le> 1 \<and> bqs_mtx s = Some 0"
  using bq_demo_run block_queue_is_bounded_fifo by blast

text \<open>
  C7. Mutual exclusion and safe access: at most one thread is between locking and
  unlocking, \<open>__bq.push\<close> only runs when the queue has room and \<open>front\<close>/\<open>pop\<close> only
  when it is not empty.
\<close>

theorem block_queue_mutual_exclusion:
  assumes "reachable (bq_init cap np nc) (bq_step mk) s"
    and "t < length (bqs_pcs s)" and "bq_in_cs (bqs_pcs s ! t)"
  shows "(\<forall>u < length (bqs_pcs s). bq_in_cs (bqs_pcs s ! u) \<longrightarrow> u = t) \<and>
     (\<forall>x. bqs_pcs s ! t = Push_Put x \<longrightarrow> length (bq (bqs_q s)) < capacity (bqs_q s)) \<and>
     (bqs_pcs s ! t = Pop_Take \<longrightarrow> bq (bqs_q s) \<noteq> [])"
proof -
  have inv: "bq_inv s" by (rule bql.inv_reachable [OF assms(1)])
  then have mi: "mutex_inv bq_in_cs (bqs_mtx s) (bqs_pcs s)" and wf: "bq_wf (bqs_q s)"
    by (simp_all add: bq_inv_def)
  have ok: "bq_pc_ok (bqs_q s) (bqs_pcs s ! t)" using bq_inv_holder [OF inv assms(2,3)] by simp
  have "u = t" if "u < length (bqs_pcs s)" "bq_in_cs (bqs_pcs s ! u)" for u
    using mutex_inv_unique [OF mi that(1) assms(2) that(2) assms(3)] .
  with ok wf show ?thesis by (fastforce simp: bq_ops)
qed

theorem block_queue_mutual_exclusion_witness:
  "\<exists>s :: nat bq_sys. bqs_pcs s = [Pop_Sig 7, Prod_Print 7] \<and>
     (\<forall>u < length (bqs_pcs s). bq_in_cs (bqs_pcs s ! u) \<longrightarrow> u = 0)"
proof -
  obtain s0 and s :: "nat bq_sys" where i: "bq_init 1 1 1 s0"
    and r: "run (bq_step (\<lambda>_. True)) s0 [Put 7, Get 7] s"
    and p: "bqs_pcs s = [Pop_Sig 7, Prod_Print 7]" using bq_demo_run by blast
  have "reachable (bq_init 1 1 1) (bq_step (\<lambda>_. True)) s" by (rule reachable_run [where I = "bq_init 1 1 1", OF i r])
  from block_queue_mutual_exclusion [OF this, of 0] p
  have "\<forall>u < length (bqs_pcs s). bq_in_cs (bqs_pcs s ! u) \<longrightarrow> u = 0" by simp
  with p show ?thesis by blast
qed

end
