(* ===== verification/Con_Prod.thy ===== *)
theory Con_Prod
  imports Block_Queue
begin

text \<open>
  \<open>0114/ConProd.cc\<close> over the blocking queue: the tasks the producers make, what the
  consumers compute from them, and the two liveness facts of the queue with its clients:
  it never deadlocks, but a consumer can stay asleep while the queue holds work.
\<close>

section \<open>Tasks\<close>

record task =
  task_x :: int
  task_y :: int
  task_func :: "int \<Rightarrow> int \<Rightarrow> int"

definition Task_ctor :: "int \<Rightarrow> int \<Rightarrow> (int \<Rightarrow> int \<Rightarrow> int) \<Rightarrow> task" where
  "Task_ctor x y f = \<lparr>task_x = x, task_y = y, task_func = f\<rparr>"

definition Task_call :: "task \<Rightarrow> int" where
  "Task_call t = task_func t (task_x t) (task_y t)"

definition myadd :: "int \<Rightarrow> int \<Rightarrow> int" where
  "myadd x y = x + y"

text \<open>\<open>rand()\<close> gives a value between 0 and \<open>RAND_MAX\<close>; two calls per task.\<close>

definition productor_task :: "nat \<Rightarrow> nat \<Rightarrow> task" where
  "productor_task r1 r2 = Task_ctor (int (r1 mod 10) + 1) (int (r2 mod 5) + 1) myadd"

definition made_by_productor :: "task \<Rightarrow> bool" where
  "made_by_productor t \<longleftrightarrow> (\<exists>r1 r2. t = productor_task r1 r2)"

section \<open>Every task in the system was made by a producer\<close>

fun pc_item :: "'a bq_pc \<Rightarrow> 'a option" where
  "pc_item (Push_Lock x) = Some x"
| "pc_item (Push_Test x) = Some x"
| "pc_item (Push_Wait x) = Some x"
| "pc_item (Push_Wake x) = Some x"
| "pc_item (Push_Put x) = Some x"
| "pc_item (Push_Sig x) = Some x"
| "pc_item (Push_Unlock x) = Some x"
| "pc_item (Prod_Print x) = Some x"
| "pc_item (Pop_Sig x) = Some x"
| "pc_item (Pop_Unlock x) = Some x"
| "pc_item (Cons_Use x) = Some x"
| "pc_item _ = None"

definition bq_made :: "('a \<Rightarrow> bool) \<Rightarrow> 'a bq_sys \<Rightarrow> bool" where
  "bq_made mk s \<longleftrightarrow> bq_inv s \<and> (\<forall>x \<in> set (bq (bqs_q s)). mk x) \<and>
     (\<forall>t < length (bqs_pcs s). \<forall>x. pc_item (bqs_pcs s ! t) = Some x \<longrightarrow> mk x)"

lemma pc_item_wake [simp]: "pc_item (bq_wake p) = pc_item p"
  by (cases p) simp_all

lemma signal_pc_item:
  "pthread_cond_signal W bq_wake ps ps' \<Longrightarrow> t < length ps \<Longrightarrow> pc_item (ps' ! t) = pc_item (ps ! t)"
  using signal_nth by fastforce

lemma bq_made_pc:
  "bq_made mk s \<Longrightarrow> t < length (bqs_pcs s) \<Longrightarrow> pc_item (bqs_pcs s ! t) = Some x \<Longrightarrow> mk x"
  by (simp add: bq_made_def)

lemma bq_made_push_step:
  assumes "bq_made mk s" and st: "push_step mk s l s'"
  shows "(\<forall>x \<in> set (bq (bqs_q s')). mk x) \<and>
     (\<forall>t < length (bqs_pcs s'). \<forall>x. pc_item (bqs_pcs s' ! t) = Some x \<longrightarrow> mk x)"
  using st assms(1)
proof (induction rule: push_step.induct)
  case (signal t s x ps)
  then show ?case
    by (auto simp: bq_made_def nth_list_update signal_pc_item signal_length split: if_splits)
qed (auto simp: bq_made_def nth_list_update bq_push_def split: if_splits)

lemma bq_made_pop_step:
  assumes "bq_made mk s" and st: "pop_step s l s'"
  shows "(\<forall>x \<in> set (bq (bqs_q s')). mk x) \<and>
     (\<forall>t < length (bqs_pcs s'). \<forall>x. pc_item (bqs_pcs s' ! t) = Some x \<longrightarrow> mk x)"
  using st assms(1)
proof (induction rule: pop_step.induct)
  case (signal t s x ps)
  then show ?case
    by (auto simp: bq_made_def nth_list_update signal_pc_item signal_length split: if_splits)
next
  case (take t s x q)
  then have "bq (bqs_q s) \<noteq> []"
    using bq_inv_holder [of s t] by (auto simp: bq_made_def isQueueEmpty_def)
  then obtain y ys where "bq (bqs_q s) = y # ys" by (auto simp: neq_Nil_conv)
  with take show ?case by (auto simp: bq_made_def nth_list_update bq_pop_def split: if_splits)
qed (auto simp: bq_made_def nth_list_update split: if_splits)

lemma bq_made_step: "bq_made mk s \<Longrightarrow> bq_step mk s l s' \<Longrightarrow> bq_made mk s'"
proof -
  assume m: "bq_made mk s" and st: "bq_step mk s l s'"
  have "bq_inv s'" using m st bq_step_inv by (auto simp: bq_made_def)
  moreover have "(\<forall>x \<in> set (bq (bqs_q s')). mk x) \<and>
     (\<forall>t < length (bqs_pcs s'). \<forall>x. pc_item (bqs_pcs s' ! t) = Some x \<longrightarrow> mk x)"
    using st unfolding bq_step_def bq_prog_step_def
  proof (elim disjE conjE)
    assume "bq_spurious s s'"
    with m show ?thesis
      by (auto simp: bq_spurious_def bq_made_def nth_list_update split: if_splits)
  qed (use bq_made_push_step [OF m] bq_made_pop_step [OF m] in blast)+
  ultimately show ?thesis by (simp add: bq_made_def)
qed

lemma bq_made_init: "bq_init cap np nc s \<Longrightarrow> bq_made mk s"
  by (auto simp: bq_made_def bq_init_inv) (auto simp: bq_init_def BlockQueue_ctor_def nth_append split: if_splits)

interpretation bqm: inductive_invariant "bq_init cap np nc" "bq_step mk" "bq_made mk"
  for cap np nc :: nat and mk :: "'a \<Rightarrow> bool"
  by unfold_locales (auto intro: bq_made_init bq_made_step)

text \<open>
  What a consumer of \<open>ConProd.cc\<close> computes: the task it runs is one a producer made,
  the line it prints is \<open>(x,y) = x + y\<close> of that task, and the sum is between 2 and 15, so
  the \<open>int\<close> addition of \<open>myadd\<close> cannot overflow.
\<close>

theorem consumer_computes_sum:
  assumes "reachable (bq_init gDefaultCap 2 2) (bq_step made_by_productor) s"
    and "t < length (bqs_pcs s)" and "bqs_pcs s ! t = Cons_Use tsk"
  shows "Task_call tsk = task_x tsk + task_y tsk \<and>
     task_x tsk \<in> {1..10} \<and> task_y tsk \<in> {1..5} \<and> 2 \<le> Task_call tsk \<and> Task_call tsk \<le> 15"
proof -
  have "bq_made made_by_productor s" by (rule bqm.inv_reachable [OF assms(1)])
  then have "made_by_productor tsk" using assms(2,3) bq_made_pc by fastforce
  then obtain r1 r2 :: nat where "tsk = productor_task r1 r2"
    by (auto simp: made_by_productor_def)
  moreover have "int (r1 mod 10) < 10" "int (r2 mod 5) < 5"
    using mod_less_divisor [of 10 r1] mod_less_divisor [of 5 r2] by linarith+
  ultimately show ?thesis
    by (auto simp: productor_task_def Task_ctor_def Task_call_def myadd_def)
qed

text \<open>
  A run of \<open>ConProd.cc\<close>: the producers (threads 2 and 3) put one task each, the consumers
  are woken or find the queue filled.
\<close>

definition bq_start :: "nat \<Rightarrow> nat \<Rightarrow> nat \<Rightarrow> 'a bq_sys" where
  "bq_start cap np nc =
     \<lparr>bqs_q = BlockQueue_ctor cap, bqs_mtx = None,
      bqs_pcs = replicate nc Pop_Lock @ replicate np Prod_Make\<rparr>"

lemma bq_init_start: "bq_init cap np nc (bq_start cap np nc)"
  by (simp add: bq_init_def bq_start_def)

lemma bq_reach_schedule:
  assumes "schedule bq_exec (bq_start cap np nc) cs = Some (es, s)"
    and "\<forall>c \<in> set cs. mk (fst (snd c))"
  shows "reachable (bq_init cap np nc) (bq_step mk) s"
  by (rule reachable_run [where I = "bq_init cap np nc", OF bq_init_start])
    (rule bq_schedule_run [OF assms])

lemma replicate_two: "replicate 2 x = [x, x]"
  by (simp add: numeral_eq_Suc)

lemmas bq_eval = bq_start_def bq_exec_def BlockQueue_ctor_def isQueueEmpty_def isQueueFull_def
  bq_push_def bq_pop_def bq_wakes_consumer_def signal_choice_def gDefaultCap_def
  lockGuard_ctor_def lockGuard_dtor_def Mutex_lock_def Mutex_unlock_def
  pthread_mutex_lock_def pthread_mutex_unlock_def

theorem consumer_computes_sum_witness:
  "\<exists>s :: task bq_sys. bqs_pcs s ! 0 = Cons_Use (productor_task 8 9) \<and>
     task_x (productor_task 8 9) = 9 \<and> Task_call (productor_task 8 9) = 14 \<and>
     Task_call (productor_task 8 9) \<le> 15"
proof -
  let ?k = "productor_task 8 9"
  let ?p = "(2, ?k, 0)" and ?c = "(0, ?k, 0)"
  let ?cs = "[?p, ?p, ?p, ?p, ?p, ?p, ?c, ?c, ?c, ?c, ?c]"
  have "\<exists>es s. schedule bq_exec (bq_start gDefaultCap 2 2) ?cs = Some (es, s) \<and>
          length (bqs_pcs s) = 4 \<and> bqs_pcs s ! 0 = Cons_Use ?k"
    by (simp add: bq_eval replicate_two)
  then obtain es s where sch: "schedule bq_exec (bq_start gDefaultCap 2 2) ?cs = Some (es, s)"
    and p: "length (bqs_pcs s) = 4" "bqs_pcs s ! 0 = Cons_Use ?k" by blast
  have "reachable (bq_init gDefaultCap 2 2) (bq_step made_by_productor) s"
    by (rule bq_reach_schedule [OF sch]) (auto simp: made_by_productor_def)
  from consumer_computes_sum [OF this _ p(2)] p show ?thesis
    by (intro exI [of _ s]) (simp add: productor_task_def Task_ctor_def Task_call_def myadd_def)
qed

section \<open>Progress\<close>

fun is_cons :: "'a bq_pc \<Rightarrow> bool" where
  "is_cons Pop_Lock = True"
| "is_cons Pop_Test = True"
| "is_cons Pop_Wait = True"
| "is_cons Pop_Wake = True"
| "is_cons Pop_Take = True"
| "is_cons (Pop_Sig x) = True"
| "is_cons (Pop_Unlock x) = True"
| "is_cons (Cons_Use x) = True"
| "is_cons _ = False"

fun is_push_sig :: "'a bq_pc \<Rightarrow> bool" where
  "is_push_sig (Push_Sig x) = True"
| "is_push_sig _ = False"

fun is_pop_sig :: "'a bq_pc \<Rightarrow> bool" where
  "is_pop_sig (Pop_Sig x) = True"
| "is_pop_sig _ = False"

definition awake_cons :: "'a bq_pc \<Rightarrow> bool" where
  "awake_cons p \<longleftrightarrow> is_cons p \<and> \<not> waits_Empty p"

definition awake_prod :: "'a bq_pc \<Rightarrow> bool" where
  "awake_prod p \<longleftrightarrow> \<not> is_cons p \<and> \<not> waits_Full p"

text \<open>
  When every consumer sleeps, the queue is below the wake-up threshold or a producer is about
  to signal; when every producer sleeps, the queue is full or a consumer is about to signal.
\<close>

definition bq_live :: "'a bq_sys \<Rightarrow> bool" where
  "bq_live s \<longleftrightarrow>
     (let ps = bqs_pcs s; q = bqs_q s in
      0 < count_pc is_cons ps \<and> 0 < count_pc (\<lambda>p. \<not> is_cons p) ps \<and>
      (count_pc awake_cons ps = 0 \<longrightarrow>
         length (bq q) < max 1 (capacity q div 2) \<or> 0 < count_pc is_push_sig ps) \<and>
      (count_pc awake_prod ps = 0 \<longrightarrow>
         length (bq q) = capacity q \<or> 0 < count_pc is_pop_sig ps))"

lemma is_cons_wake [simp]: "is_cons (bq_wake p) = is_cons p"
  by (cases p) simp_all

lemma awake_wake:
  "waits_Empty p \<Longrightarrow> awake_cons (bq_wake p) \<and> \<not> awake_cons p \<and> \<not> is_push_sig p \<and> \<not> is_pop_sig p \<and>
     \<not> is_push_sig (bq_wake p) \<and> \<not> is_pop_sig (bq_wake p) \<and> awake_prod (bq_wake p) = awake_prod p"
  "waits_Full p \<Longrightarrow> awake_prod (bq_wake p) \<and> \<not> awake_prod p \<and> \<not> is_push_sig p \<and> \<not> is_pop_sig p \<and>
     \<not> is_push_sig (bq_wake p) \<and> \<not> is_pop_sig (bq_wake p) \<and> awake_cons (bq_wake p) = awake_cons p"
  by (cases p; simp add: awake_cons_def awake_prod_def)+

lemma bq_live_roles:
  "bq_live s \<Longrightarrow> 0 < count_pc is_cons (bqs_pcs s) \<and> 0 < count_pc (\<lambda>p. \<not> is_cons p) (bqs_pcs s)"
  by (simp add: bq_live_def Let_def)

lemmas live_simps = bq_live_def Let_def count_pc_simps awake_cons_def awake_prod_def

text \<open>After a signal somebody of the signalled side is awake.\<close>

lemma signal_awake_cons:
  assumes sig: "pthread_cond_signal waits_Empty bq_wake ps ps'"
    and "0 < count_pc is_cons ps"
  shows "0 < count_pc awake_cons ps'"
  using sig
proof cases
  case (wake_one u)
  then show ?thesis using count_pc_pos [of u ps' awake_cons] by (simp add: awake_wake)
next
  case wake_none
  then have "count_pc awake_cons ps = count_pc is_cons ps"
    by (intro count_pc_cong) (auto simp: awake_cons_def)
  with wake_none assms(2) show ?thesis by simp
qed

lemma signal_awake_prod:
  assumes sig: "pthread_cond_signal waits_Full bq_wake ps ps'"
    and "0 < count_pc (\<lambda>p. \<not> is_cons p) ps"
  shows "0 < count_pc awake_prod ps'"
  using sig
proof cases
  case (wake_one u)
  then show ?thesis using count_pc_pos [of u ps' awake_prod] by (simp add: awake_wake)
next
  case wake_none
  then have "count_pc awake_prod ps = count_pc (\<lambda>p. \<not> is_cons p) ps"
    by (intro count_pc_cong) (auto simp: awake_prod_def)
  with wake_none assms(2) show ?thesis by simp
qed

lemma push_step_live:
  assumes "bq_inv s" and "bq_live s" and "push_step mk s l s'"
  shows "bq_live s'"
  using assms(3,1,2)
proof (induction rule: push_step.induct)
  case (wait t s x m)
  then show ?case by (simp add: live_simps isQueueFull_def)
next
  case (put t s x)
  then have "0 < count_pc is_push_sig ((bqs_pcs s)[t := Push_Sig x])"
    by (intro count_pc_pos [of t]) simp_all
  moreover have "0 < count_pc awake_prod ((bqs_pcs s)[t := Push_Sig x])"
    using put by (intro count_pc_pos [of t]) (simp_all add: awake_prod_def)
  ultimately show ?case using put by (simp add: live_simps bq_push_def)
next
  case (signal t s x ps)
  have nth: "ps ! t = Push_Sig x" and len: "t < length ps"
    using signal.hyps signal_other [OF signal.hyps(4) signal.hyps(1)]
      signal_length [OF signal.hyps(4)] by auto
  have c: "0 < count_pc awake_cons ps"
    by (rule signal_awake_cons [OF signal.hyps(4)]) (use bq_live_roles [OF signal.prems(2)] in simp)
  have p: "0 < count_pc awake_prod (ps[t := Push_Unlock x])"
    by (rule count_pc_pos [of t]) (use len in \<open>simp_all add: awake_prod_def\<close>)
  have r: "count_pc is_cons ps = count_pc is_cons (bqs_pcs s)"
    "count_pc (\<lambda>p. \<not> is_cons p) ps = count_pc (\<lambda>p. \<not> is_cons p) (bqs_pcs s)"
    by (rule signal_count [OF signal.hyps(4)], simp)+
  show ?case
    using c p r nth len bq_live_roles [OF signal.prems(2)]
    by (simp add: bq_live_def Let_def count_pc_same awake_cons_def)
next
  case (no_signal t s x)
  then show ?case by (simp add: live_simps bq_wakes_consumer_def)
qed (simp_all add: live_simps)

lemma pop_step_live:
  assumes "bq_inv s" and "bq_live s" and "pop_step s l s'"
  shows "bq_live s'"
  using assms(3,1,2)
proof (induction rule: pop_step.induct)
  case (wait t s m)
  then show ?case by (auto simp: live_simps isQueueEmpty_def)
next
  case (take t s x q)
  then have "0 < count_pc is_pop_sig ((bqs_pcs s)[t := Pop_Sig x])"
    by (intro count_pc_pos [of t]) simp_all
  moreover have "0 < count_pc awake_cons ((bqs_pcs s)[t := Pop_Sig x])"
    using take by (intro count_pc_pos [of t]) (simp_all add: awake_cons_def)
  ultimately show ?case using take by (auto simp: live_simps bq_pop_def)
next
  case (signal t s x ps)
  have nth: "ps ! t = Pop_Sig x" and len: "t < length ps"
    using signal.hyps signal_other [OF signal.hyps(3) signal.hyps(1)]
      signal_length [OF signal.hyps(3)] by auto
  have c: "0 < count_pc awake_prod ps"
    by (rule signal_awake_prod [OF signal.hyps(3)]) (use bq_live_roles [OF signal.prems(2)] in simp)
  have p: "0 < count_pc awake_cons (ps[t := Pop_Unlock x])"
    by (rule count_pc_pos [of t]) (use len in \<open>simp_all add: awake_cons_def\<close>)
  have r: "count_pc is_cons ps = count_pc is_cons (bqs_pcs s)"
    "count_pc (\<lambda>p. \<not> is_cons p) ps = count_pc (\<lambda>p. \<not> is_cons p) (bqs_pcs s)"
    by (rule signal_count [OF signal.hyps(3)], simp)+
  show ?case
    using c p r nth len bq_live_roles [OF signal.prems(2)]
    by (simp add: bq_live_def Let_def count_pc_same awake_prod_def)
qed (simp_all add: live_simps)

lemma spurious_live:
  assumes "bq_live s" and "bq_spurious s s'"
  shows "bq_live s'"
proof -
  obtain t where t: "t < length (bqs_pcs s)"
    and w: "waits_Full (bqs_pcs s ! t) \<or> waits_Empty (bqs_pcs s ! t)"
    and s': "s' = s\<lparr>bqs_pcs := (bqs_pcs s)[t := bq_wake (bqs_pcs s ! t)]\<rparr>"
    using assms(2) by (auto simp: bq_spurious_def)
  show ?thesis
    using assms(1) t w
    by (cases "bqs_pcs s ! t") (simp_all add: s' live_simps)
qed

definition bq_live_inv :: "'a bq_sys \<Rightarrow> bool" where
  "bq_live_inv s \<longleftrightarrow> bq_inv s \<and> bq_live s \<and> 0 < capacity (bqs_q s)"

lemma bq_step_capacity: "bq_step mk s l s' \<Longrightarrow> capacity (bqs_q s') = capacity (bqs_q s)"
  by (auto simp: bq_step_def bq_prog_step_def bq_spurious_def bq_push_def bq_pop_def
      elim!: push_step.cases pop_step.cases)

lemma bq_live_step: "bq_live_inv s \<Longrightarrow> bq_step mk s l s' \<Longrightarrow> bq_live_inv s'"
  using bq_step_inv bq_step_capacity push_step_live pop_step_live spurious_live
  unfolding bq_live_inv_def bq_step_def bq_prog_step_def by metis

lemma bq_live_init:
  assumes "bq_init cap np nc s" and "0 < np" and "0 < nc" and "0 < cap"
  shows "bq_live_inv s"
proof -
  have ps: "bqs_pcs s = replicate nc Pop_Lock @ replicate np Prod_Make"
    using assms(1) by (simp add: bq_init_def)
  then have "count_pc is_cons (bqs_pcs s) = nc" "count_pc (\<lambda>p. \<not> is_cons p) (bqs_pcs s) = np"
    "count_pc awake_cons (bqs_pcs s) = nc" "count_pc awake_prod (bqs_pcs s) = np"
    by (simp_all add: count_pc_def awake_cons_def awake_prod_def)
  moreover have "capacity (bqs_q s) = cap"
    using assms(1) by (simp add: bq_init_def BlockQueue_ctor_def)
  ultimately show ?thesis
    using assms by (auto simp: bq_live_inv_def bq_live_def Let_def intro: bq_init_inv)
qed

interpretation bqv: inductive_invariant "\<lambda>s. bq_init cap np nc s \<and> 0 < np \<and> 0 < nc \<and> 0 < cap"
  "bq_step mk" bq_live_inv
  for cap np nc :: nat and mk :: "'a \<Rightarrow> bool"
  by unfold_locales (auto intro: bq_live_init bq_live_step)

text \<open>A thread that is neither asleep nor blocked on the mutex has a step of its program.\<close>

lemma asleep_classes:
  "waits_Empty p \<or> waits_Full p \<Longrightarrow>
     \<not> awake_cons p \<and> \<not> awake_prod p \<and> \<not> is_push_sig p \<and> \<not> is_pop_sig p"
  by (cases p) (simp_all add: awake_cons_def awake_prod_def)

lemma holder_moves:
  assumes "mk x0" and inv: "bq_inv s" and t: "bqs_mtx s = Some t"
  shows "\<exists>l s'. bq_prog_step mk s l s'"
proof -
  have len: "t < length (bqs_pcs s)" and cs: "bq_in_cs (bqs_pcs s ! t)"
    using inv t mutex_inv_held by (auto simp: bq_inv_def)
  obtain ps where pe: "pthread_cond_signal waits_Empty bq_wake (bqs_pcs s) ps"
    using signal_total by blast
  obtain ps' where pf: "pthread_cond_signal waits_Full bq_wake (bqs_pcs s) ps'"
    using signal_total by blast
  obtain y q where pop: "bq_pop (bqs_q s) = (y, q)" by (cases "bq_pop (bqs_q s)")
  have ul: "pthread_mutex_unlock t (bqs_mtx s) = Some None"
    and gd: "lockGuard_dtor t (bqs_mtx s) = Some None" using t by simp_all
  show ?thesis
    using cs len unfolding bq_prog_step_def
    by (cases "bqs_pcs s ! t"; cases "isQueueFull (bqs_q s)"; cases "isQueueEmpty (bqs_q s)";
        cases "bq_wakes_consumer (bqs_q s)")
      (auto intro: push_step.wait [OF _ _ _ ul] push_step.room push_step.put
        push_step.signal [OF _ _ _ pe] push_step.no_signal push_step.unlock [OF _ _ gd]
        pop_step.wait [OF _ _ _ ul] pop_step.ready pop_step.take [OF _ _ pop]
        pop_step.signal [OF _ _ pf] pop_step.unlock [OF _ _ gd])
qed

lemma free_thread_moves:
  assumes "mk x0" and free: "bqs_mtx s = None" and "t < length (bqs_pcs s)"
    and "\<not> bq_in_cs (bqs_pcs s ! t)" and "\<not> waits_Empty (bqs_pcs s ! t)"
    and "\<not> waits_Full (bqs_pcs s ! t)"
  shows "\<exists>l s'. bq_prog_step mk s l s'"
proof -
  have lk: "pthread_mutex_lock t (bqs_mtx s) = Some (Some t)"
    and gd: "lockGuard_ctor t (bqs_mtx s) = Some (Some t)" using free by simp_all
  show ?thesis
    using assms unfolding bq_prog_step_def
    by (cases "bqs_pcs s ! t")
      (auto intro: push_step.make push_step.lock [OF _ _ gd] push_step.wake [OF _ _ lk]
        push_step.print pop_step.lock [OF _ _ gd] pop_step.wake [OF _ _ lk] pop_step.use)
qed

text \<open>
  C3. The blocking queue never deadlocks: with at least one producer, one consumer and a
  positive capacity, in every reachable state some thread has a step of its own program
  (a spurious wake-up does not count), whatever the interleaving was.
\<close>

theorem block_queue_never_deadlocks:
  assumes "bq_init cap np nc s0" and "run (bq_step mk) s0 es s"
    and "0 < np" and "0 < nc" and "0 < cap" and "mk x0"
  shows "\<exists>l s'. bq_prog_step mk s l s'"
proof -
  have "bq_live_inv s0" using assms by (auto intro: bq_live_init)
  then have "bq_live_inv s" using bqv.inv_run [OF assms(2)] by blast
  then have inv: "bq_inv s" and live: "bq_live s" and cap: "0 < capacity (bqs_q s)"
    by (simp_all add: bq_live_inv_def)
  show ?thesis
  proof (cases "bqs_mtx s")
    case (Some t)
    then show ?thesis by (rule holder_moves [where mk = mk, OF assms(6) inv])
  next
    case None
    then have "mutex_inv bq_in_cs None (bqs_pcs s)" using inv by (simp add: bq_inv_def)
    then have out: "\<forall>t < length (bqs_pcs s). \<not> bq_in_cs (bqs_pcs s ! t)"
      by (simp add: mutex_inv_free)
    have "\<exists>t < length (bqs_pcs s).
        \<not> waits_Empty (bqs_pcs s ! t) \<and> \<not> waits_Full (bqs_pcs s ! t)"
    proof (rule ccontr)
      assume "\<not> ?thesis"
      then have w: "\<forall>t < length (bqs_pcs s). waits_Empty (bqs_pcs s ! t) \<or> waits_Full (bqs_pcs s ! t)"
        by blast
      have z: "count_pc P (bqs_pcs s) = 0" if "\<And>p. waits_Empty p \<or> waits_Full p \<Longrightarrow> \<not> P p" for P
        using w that by (intro count_pc_zero) blast
      have "count_pc awake_cons (bqs_pcs s) = 0" by (rule z) (simp add: asleep_classes)
      moreover have "count_pc awake_prod (bqs_pcs s) = 0" by (rule z) (simp add: asleep_classes)
      moreover have "count_pc is_push_sig (bqs_pcs s) = 0" by (rule z) (simp add: asleep_classes)
      moreover have "count_pc is_pop_sig (bqs_pcs s) = 0" by (rule z) (simp add: asleep_classes)
      ultimately show False using live cap by (auto simp: bq_live_def Let_def)
    qed
    then obtain t where "t < length (bqs_pcs s)" "\<not> waits_Empty (bqs_pcs s ! t)"
      "\<not> waits_Full (bqs_pcs s ! t)" by blast
    with out show ?thesis by (intro free_thread_moves [where mk = mk, OF assms(6) None]) auto
  qed
qed

theorem block_queue_never_deadlocks_witness:
  "\<exists>(s :: nat bq_sys) l s'. bqs_pcs s = [Pop_Sig 7, Prod_Print 7] \<and>
     bq_prog_step (\<lambda>_. True) s l s'"
  using bq_demo_run block_queue_never_deadlocks [of 1 1 1 _ "\<lambda>_. True"] by (metis zero_less_one)

text \<open>
  C4. Freedom from deadlock is not delivery: \<open>push\<close> only signals \<open>__Empty\<close> once the queue
  holds at least half its capacity. With the default capacity 5, a reachable state has a task
  in the queue, the mutex free, the producer finished with its push, and the consumer still
  asleep in \<open>pthread_cond_wait\<close>: no step of the consumer's own program is enabled.
\<close>

theorem consumer_sleeps_on_nonempty_queue:
  "\<exists>s :: nat bq_sys. reachable (bq_init gDefaultCap 1 1) (bq_step (\<lambda>_. True)) s \<and>
     bq (bqs_q s) = [7] \<and> bqs_mtx s = None \<and> bqs_pcs s = [Pop_Wait, Prod_Make] \<and>
     (\<forall>l s'. \<not> pop_step s l s')"
proof -
  let ?c = "(0, 0, 0)" and ?p = "(1, 7, 0)"
  let ?cs = "[?c, ?c, ?p, ?p, ?p, ?p, ?p, ?p, ?p] :: (nat \<times> nat \<times> nat) list"
  define s :: "nat bq_sys" where
    "s = \<lparr>bqs_q = \<lparr>bq = [7], capacity = 5\<rparr>, bqs_mtx = None, bqs_pcs = [Pop_Wait, Prod_Make]\<rparr>"
  have "schedule bq_exec (bq_start gDefaultCap 1 1) ?cs = Some ([Put 7], s)"
    by (simp add: bq_eval s_def)
  then have "reachable (bq_init gDefaultCap 1 1) (bq_step (\<lambda>_. True)) s"
    by (rule bq_reach_schedule) simp
  moreover have "\<not> pop_step s l s'" for l s'
    by (auto simp: s_def less_Suc_eq elim!: pop_step.cases)
  ultimately show ?thesis by (intro exI [of _ s]) (simp add: s_def)
qed

end
