(* ===== verification/Ring_Queue_Conc.thy ===== *)
theory Ring_Queue_Conc
  imports Ring_Queue
begin

text \<open>
  The ring queue under any number of producer and consumer threads
  (\<open>0208/RingQueue/testMain.cc\<close> runs two and three). Between \<open>sem_wait\<close> and \<open>sem_post\<close> a
  thread is in flight: what the semaphores say and what the ring holds differ by the threads
  in flight, which the invariant counts.
\<close>

section \<open>The threads\<close>

datatype 'a rq_pc =
    RProd_Make
  | RPush_P 'a | RPush_Lock 'a | RPush_Store 'a | RPush_Wrap 'a | RPush_Unlock 'a
  | RPush_V 'a | RProd_Print 'a
  | RPop_P | RPop_Lock | RPop_Load | RPop_Wrap 'a | RPop_Unlock 'a
  | RPop_V 'a | RCons_Print 'a

record 'a rq_sys =
  rqs_q :: "'a ring_queue"
  rqs_c_lock :: mutex
  rqs_p_lock :: mutex
  rqs_pcs :: "'a rq_pc list"

definition rq_start :: "'a \<Rightarrow> nat \<Rightarrow> nat \<Rightarrow> nat \<Rightarrow> 'a rq_sys" where
  "rq_start d n np nc =
     \<lparr>rqs_q = RingQueue_ctor d n, rqs_c_lock = None, rqs_p_lock = None,
      rqs_pcs = replicate nc RPop_P @ replicate np RProd_Make\<rparr>"

definition rq_init :: "nat \<Rightarrow> nat \<Rightarrow> nat \<Rightarrow> 'a rq_sys \<Rightarrow> bool" where
  "rq_init n np nc s \<longleftrightarrow> 0 < n \<and> n < 2 ^ 31 \<and> (\<exists>d. s = rq_start d n np nc)"

text \<open>One step of thread \<open>t\<close>; a producer makes any \<open>x\<close> with \<open>mk x\<close>.\<close>

inductive rq_push_step ::
  "('a \<Rightarrow> bool) \<Rightarrow> 'a rq_sys \<Rightarrow> 'a qevent option \<Rightarrow> 'a rq_sys \<Rightarrow> bool"
  for mk :: "'a \<Rightarrow> bool" where
  make: "t < length (rqs_pcs s) \<Longrightarrow> rqs_pcs s ! t = RProd_Make \<Longrightarrow> mk x \<Longrightarrow>
    rq_push_step mk s None (s\<lparr>rqs_pcs := (rqs_pcs s)[t := RPush_P x]\<rparr>)"
| p: "t < length (rqs_pcs s) \<Longrightarrow> rqs_pcs s ! t = RPush_P x \<Longrightarrow>
    Sem_p (space_sem (rqs_q s)) = Some v \<Longrightarrow>
    rq_push_step mk s None
      (s\<lparr>rqs_q := (rqs_q s)\<lparr>space_sem := v\<rparr>, rqs_pcs := (rqs_pcs s)[t := RPush_Lock x]\<rparr>)"
| lock: "t < length (rqs_pcs s) \<Longrightarrow> rqs_pcs s ! t = RPush_Lock x \<Longrightarrow>
    pthread_mutex_lock t (rqs_p_lock s) = Some m \<Longrightarrow>
    rq_push_step mk s None (s\<lparr>rqs_p_lock := m, rqs_pcs := (rqs_pcs s)[t := RPush_Store x]\<rparr>)"
| store: "t < length (rqs_pcs s) \<Longrightarrow> rqs_pcs s ! t = RPush_Store x \<Longrightarrow>
    rq_push_step mk s (Some (Put x))
      (s\<lparr>rqs_q := ring_store x (rqs_q s), rqs_pcs := (rqs_pcs s)[t := RPush_Wrap x]\<rparr>)"
| wrap: "t < length (rqs_pcs s) \<Longrightarrow> rqs_pcs s ! t = RPush_Wrap x \<Longrightarrow>
    rq_push_step mk s None
      (s\<lparr>rqs_q := ring_wrap_p (rqs_q s), rqs_pcs := (rqs_pcs s)[t := RPush_Unlock x]\<rparr>)"
| unlock: "t < length (rqs_pcs s) \<Longrightarrow> rqs_pcs s ! t = RPush_Unlock x \<Longrightarrow>
    pthread_mutex_unlock t (rqs_p_lock s) = Some m \<Longrightarrow>
    rq_push_step mk s None (s\<lparr>rqs_p_lock := m, rqs_pcs := (rqs_pcs s)[t := RPush_V x]\<rparr>)"
| v: "t < length (rqs_pcs s) \<Longrightarrow> rqs_pcs s ! t = RPush_V x \<Longrightarrow>
    rq_push_step mk s None
      (s\<lparr>rqs_q := (rqs_q s)\<lparr>data_sem := Sem_v (data_sem (rqs_q s))\<rparr>,
         rqs_pcs := (rqs_pcs s)[t := RProd_Print x]\<rparr>)"
| print: "t < length (rqs_pcs s) \<Longrightarrow> rqs_pcs s ! t = RProd_Print x \<Longrightarrow>
    rq_push_step mk s None (s\<lparr>rqs_pcs := (rqs_pcs s)[t := RProd_Make]\<rparr>)"

inductive rq_pop_step :: "'a rq_sys \<Rightarrow> 'a qevent option \<Rightarrow> 'a rq_sys \<Rightarrow> bool" where
  p: "t < length (rqs_pcs s) \<Longrightarrow> rqs_pcs s ! t = RPop_P \<Longrightarrow>
    Sem_p (data_sem (rqs_q s)) = Some v \<Longrightarrow>
    rq_pop_step s None
      (s\<lparr>rqs_q := (rqs_q s)\<lparr>data_sem := v\<rparr>, rqs_pcs := (rqs_pcs s)[t := RPop_Lock]\<rparr>)"
| lock: "t < length (rqs_pcs s) \<Longrightarrow> rqs_pcs s ! t = RPop_Lock \<Longrightarrow>
    pthread_mutex_lock t (rqs_c_lock s) = Some m \<Longrightarrow>
    rq_pop_step s None (s\<lparr>rqs_c_lock := m, rqs_pcs := (rqs_pcs s)[t := RPop_Load]\<rparr>)"
| load: "t < length (rqs_pcs s) \<Longrightarrow> rqs_pcs s ! t = RPop_Load \<Longrightarrow>
    ring_load (rqs_q s) = (y, q) \<Longrightarrow>
    rq_pop_step s (Some (Get y))
      (s\<lparr>rqs_q := q, rqs_pcs := (rqs_pcs s)[t := RPop_Wrap y]\<rparr>)"
| wrap: "t < length (rqs_pcs s) \<Longrightarrow> rqs_pcs s ! t = RPop_Wrap y \<Longrightarrow>
    rq_pop_step s None
      (s\<lparr>rqs_q := ring_wrap_c (rqs_q s), rqs_pcs := (rqs_pcs s)[t := RPop_Unlock y]\<rparr>)"
| unlock: "t < length (rqs_pcs s) \<Longrightarrow> rqs_pcs s ! t = RPop_Unlock y \<Longrightarrow>
    pthread_mutex_unlock t (rqs_c_lock s) = Some m \<Longrightarrow>
    rq_pop_step s None (s\<lparr>rqs_c_lock := m, rqs_pcs := (rqs_pcs s)[t := RPop_V y]\<rparr>)"
| v: "t < length (rqs_pcs s) \<Longrightarrow> rqs_pcs s ! t = RPop_V y \<Longrightarrow>
    rq_pop_step s None
      (s\<lparr>rqs_q := (rqs_q s)\<lparr>space_sem := Sem_v (space_sem (rqs_q s))\<rparr>,
         rqs_pcs := (rqs_pcs s)[t := RCons_Print y]\<rparr>)"
| print: "t < length (rqs_pcs s) \<Longrightarrow> rqs_pcs s ! t = RCons_Print y \<Longrightarrow>
    rq_pop_step s None (s\<lparr>rqs_pcs := (rqs_pcs s)[t := RPop_P]\<rparr>)"

definition rq_step ::
  "('a \<Rightarrow> bool) \<Rightarrow> 'a rq_sys \<Rightarrow> 'a qevent option \<Rightarrow> 'a rq_sys \<Rightarrow> bool" where
  "rq_step mk s l s' \<longleftrightarrow> rq_push_step mk s l s' \<or> rq_pop_step s l s'"

text \<open>An executable step: thread \<open>t\<close> moves, a producer makes \<open>x\<close>.\<close>

definition rq_exec ::
  "tid \<times> 'a \<Rightarrow> 'a rq_sys \<Rightarrow> ('a qevent option \<times> 'a rq_sys) option" where
  "rq_exec c s = (case c of (t, x) \<Rightarrow>
     if \<not> t < length (rqs_pcs s) then None else
     let go = (\<lambda>q p. s\<lparr>rqs_q := q, rqs_pcs := (rqs_pcs s)[t := p]\<rparr>); q = rqs_q s;
         go_p = (\<lambda>m p. s\<lparr>rqs_p_lock := m, rqs_pcs := (rqs_pcs s)[t := p]\<rparr>);
         go_c = (\<lambda>m p. s\<lparr>rqs_c_lock := m, rqs_pcs := (rqs_pcs s)[t := p]\<rparr>) in
     (case rqs_pcs s ! t of
        RProd_Make \<Rightarrow> Some (None, go q (RPush_P x))
      | RPush_P y \<Rightarrow>
          map_option (\<lambda>v. (None, go (q\<lparr>space_sem := v\<rparr>) (RPush_Lock y))) (Sem_p (space_sem q))
      | RPush_Lock y \<Rightarrow>
          map_option (\<lambda>m. (None, go_p m (RPush_Store y)))
            (pthread_mutex_lock t (rqs_p_lock s))
      | RPush_Store y \<Rightarrow> Some (Some (Put y), go (ring_store y q) (RPush_Wrap y))
      | RPush_Wrap y \<Rightarrow> Some (None, go (ring_wrap_p q) (RPush_Unlock y))
      | RPush_Unlock y \<Rightarrow>
          map_option (\<lambda>m. (None, go_p m (RPush_V y)))
            (pthread_mutex_unlock t (rqs_p_lock s))
      | RPush_V y \<Rightarrow> Some (None, go (q\<lparr>data_sem := Sem_v (data_sem q)\<rparr>) (RProd_Print y))
      | RProd_Print y \<Rightarrow> Some (None, go q RProd_Make)
      | RPop_P \<Rightarrow> map_option (\<lambda>v. (None, go (q\<lparr>data_sem := v\<rparr>) RPop_Lock)) (Sem_p (data_sem q))
      | RPop_Lock \<Rightarrow>
          map_option (\<lambda>m. (None, go_c m RPop_Load))
            (pthread_mutex_lock t (rqs_c_lock s))
      | RPop_Load \<Rightarrow> (case ring_load q of (y, q') \<Rightarrow> Some (Some (Get y), go q' (RPop_Wrap y)))
      | RPop_Wrap y \<Rightarrow> Some (None, go (ring_wrap_c q) (RPop_Unlock y))
      | RPop_Unlock y \<Rightarrow>
          map_option (\<lambda>m. (None, go_c m (RPop_V y)))
            (pthread_mutex_unlock t (rqs_c_lock s))
      | RPop_V y \<Rightarrow> Some (None, go (q\<lparr>space_sem := Sem_v (space_sem q)\<rparr>) (RCons_Print y))
      | RCons_Print y \<Rightarrow> Some (None, go q RPop_P)))"

lemma rq_sys_self [simp]: "s\<lparr>rqs_q := rqs_q s\<rparr> = s"
  by simp

lemma rq_exec_sound: "rq_exec (t, x) s = Some (l, s') \<Longrightarrow> mk x \<Longrightarrow> rq_step mk s l s'"
  by (auto simp: rq_exec_def Let_def rq_step_def split: rq_pc.splits if_splits prod.splits
      intro: rq_push_step.intros rq_pop_step.intros)

lemma rq_schedule_run:
  assumes "schedule rq_exec s cs = Some (es, s')" and "\<forall>c \<in> set cs. mk (snd c)"
  shows "run (rq_step mk) s es s'"
  by (rule schedule_run [OF assms(1)]) (use assms(2) rq_exec_sound in fastforce)

section \<open>The threads in flight\<close>

fun p_cs :: "'a rq_pc \<Rightarrow> bool" where
  "p_cs (RPush_Store x) = True" | "p_cs (RPush_Wrap x) = True"
| "p_cs (RPush_Unlock x) = True" | "p_cs _ = False"

fun c_cs :: "'a rq_pc \<Rightarrow> bool" where
  "c_cs RPop_Load = True" | "c_cs (RPop_Wrap x) = True"
| "c_cs (RPop_Unlock x) = True" | "c_cs _ = False"

fun reserved :: "'a rq_pc \<Rightarrow> bool" where
  "reserved (RPush_Lock x) = True" | "reserved (RPush_Store x) = True" | "reserved _ = False"

fun stored :: "'a rq_pc \<Rightarrow> bool" where
  "stored (RPush_Wrap x) = True" | "stored (RPush_Unlock x) = True"
| "stored (RPush_V x) = True" | "stored _ = False"

fun claimed :: "'a rq_pc \<Rightarrow> bool" where
  "claimed RPop_Lock = True" | "claimed RPop_Load = True" | "claimed _ = False"

fun freed :: "'a rq_pc \<Rightarrow> bool" where
  "freed (RPop_Wrap x) = True" | "freed (RPop_Unlock x) = True"
| "freed (RPop_V x) = True" | "freed _ = False"

fun p_wrapping :: "'a rq_pc \<Rightarrow> bool" where
  "p_wrapping (RPush_Wrap x) = True" | "p_wrapping _ = False"

fun c_wrapping :: "'a rq_pc \<Rightarrow> bool" where
  "c_wrapping (RPop_Wrap x) = True" | "c_wrapping _ = False"

text \<open>The number of elements in the ring: posted, stored and not yet posted, claimed and
  not yet loaded.\<close>

definition occupied :: "'a rq_sys \<Rightarrow> nat" where
  "occupied s = data_sem (rqs_q s) + count_pc stored (rqs_pcs s) + count_pc claimed (rqs_pcs s)"

definition index_ok :: "('a rq_pc \<Rightarrow> bool) \<Rightarrow> nat \<Rightarrow> nat \<Rightarrow> mutex \<Rightarrow> 'a rq_pc list \<Rightarrow> bool" where
  "index_ok W i n m ps \<longleftrightarrow> i < n \<or> (\<exists>t. m = Some t \<and> W (ps ! t))"

definition rq_inv :: "'a rq_sys \<Rightarrow> bool" where
  "rq_inv s \<longleftrightarrow>
     (let q = rqs_q s; ps = rqs_pcs s in
      length (ring q) = ring_size q \<and> 0 < ring_size q \<and>
      mutex_inv p_cs (rqs_p_lock s) ps \<and> mutex_inv c_cs (rqs_c_lock s) ps \<and>
      occupied s + space_sem q + count_pc reserved ps + count_pc freed ps = ring_size q \<and>
      p_step q mod ring_size q = (c_step q + occupied s) mod ring_size q \<and>
      index_ok p_wrapping (p_step q) (ring_size q) (rqs_p_lock s) ps \<and>
      index_ok c_wrapping (c_step q) (ring_size q) (rqs_c_lock s) ps)"

lemmas rq_simps = rq_inv_def Let_def occupied_def count_pc_simps mutex_inv_acquire
  mutex_inv_release mutex_inv_stay Sem_v_def

lemma index_ok_keep:
  "index_ok W i n m ps \<Longrightarrow> t < length ps \<Longrightarrow> \<not> W (ps ! t) \<Longrightarrow> index_ok W i n m (ps[t := p])"
  by (auto simp: index_ok_def nth_list_update)

lemma index_ok_wrapping: "t < length ps \<Longrightarrow> W p \<Longrightarrow> index_ok W i n (Some t) (ps[t := p])"
  by (simp add: index_ok_def)

lemma index_ok_less: "i < n \<Longrightarrow> index_ok W i n m ps"
  by (simp add: index_ok_def)

lemma index_ok_bound: "index_ok W i n (Some t) ps \<Longrightarrow> \<not> W (ps ! t) \<Longrightarrow> i < n"
  by (auto simp: index_ok_def)

lemma index_ok_free: "index_ok W i n None ps \<Longrightarrow> i < n"
  by (simp add: index_ok_def)

lemmas index_simps = index_ok_keep index_ok_wrapping index_ok_less

text \<open>The parts of the invariant under the names the proofs use.\<close>

lemma rq_invD:
  assumes "rq_inv s"
  shows rq_inv_size: "length (ring (rqs_q s)) = ring_size (rqs_q s)" "0 < ring_size (rqs_q s)"
    and rq_inv_p_mutex: "mutex_inv p_cs (rqs_p_lock s) (rqs_pcs s)"
    and rq_inv_c_mutex: "mutex_inv c_cs (rqs_c_lock s) (rqs_pcs s)"
    and rq_inv_count: "occupied s + space_sem (rqs_q s) + count_pc reserved (rqs_pcs s) +
          count_pc freed (rqs_pcs s) = ring_size (rqs_q s)"
    and rq_inv_mod: "p_step (rqs_q s) mod ring_size (rqs_q s)
          = (c_step (rqs_q s) + occupied s) mod ring_size (rqs_q s)"
    and rq_inv_p_index: "index_ok p_wrapping (p_step (rqs_q s)) (ring_size (rqs_q s))
          (rqs_p_lock s) (rqs_pcs s)"
    and rq_inv_c_index: "index_ok c_wrapping (c_step (rqs_q s)) (ring_size (rqs_q s))
          (rqs_c_lock s) (rqs_pcs s)"
  using assms by (simp_all add: rq_inv_def Let_def)

lemma p_holder:
  "rq_inv s \<Longrightarrow> t < length (rqs_pcs s) \<Longrightarrow> p_cs (rqs_pcs s ! t) \<Longrightarrow> rqs_p_lock s = Some t"
  using rq_inv_p_mutex mutex_inv_owner by blast

lemma c_holder:
  "rq_inv s \<Longrightarrow> t < length (rqs_pcs s) \<Longrightarrow> c_cs (rqs_pcs s ! t) \<Longrightarrow> rqs_c_lock s = Some t"
  using rq_inv_c_mutex mutex_inv_owner by blast

lemma rq_start_inv: "rq_init n np nc s \<Longrightarrow> rq_inv s"
proof -
  assume "rq_init n np nc s"
  then obtain d where n: "0 < n" "n < 2 ^ 31" and s: "s = rq_start d n np nc"
    by (auto simp: rq_init_def)
  have ps: "rqs_pcs s ! t = RPop_P \<or> rqs_pcs s ! t = RProd_Make" if "t < length (rqs_pcs s)" for t
    using that by (auto simp: s rq_start_def nth_append)
  have z: "count_pc P (rqs_pcs s) = 0" if "\<not> P RPop_P" "\<not> P RProd_Make" for P
    using ps that by (intro count_pc_zero) metis
  have "mutex_inv h None (rqs_pcs s)" if "\<not> h RPop_P" "\<not> h RProd_Make" for h
    using ps that unfolding mutex_inv_def by (metis option.distinct(1))
  then show ?thesis
    using n z by (simp add: rq_inv_def occupied_def index_ok_def)
      (simp add: s rq_start_def RingQueue_ctor_def Sem_ctor_def)
qed

lemma rq_push_step_inv: "rq_push_step mk s l s' \<Longrightarrow> rq_inv s \<Longrightarrow> rq_inv s'"
proof (induction rule: rq_push_step.induct)
  case (lock t s x m)
  note inv = rq_invD [OF lock.prems]
  have "p_step (rqs_q s) < ring_size (rqs_q s)"
    using inv(7) lock.hyps by (simp add: index_ok_free)
  then show ?case using inv lock.hyps by (simp add: rq_simps index_simps)
next
  case (store t s x)
  note inv = rq_invD [OF store.prems]
  have lk: "rqs_p_lock s = Some t" by (rule p_holder [OF store.prems]) (simp_all add: store.hyps)
  have pos: "0 < count_pc reserved (rqs_pcs s)"
    by (rule count_pc_pos [of t]) (simp_all add: store.hyps)
  have "Suc (p_step (rqs_q s)) mod ring_size (rqs_q s)
      = Suc (c_step (rqs_q s) + occupied s) mod ring_size (rqs_q s)"
    using inv(6) by (metis mod_Suc_eq)
  then show ?case
    using inv pos lk store.hyps by (simp add: rq_simps ring_store_def index_simps)
next
  case (wrap t s x)
  note inv = rq_invD [OF wrap.prems]
  have lk: "rqs_p_lock s = Some t" by (rule p_holder [OF wrap.prems]) (simp_all add: wrap.hyps)
  show ?case
    using inv lk wrap.hyps by (simp add: rq_simps ring_wrap_p_def index_simps)
next
  case (unlock t s x m)
  note inv = rq_invD [OF unlock.prems]
  have "p_step (rqs_q s) < ring_size (rqs_q s)"
    using inv(7) unlock.hyps by (auto intro: index_ok_bound)
  then show ?case using inv unlock.hyps by (auto simp: rq_simps index_simps)
next
  case (v t s x)
  note inv = rq_invD [OF v.prems]
  have pos: "0 < count_pc stored (rqs_pcs s)"
    by (rule count_pc_pos [of t]) (simp_all add: v.hyps)
  then show ?case using inv v.hyps by (simp add: rq_simps index_simps)
qed (auto simp: rq_simps index_simps)

lemma rq_pop_step_inv: "rq_pop_step s l s' \<Longrightarrow> rq_inv s \<Longrightarrow> rq_inv s'"
proof (induction rule: rq_pop_step.induct)
  case (lock t s m)
  note inv = rq_invD [OF lock.prems]
  have "c_step (rqs_q s) < ring_size (rqs_q s)"
    using inv(8) lock.hyps by (simp add: index_ok_free)
  then show ?case using inv lock.hyps by (simp add: rq_simps index_simps)
next
  case (load t s y q)
  note inv = rq_invD [OF load.prems]
  have lk: "rqs_c_lock s = Some t" by (rule c_holder [OF load.prems]) (simp_all add: load.hyps)
  have pos: "0 < count_pc claimed (rqs_pcs s)"
    by (rule count_pc_pos [of t]) (simp_all add: load.hyps)
  have q: "q = (rqs_q s)\<lparr>c_step := Suc (c_step (rqs_q s))\<rparr>"
    using load.hyps by (simp add: ring_load_def)
  obtain k where k: "count_pc claimed (rqs_pcs s) = Suc k" using pos by (cases "count_pc claimed (rqs_pcs s)") auto
  show ?case using inv k lk load.hyps(1,2) by (simp add: q rq_simps index_simps)
next
  case (wrap t s y)
  note inv = rq_invD [OF wrap.prems]
  have lk: "rqs_c_lock s = Some t" by (rule c_holder [OF wrap.prems]) (simp_all add: wrap.hyps)
  show ?case
    using inv lk wrap.hyps by (simp add: rq_simps ring_wrap_c_def index_simps mod_add_left_eq)
next
  case (unlock t s y m)
  note inv = rq_invD [OF unlock.prems]
  have "c_step (rqs_q s) < ring_size (rqs_q s)"
    using inv(8) unlock.hyps by (auto intro: index_ok_bound)
  then show ?case using inv unlock.hyps by (auto simp: rq_simps index_simps)
next
  case (v t s y)
  note inv = rq_invD [OF v.prems]
  have pos: "0 < count_pc freed (rqs_pcs s)"
    by (rule count_pc_pos [of t]) (simp_all add: v.hyps)
  then show ?case using inv v.hyps by (simp add: rq_simps index_simps)
qed (auto simp: rq_simps index_simps)

lemma rq_step_inv: "rq_inv s \<Longrightarrow> rq_step mk s l s' \<Longrightarrow> rq_inv s'"
  unfolding rq_step_def using rq_push_step_inv rq_pop_step_inv by blast

section \<open>Refinement of the abstract FIFO\<close>

definition rq_abs :: "'a rq_sys \<Rightarrow> 'a fifo" where
  "rq_abs s = (Some (ring_size (rqs_q s)), ring_content (rqs_q s) (occupied s))"

lemma push_tau_abs: "rq_push_step mk s None s' \<Longrightarrow> rq_abs s' = rq_abs s"
proof (induction s "None :: 'a qevent option" s' rule: rq_push_step.induct)
  case (v t s x)
  have "0 < count_pc stored (rqs_pcs s)"
    by (rule count_pc_pos [of t]) (simp_all add: v)
  with v show ?case by (simp add: rq_abs_def occupied_def count_pc_simps Sem_v_def)
next
  case (wrap t s x)
  have "ring_size (ring_wrap_p (rqs_q s)) = ring_size (rqs_q s)"
    "data_sem (ring_wrap_p (rqs_q s)) = data_sem (rqs_q s)" by (simp_all add: ring_wrap_p_def)
  with wrap show ?case by (simp add: rq_abs_def occupied_def count_pc_simps)
qed (simp_all add: rq_abs_def occupied_def count_pc_simps)

lemma pop_tau_abs: "rq_pop_step s None s' \<Longrightarrow> rq_abs s' = rq_abs s"
proof (induction s "None :: 'a qevent option" s' rule: rq_pop_step.induct)
  case (wrap t s x)
  have "ring_size (ring_wrap_c (rqs_q s)) = ring_size (rqs_q s)"
    "data_sem (ring_wrap_c (rqs_q s)) = data_sem (rqs_q s)" by (simp_all add: ring_wrap_c_def)
  with wrap show ?case by (simp add: rq_abs_def occupied_def count_pc_simps)
qed (simp_all add: rq_abs_def occupied_def count_pc_simps)

text \<open>A thread about to store finds a free slot, one about to load finds an element.\<close>

lemma store_ready:
  assumes "rq_inv s" and "t < length (rqs_pcs s)" and "rqs_pcs s ! t = RPush_Store x"
  shows "p_step (rqs_q s) < ring_size (rqs_q s) \<and> occupied s < ring_size (rqs_q s) \<and>
     p_step (rqs_q s) = (c_step (rqs_q s) + occupied s) mod ring_size (rqs_q s)"
proof -
  note inv = rq_invD [OF assms(1)]
  have lk: "rqs_p_lock s = Some t" by (rule p_holder [OF assms(1,2)]) (simp add: assms(3))
  have "0 < count_pc reserved (rqs_pcs s)"
    by (rule count_pc_pos [OF assms(2)]) (simp add: assms(3))
  moreover have "p_step (rqs_q s) < ring_size (rqs_q s)"
    using inv(7) lk assms(3) by (auto intro: index_ok_bound)
  ultimately show ?thesis using inv(5,6) by simp
qed

lemma load_ready:
  assumes "rq_inv s" and "t < length (rqs_pcs s)" and "rqs_pcs s ! t = RPop_Load"
  shows "c_step (rqs_q s) < ring_size (rqs_q s) \<and> 0 < occupied s"
proof -
  note inv = rq_invD [OF assms(1)]
  have lk: "rqs_c_lock s = Some t" by (rule c_holder [OF assms(1,2)]) (simp add: assms(3))
  have "0 < count_pc claimed (rqs_pcs s)"
    by (rule count_pc_pos [OF assms(2)]) (simp add: assms(3))
  moreover have "c_step (rqs_q s) < ring_size (rqs_q s)"
    using inv(8) lk assms(3) by (auto intro: index_ok_bound)
  ultimately show ?thesis by (simp add: occupied_def)
qed

lemma store_abs:
  assumes inv: "rq_inv s" and st: "rq_push_step mk s (Some e) s'"
  shows "fifo_step (rq_abs s) e = Some (rq_abs s')"
  using st
proof cases
  case (store t x)
  note r = store_ready [OF inv store(3,4)]
  have "ring_content (ring_store x (rqs_q s)) (Suc (occupied s))
      = ring_content (rqs_q s) (occupied s) @ [x]"
    by (rule ring_content_store) (use r rq_invD(1) [OF inv] in auto)
  moreover have "ring_size (ring_store x (rqs_q s)) = ring_size (rqs_q s)"
    "data_sem (ring_store x (rqs_q s)) = data_sem (rqs_q s)" by (simp_all add: ring_store_def)
  ultimately show ?thesis
    using store r
    by (simp add: rq_abs_def has_room_def occupied_def count_pc_simps ring_content_def)
qed

lemma load_abs:
  assumes inv: "rq_inv s" and st: "rq_pop_step s (Some e) s'"
  shows "fifo_step (rq_abs s) e = Some (rq_abs s')"
  using st
proof cases
  case (load t y q)
  note r = load_ready [OF inv load(3,4)]
  obtain n where n: "occupied s = Suc n" using r by (cases "occupied s") auto
  have c: "ring_content (rqs_q s) (Suc n) = y # ring_content q n"
    using ring_content_load [of "rqs_q s" n] r load(5) by simp
  have "0 < count_pc claimed (rqs_pcs s)"
    by (rule count_pc_pos [OF load(3)]) (simp add: load(4))
  moreover have "ring_size q = ring_size (rqs_q s)" "data_sem q = data_sem (rqs_q s)"
    using load(5) by (auto simp: ring_load_def)
  ultimately have "rq_abs s' = (Some (ring_size (rqs_q s)), ring_content q n)"
    using load n by (simp add: rq_abs_def occupied_def count_pc_simps)
  then show ?thesis using load(1) n c by (simp add: rq_abs_def)
qed

interpretation rql: trace_refinement "rq_init n np nc" "rq_step mk" rq_inv rq_abs fifo_step
  for n np nc :: nat and mk :: "'a \<Rightarrow> bool"
proof unfold_locales
  fix s s' :: "'a rq_sys" and l e
  show "rq_init n np nc s \<Longrightarrow> rq_inv s" by (rule rq_start_inv)
  show "rq_inv s \<Longrightarrow> rq_step mk s l s' \<Longrightarrow> rq_inv s'" by (rule rq_step_inv)
  show "rq_inv s \<Longrightarrow> rq_step mk s None s' \<Longrightarrow> rq_abs s' = rq_abs s"
    unfolding rq_step_def using push_tau_abs pop_tau_abs by blast
  show "rq_inv s \<Longrightarrow> rq_step mk s (Some e) s' \<Longrightarrow> fifo_step (rq_abs s) e = Some (rq_abs s')"
    unfolding rq_step_def using store_abs load_abs by blast
qed

text \<open>
  C1. The ring queue is a bounded FIFO for any number of producers and consumers: along every
  interleaving the values stored are the values loaded, in the same order, followed by the
  elements between the two indices, and there are never more of them than slots.
\<close>

theorem ring_queue_is_bounded_fifo:
  assumes "rq_init n np nc s0" and "run (rq_step mk) s0 es s"
  shows "puts es = gets es @ ring_content (rqs_q s) (occupied s) \<and> occupied s \<le> n"
proof -
  have "abs_run fifo_step (rq_abs s0) es = Some (rq_abs s)"
    by (rule rql.trace_refines [OF assms])
  moreover have "rq_abs s0 = (Some n, [])"
  proof -
    obtain d where s0: "s0 = rq_start d n np nc" using assms(1) by (auto simp: rq_init_def)
    have "occupied s0 = 0"
      unfolding occupied_def
      by (simp add: s0 rq_start_def RingQueue_ctor_def Sem_ctor_def count_pc_def)
    then show ?thesis
      by (simp add: rq_abs_def ring_content_def) (simp add: s0 rq_start_def RingQueue_ctor_def)
  qed
  ultimately have r: "abs_run fifo_step (Some n, []) es = Some (rq_abs s)" by simp
  have "length (ring_content (rqs_q s) (occupied s)) \<le> n"
    using fifo_run_bound [OF r [unfolded rq_abs_def]] by simp
  then show ?thesis
    using fifo_run_order [OF r [unfolded rq_abs_def]] by (simp add: ring_content_def)
qed

text \<open>
  A concrete run on a ring of two slots: two puts, a get, and a state in which the producer
  (thread 1) is about to store while the consumer (thread 0) is about to load.
\<close>

lemma rq_demo_run:
  "\<exists>s :: nat rq_sys. rq_init 2 1 1 (rq_start (0::nat) 2 1 1) \<and>
     run (rq_step (\<lambda>_. True)) (rq_start 0 2 1 1) [Put 7] s \<and>
     rqs_pcs s = [RPop_Load, RPush_Store 8]"
proof -
  let ?cs = "[(1, 7), (1, 7), (1, 7), (1, 7), (1, 7), (1, 7), (1, 7), (0, 7), (0, 7),
              (1, 7), (1, 8), (1, 8), (1, 8)] :: (nat \<times> nat) list"
  have "\<exists>s. schedule rq_exec (rq_start 0 2 1 1) ?cs = Some ([Put 7], s) \<and>
     rqs_pcs s = [RPop_Load, RPush_Store 8]"
    by (simp add: rq_start_def RingQueue_ctor_def Sem_ctor_def rq_exec_def Sem_p_def Sem_v_def
        pthread_mutex_lock_def pthread_mutex_unlock_def ring_store_def ring_wrap_p_def
        numeral_2_eq_2)
  then obtain s where sch: "schedule rq_exec (rq_start 0 2 1 1) ?cs = Some ([Put 7], s)"
    and p: "rqs_pcs s = [RPop_Load, RPush_Store 8]" by blast
  have "run (rq_step (\<lambda>_. True)) (rq_start 0 2 1 1) [Put 7] s"
    by (rule rq_schedule_run [OF sch]) simp
  moreover have "rq_init 2 1 1 (rq_start (0::nat) 2 1 1)" by (auto simp: rq_init_def)
  ultimately show ?thesis using p by blast
qed

theorem ring_queue_is_bounded_fifo_witness:
  "\<exists>s :: nat rq_sys. rqs_pcs s = [RPop_Load, RPush_Store 8] \<and>
     puts [Put 7] = gets [Put 7] @ ring_content (rqs_q s) (occupied s) \<and> occupied s \<le> 2"
  using rq_demo_run ring_queue_is_bounded_fifo by blast

text \<open>
  C5. No data race on a slot and no access out of range, although the two sides hold different
  locks: whenever one thread is about to store and another about to load, their indices are
  inside the vector and different, and only one thread of each side is at that point.
\<close>

theorem ring_queue_no_slot_race:
  assumes "reachable (rq_init n np nc) (rq_step mk) s"
    and "t < length (rqs_pcs s)" and "rqs_pcs s ! t = RPush_Store x"
    and "u < length (rqs_pcs s)" and "rqs_pcs s ! u = RPop_Load"
  shows "p_step (rqs_q s) < length (ring (rqs_q s)) \<and> c_step (rqs_q s) < length (ring (rqs_q s)) \<and>
     p_step (rqs_q s) \<noteq> c_step (rqs_q s) \<and>
     (\<forall>v < length (rqs_pcs s). (p_cs (rqs_pcs s ! v) \<longrightarrow> v = t) \<and> (c_cs (rqs_pcs s ! v) \<longrightarrow> v = u))"
proof -
  have inv: "rq_inv s" by (rule rql.inv_reachable [OF assms(1)])
  note st = store_ready [OF inv assms(2,3)] and ld = load_ready [OF inv assms(4,5)]
  have "(c_step (rqs_q s) + 0) mod ring_size (rqs_q s) \<noteq> p_step (rqs_q s)"
    using mod_offset_neq [of 0 "occupied s" "ring_size (rqs_q s)" "c_step (rqs_q s)"] st ld by simp
  then have "p_step (rqs_q s) \<noteq> c_step (rqs_q s)" using ld by auto
  moreover have "v = t" if "v < length (rqs_pcs s)" "p_cs (rqs_pcs s ! v)" for v
    using mutex_inv_unique [OF rq_inv_p_mutex [OF inv] that(1) assms(2) that(2)] assms(3) by simp
  moreover have "v = u" if "v < length (rqs_pcs s)" "c_cs (rqs_pcs s ! v)" for v
    using mutex_inv_unique [OF rq_inv_c_mutex [OF inv] that(1) assms(4) that(2)] assms(5) by simp
  ultimately show ?thesis using st ld rq_invD(1) [OF inv] by simp
qed

theorem ring_queue_no_slot_race_witness:
  "\<exists>s :: nat rq_sys. rqs_pcs s = [RPop_Load, RPush_Store 8] \<and> p_step (rqs_q s) \<noteq> c_step (rqs_q s)"
proof -
  obtain s :: "nat rq_sys" where i: "rq_init 2 1 1 (rq_start (0::nat) 2 1 1)"
    and r: "run (rq_step (\<lambda>_. True)) (rq_start 0 2 1 1) [Put 7] s"
    and p: "rqs_pcs s = [RPop_Load, RPush_Store 8]" using rq_demo_run by blast
  have "reachable (rq_init 2 1 1) (rq_step (\<lambda>_. True)) s"
    by (rule reachable_run [where I = "rq_init 2 1 1", OF i r])
  from ring_queue_no_slot_race [OF this, of 1 8 0] p have "p_step (rqs_q s) \<noteq> c_step (rqs_q s)"
    by simp
  with p show ?thesis by blast
qed

section \<open>Progress\<close>

fun is_rcons :: "'a rq_pc \<Rightarrow> bool" where
  "is_rcons RPop_P = True" | "is_rcons RPop_Lock = True" | "is_rcons RPop_Load = True"
| "is_rcons (RPop_Wrap x) = True" | "is_rcons (RPop_Unlock x) = True"
| "is_rcons (RPop_V x) = True" | "is_rcons (RCons_Print x) = True" | "is_rcons _ = False"

fun at_p :: "'a rq_pc \<Rightarrow> bool" where
  "at_p (RPush_P x) = True" | "at_p RPop_P = True" | "at_p _ = False"

definition rq_live_inv :: "'a rq_sys \<Rightarrow> bool" where
  "rq_live_inv s \<longleftrightarrow> rq_inv s \<and> 0 < count_pc is_rcons (rqs_pcs s) \<and>
     0 < count_pc (\<lambda>p. \<not> is_rcons p) (rqs_pcs s)"

lemma rq_live_step: "rq_live_inv s \<Longrightarrow> rq_step mk s l s' \<Longrightarrow> rq_live_inv s'"
proof -
  assume live: "rq_live_inv s" and st: "rq_step mk s l s'"
  have "rq_inv s'" using live st rq_step_inv by (auto simp: rq_live_inv_def)
  moreover have "count_pc is_rcons (rqs_pcs s') = count_pc is_rcons (rqs_pcs s) \<and>
      count_pc (\<lambda>p. \<not> is_rcons p) (rqs_pcs s') = count_pc (\<lambda>p. \<not> is_rcons p) (rqs_pcs s)"
    using st unfolding rq_step_def
    by (auto elim!: rq_push_step.cases rq_pop_step.cases simp: count_pc_same)
  ultimately show ?thesis using live by (simp add: rq_live_inv_def)
qed

lemma rq_live_init:
  assumes "rq_init n np nc s" and "0 < np" and "0 < nc"
  shows "rq_live_inv s"
proof -
  have "rqs_pcs s = replicate nc RPop_P @ replicate np RProd_Make"
    using assms(1) by (auto simp: rq_init_def rq_start_def)
  then have "count_pc is_rcons (rqs_pcs s) = nc" "count_pc (\<lambda>p. \<not> is_rcons p) (rqs_pcs s) = np"
    by (simp_all add: count_pc_def)
  with assms show ?thesis by (simp add: rq_live_inv_def rq_start_inv)
qed

interpretation rqv: inductive_invariant "\<lambda>s. rq_init n np nc s \<and> 0 < np \<and> 0 < nc"
  "rq_step mk" rq_live_inv
  for n np nc :: nat and mk :: "'a \<Rightarrow> bool"
  by unfold_locales (auto intro: rq_live_init rq_live_step)

lemma rq_exec_moves: "mk x0 \<Longrightarrow> rq_exec (t, x0) s \<noteq> None \<Longrightarrow> \<exists>l s'. rq_step mk s l s'"
  using rq_exec_sound [where mk = mk and x = x0 and t = t and s = s] by fastforce

lemma rq_moves:
  assumes mk: "mk x0" and inv: "rq_inv s" and t: "t < length (rqs_pcs s)"
    and ok: "at_p (rqs_pcs s ! t) \<Longrightarrow>
        if is_rcons (rqs_pcs s ! t) then 0 < data_sem (rqs_q s) else 0 < space_sem (rqs_q s)"
    and free: "rqs_p_lock s = None \<or> p_cs (rqs_pcs s ! t)"
      "rqs_c_lock s = None \<or> c_cs (rqs_pcs s ! t)"
  shows "\<exists>l s'. rq_step mk s l s'"
proof (rule rq_exec_moves [where mk = mk and t = t, OF mk])
  show "rq_exec (t, x0) s \<noteq> None"
    using t ok free p_holder [OF inv t] c_holder [OF inv t]
    by (cases "rqs_pcs s ! t")
      (auto simp: rq_exec_def Let_def Sem_p_def pthread_mutex_lock_def pthread_mutex_unlock_def
        split: prod.splits)
qed

lemma p_side_moves:
  assumes mk: "mk x0" and inv: "rq_inv s" and t: "t < length (rqs_pcs s)" "p_cs (rqs_pcs s ! t)"
  shows "\<exists>l s'. rq_step mk s l s'"
proof (rule rq_exec_moves [where mk = mk and t = t, OF mk])
  show "rq_exec (t, x0) s \<noteq> None"
    using t p_holder [OF inv t]
    by (cases "rqs_pcs s ! t") (auto simp: rq_exec_def Let_def pthread_mutex_unlock_def)
qed

lemma c_side_moves:
  assumes mk: "mk x0" and inv: "rq_inv s" and t: "t < length (rqs_pcs s)" "c_cs (rqs_pcs s ! t)"
  shows "\<exists>l s'. rq_step mk s l s'"
proof (rule rq_exec_moves [where mk = mk and t = t, OF mk])
  show "rq_exec (t, x0) s \<noteq> None"
    using t c_holder [OF inv t]
    by (cases "rqs_pcs s ! t")
      (auto simp: rq_exec_def Let_def pthread_mutex_unlock_def split: prod.splits)
qed

text \<open>
  C6. The ring queue never deadlocks: with at least one producer and one consumer, in every
  reachable state some thread has a step; in particular an element that was posted can be
  taken, whatever the fill level (there is no wake-up threshold as in the blocking queue).
\<close>

theorem ring_queue_never_deadlocks:
  assumes "rq_init n np nc s0" and "run (rq_step mk) s0 es s"
    and "0 < np" and "0 < nc" and "mk x0"
  shows "\<exists>l s'. rq_step mk s l s'"
proof -
  have "rq_live_inv s0" using assms by (auto intro: rq_live_init)
  then have live: "rq_live_inv s" using rqv.inv_run [OF assms(2)] by blast
  then have inv: "rq_inv s" by (simp add: rq_live_inv_def)
  note D = rq_invD [OF inv]
  have ex: ?thesis if "t < length (rqs_pcs s)"
    and "at_p (rqs_pcs s ! t) \<Longrightarrow>
        if is_rcons (rqs_pcs s ! t) then 0 < data_sem (rqs_q s) else 0 < space_sem (rqs_q s)"
    and "rqs_p_lock s = None \<or> p_cs (rqs_pcs s ! t)" "rqs_c_lock s = None \<or> c_cs (rqs_pcs s ! t)"
    for t
    using rq_moves [where mk = mk, OF assms(5) inv that] .
  consider t where "rqs_p_lock s = Some t" | t where "rqs_c_lock s = Some t"
    | "rqs_p_lock s = None" "rqs_c_lock s = None" by (cases "rqs_p_lock s"; cases "rqs_c_lock s") auto
  then show ?thesis
  proof cases
    case 1
    then have t: "t < length (rqs_pcs s)" "p_cs (rqs_pcs s ! t)"
      using D(3) mutex_inv_held by auto
    then show ?thesis using p_side_moves [where mk = mk, OF assms(5) inv] by blast
  next
    case 2
    then have t: "t < length (rqs_pcs s)" "c_cs (rqs_pcs s ! t)"
      using D(4) mutex_inv_held by auto
    then show ?thesis using c_side_moves [where mk = mk, OF assms(5) inv] by blast
  next
    case 3
    show ?thesis
    proof (rule ccontr)
      assume stuck: "\<not> ?thesis"
      have all_p: "\<forall>t < length (rqs_pcs s). at_p (rqs_pcs s ! t)" using ex 3 stuck by blast
      have z: "count_pc P (rqs_pcs s) = 0" if "\<And>p. at_p p \<Longrightarrow> \<not> P p" for P
        using all_p that by (intro count_pc_zero) blast
      have "count_pc reserved (rqs_pcs s) = 0" by (rule z) (erule at_p.elims(2); simp)
      moreover have "count_pc stored (rqs_pcs s) = 0" by (rule z) (erule at_p.elims(2); simp)
      moreover have "count_pc claimed (rqs_pcs s) = 0" by (rule z) (erule at_p.elims(2); simp)
      moreover have "count_pc freed (rqs_pcs s) = 0" by (rule z) (erule at_p.elims(2); simp)
      ultimately have "data_sem (rqs_q s) + space_sem (rqs_q s) = ring_size (rqs_q s)"
        using D(5) by (simp add: occupied_def)
      then have "0 < data_sem (rqs_q s) \<or> 0 < space_sem (rqs_q s)" using D(2) by linarith
      moreover obtain t where "t < length (rqs_pcs s)" "is_rcons (rqs_pcs s ! t)"
        using live count_pc_zero [of "rqs_pcs s" is_rcons] by (auto simp: rq_live_inv_def)
      moreover obtain u where "u < length (rqs_pcs s)" "\<not> is_rcons (rqs_pcs s ! u)"
        using live count_pc_zero [of "rqs_pcs s" "\<lambda>p. \<not> is_rcons p"] by (auto simp: rq_live_inv_def)
      ultimately show False using ex [of t] ex [of u] 3 stuck by auto
    qed
  qed
qed

theorem ring_queue_never_deadlocks_witness:
  "\<exists>(s :: nat rq_sys) l s'. rqs_pcs s = [RPop_Load, RPush_Store 8] \<and> rq_step (\<lambda>_. True) s l s'"
proof -
  obtain s :: "nat rq_sys" where i: "rq_init 2 1 1 (rq_start (0::nat) 2 1 1)"
    and r: "run (rq_step (\<lambda>_. True)) (rq_start 0 2 1 1) [Put 7] s"
    and p: "rqs_pcs s = [RPop_Load, RPush_Store 8]" using rq_demo_run by blast
  have "\<exists>l s'. rq_step (\<lambda>_. True) s l s'"
    by (rule ring_queue_never_deadlocks [OF i r]) simp_all
  with p show ?thesis by blast
qed

end
