(* ===== verification/Thread_Pool.thy ===== *)
theory Thread_Pool
  imports Pthread Fifo_Spec
begin

text \<open>
  The thread pool of \<open>threadPool.hpp\<close> (0208, and with a singleton interface 0211 and
  0215/tcp): an unbounded task queue behind one mutex and one condition variable, workers
  that run \<open>routine\<close>, and threads that call \<open>pushTask\<close>. The abstract machine
  \<open>pool_spec\<close> says what a pool promises: tasks leave the queue in the order they came, and
  a worker runs exactly the task it took before it takes another.
\<close>

section \<open>Threads and their names\<close>

text \<open>\<open>snprintf(nameBuffer, 64, "Thread-%d", num)\<close>.\<close>

record thread_obj =
  thread_name :: string
  thread_started :: bool

definition Thread_ctor :: "int \<Rightarrow> thread_obj" where
  "Thread_ctor num =
     \<lparr>thread_name = c_str (snprintf_buf 64 (''Thread-'' @ show_int num)), thread_started = False\<rparr>"

definition Thread_start :: "thread_obj \<Rightarrow> thread_obj" where
  "Thread_start th = th\<lparr>thread_started := True\<rparr>"

definition g_thread_num :: int where "g_thread_num = 3"

text \<open>The constructor's loop \<open>for (int i = 1; i <= __num; i++)\<close>.\<close>

definition ThreadPool_threads :: "int \<Rightarrow> thread_obj list" where
  "ThreadPool_threads num = map Thread_ctor [1..num]"

definition ThreadPool_run :: "thread_obj list \<Rightarrow> thread_obj list \<times> string list" where
  "ThreadPool_run ths = (map Thread_start ths, map thread_name ths)"

lemma nul_notin_Thread [simp]: "nul \<notin> set ''Thread-''"
  by (simp add: nul_def)

lemma Thread_ctor_name:
  assumes "0 \<le> num" and "num < 2 ^ 31"
  shows "thread_name (Thread_ctor num) = ''Thread-'' @ show_nat (nat num)"
proof -
  have "nat num < 10 ^ Suc 9" using assms by simp
  then have "length (show_nat (nat num)) \<le> Suc 9" by (rule length_show_nat_le)
  then have "snprintf_buf 64 (''Thread-'' @ show_nat (nat num)) = ''Thread-'' @ show_nat (nat num)"
    by (intro snprintf_buf_fits) simp
  moreover have "c_str (''Thread-'' @ show_nat (nat num)) = ''Thread-'' @ show_nat (nat num)"
    by (rule c_str_id) (use nul_notin_Thread nul_notin_show_nat in auto)
  ultimately show ?thesis
    using assms(1) by (simp only: Thread_ctor_def show_int_def) simp
qed

text \<open>
  The workers of a pool have pairwise different names, one per number from 1 to the
  pool's size, and the 64-byte name buffer never cuts one off.
\<close>

theorem pool_thread_names:
  assumes "num < 2 ^ 31"
  shows "distinct (map thread_name (ThreadPool_threads num)) \<and>
     map thread_name (ThreadPool_threads num) = map (\<lambda>i. ''Thread-'' @ show_nat (nat i)) [1..num]"
proof -
  have eq: "map thread_name (ThreadPool_threads num) = map (\<lambda>i. ''Thread-'' @ show_nat (nat i)) [1..num]"
    unfolding ThreadPool_threads_def map_map
    by (rule map_cong) (use assms in \<open>auto simp: Thread_ctor_name\<close>)
  have "inj_on (\<lambda>i. ''Thread-'' @ show_nat (nat i)) {1..num}"
    by (rule inj_onI) (simp add: eq_nat_nat_iff)
  then have "distinct (map (\<lambda>i. ''Thread-'' @ show_nat (nat i)) [1..num])"
    by (simp add: distinct_map)
  with eq show ?thesis by simp
qed

theorem pool_thread_names_witness:
  "distinct (map thread_name (ThreadPool_threads g_thread_num)) \<and>
   length (ThreadPool_threads g_thread_num) = 3"
  using pool_thread_names [of g_thread_num] by (simp add: g_thread_num_def ThreadPool_threads_def)

section \<open>The task queue\<close>

definition tq_isEmpty :: "'a list \<Rightarrow> bool" where
  "tq_isEmpty q \<longleftrightarrow> q = []"

definition tq_push :: "'a \<Rightarrow> 'a list \<Rightarrow> 'a list" where
  "tq_push x q = q @ [x]"

definition tq_getTask :: "'a list \<Rightarrow> 'a \<times> 'a list" where
  "tq_getTask q = (hd q, tl q)"

interpretation tqc: fifo_container tq_push tq_getTask tq_isEmpty "\<lambda>_. False" "\<lambda>q. q"
  "\<lambda>_. None" "\<lambda>_. True"
  by unfold_locales (auto simp: tq_push_def tq_getTask_def tq_isEmpty_def has_room_def)

section \<open>What a pool promises\<close>

datatype 'a pool_event = Pushed 'a | Taken tid 'a | Ran tid 'a

type_synonym 'a pool_abs = "'a list \<times> (tid \<Rightarrow> 'a option)"

fun pool_spec :: "'a pool_abs \<Rightarrow> 'a pool_event \<Rightarrow> 'a pool_abs option" where
  "pool_spec (q, r) (Pushed x) = Some (q @ [x], r)"
| "pool_spec (q, r) (Taken w x) =
     (case q of [] \<Rightarrow> None
      | y # ys \<Rightarrow> if x = y \<and> r w = None then Some (ys, r(w := Some x)) else None)"
| "pool_spec (q, r) (Ran w x) = (if r w = Some x then Some (q, r(w := None)) else None)"

fun pushed :: "'a pool_event list \<Rightarrow> 'a list" where
  "pushed [] = []"
| "pushed (Pushed x # es) = x # pushed es"
| "pushed (Taken w x # es) = pushed es"
| "pushed (Ran w x # es) = pushed es"

fun taken :: "'a pool_event list \<Rightarrow> (tid \<times> 'a) list" where
  "taken [] = []"
| "taken (Pushed x # es) = taken es"
| "taken (Taken w x # es) = (w, x) # taken es"
| "taken (Ran w x # es) = taken es"

fun ran :: "'a pool_event list \<Rightarrow> (tid \<times> 'a) list" where
  "ran [] = []"
| "ran (Pushed x # es) = ran es"
| "ran (Taken w x # es) = ran es"
| "ran (Ran w x # es) = (w, x) # ran es"

text \<open>The tasks of one worker in a list of (worker, task).\<close>

definition of_worker :: "tid \<Rightarrow> (tid \<times> 'a) list \<Rightarrow> 'a list" where
  "of_worker w xs = map snd (filter (\<lambda>p. fst p = w) xs)"

definition opt_list :: "'a option \<Rightarrow> 'a list" where
  "opt_list r = (case r of None \<Rightarrow> [] | Some x \<Rightarrow> [x])"

lemma of_worker_Cons:
  "of_worker w ((v, x) # xs) = (if v = w then x # of_worker w xs else of_worker w xs)"
  by (simp add: of_worker_def)

lemma of_worker_Nil [simp]: "of_worker w [] = []"
  by (simp add: of_worker_def)

text \<open>The queue is a FIFO and a worker's runs are its takes, the last one possibly pending.\<close>

lemma pool_spec_run:
  "abs_run pool_spec (q, r) es = Some (q', r') \<Longrightarrow>
     q @ pushed es = map snd (taken es) @ q' \<and>
     (\<forall>w. opt_list (r w) @ of_worker w (taken es) = of_worker w (ran es) @ opt_list (r' w))"
proof (induction es arbitrary: q r)
  case Nil
  then show ?case by simp
next
  case (Cons e es)
  show ?case
  proof (cases e)
    case (Pushed x)
    with Cons.prems have "abs_run pool_spec (q @ [x], r) es = Some (q', r')" by simp
    from Cons.IH [OF this] Pushed show ?thesis by simp
  next
    case (Taken w x)
    with Cons.prems obtain ys where q: "q = x # ys" and rw: "r w = None"
      and rest: "abs_run pool_spec (ys, r(w := Some x)) es = Some (q', r')"
      by (auto split: list.splits option.splits if_splits)
    from Cons.IH [OF rest] Taken q rw show ?thesis
      by (fastforce simp: of_worker_Cons opt_list_def split: if_splits)
  next
    case (Ran w x)
    with Cons.prems have rw: "r w = Some x"
      and rest: "abs_run pool_spec (q, r(w := None)) es = Some (q', r')"
      by (auto split: if_splits)
    from Cons.IH [OF rest] Ran rw show ?thesis
      by (fastforce simp: of_worker_Cons opt_list_def split: if_splits)
  qed
qed

section \<open>The threads of a pool\<close>

text \<open>
  A worker is \<open>Wk_New\<close> until \<open>run\<close> has started it; \<open>Wk_Wait\<close> is inside
  \<open>pthread_cond_wait\<close> with the mutex released, \<open>Wk_Wake\<close> competes for the mutex again.
  \<open>Mn_Run k\<close> is the main thread in \<open>run\<close> about to start worker \<open>k\<close>; the \<open>Ps\<close> states are a
  thread that makes a task and pushes it, for ever, as the main thread does after \<open>run\<close>.
\<close>

datatype 'a pool_pc =
    Wk_New | Wk_Lock | Wk_Test | Wk_Wait | Wk_Wake | Wk_Take | Wk_Unlock 'a | Wk_Run 'a
  | Mn_Run nat | Ps_Make | Ps_Lock 'a | Ps_Push 'a | Ps_Signal 'a | Ps_Unlock 'a

record 'a pool_sys =
  tp_queue :: "'a list"
  tp_lock :: mutex
  tp_pcs :: "'a pool_pc list"

definition pool_waits :: "'a pool_pc \<Rightarrow> bool" where
  "pool_waits p = (case p of Wk_Wait \<Rightarrow> True | _ \<Rightarrow> False)"

definition pool_wake :: "'a pool_pc \<Rightarrow> 'a pool_pc" where
  "pool_wake p = (case p of Wk_Wait \<Rightarrow> Wk_Wake | _ \<Rightarrow> p)"

text \<open>\<open>n\<close> workers, the main thread after them, and \<open>m\<close> more pushing threads.\<close>

definition pool_init :: "nat \<Rightarrow> nat \<Rightarrow> 'a pool_sys \<Rightarrow> bool" where
  "pool_init n m s \<longleftrightarrow>
     s = \<lparr>tp_queue = [], tp_lock = None,
          tp_pcs = replicate n Wk_New @ Mn_Run 0 # replicate m Ps_Make\<rparr>"

text \<open>\<open>routine\<close>.\<close>

inductive routine_step :: "'a pool_sys \<Rightarrow> 'a pool_event option \<Rightarrow> 'a pool_sys \<Rightarrow> bool" where
  lock:
    "t < length (tp_pcs s) \<Longrightarrow> tp_pcs s ! t = Wk_Lock \<Longrightarrow> lockGuard_ctor t (tp_lock s) = Some m \<Longrightarrow>
     routine_step s None (s\<lparr>tp_lock := m, tp_pcs := (tp_pcs s)[t := Wk_Test]\<rparr>)"
| wait:
    "t < length (tp_pcs s) \<Longrightarrow> tp_pcs s ! t = Wk_Test \<Longrightarrow> tq_isEmpty (tp_queue s) \<Longrightarrow>
     pthread_mutex_unlock t (tp_lock s) = Some m \<Longrightarrow>
     routine_step s None (s\<lparr>tp_lock := m, tp_pcs := (tp_pcs s)[t := Wk_Wait]\<rparr>)"
| woken:
    "t < length (tp_pcs s) \<Longrightarrow> tp_pcs s ! t = Wk_Wake \<Longrightarrow>
     pthread_mutex_lock t (tp_lock s) = Some m \<Longrightarrow>
     routine_step s None (s\<lparr>tp_lock := m, tp_pcs := (tp_pcs s)[t := Wk_Test]\<rparr>)"
| ready:
    "t < length (tp_pcs s) \<Longrightarrow> tp_pcs s ! t = Wk_Test \<Longrightarrow> \<not> tq_isEmpty (tp_queue s) \<Longrightarrow>
     routine_step s None (s\<lparr>tp_pcs := (tp_pcs s)[t := Wk_Take]\<rparr>)"
| take:
    "t < length (tp_pcs s) \<Longrightarrow> tp_pcs s ! t = Wk_Take \<Longrightarrow> tq_getTask (tp_queue s) = (x, q) \<Longrightarrow>
     routine_step s (Some (Taken t x)) (s\<lparr>tp_queue := q, tp_pcs := (tp_pcs s)[t := Wk_Unlock x]\<rparr>)"
| unlock:
    "t < length (tp_pcs s) \<Longrightarrow> tp_pcs s ! t = Wk_Unlock x \<Longrightarrow>
     lockGuard_dtor t (tp_lock s) = Some m \<Longrightarrow>
     routine_step s None (s\<lparr>tp_lock := m, tp_pcs := (tp_pcs s)[t := Wk_Run x]\<rparr>)"
| execute:
    "t < length (tp_pcs s) \<Longrightarrow> tp_pcs s ! t = Wk_Run x \<Longrightarrow>
     routine_step s (Some (Ran t x)) (s\<lparr>tp_pcs := (tp_pcs s)[t := Wk_Lock]\<rparr>)"

text \<open>
  \<open>run\<close>: \<open>pthread_create\<close> may fail, its result is ignored and the loop goes on with the
  next thread. \<open>n\<close> is the number of threads.
\<close>

inductive run_step :: "nat \<Rightarrow> 'a pool_sys \<Rightarrow> 'a pool_sys \<Rightarrow> bool" for n :: nat where
  created:
    "t < length (tp_pcs s) \<Longrightarrow> tp_pcs s ! t = Mn_Run k \<Longrightarrow> k < n \<Longrightarrow> tp_pcs s ! k = Wk_New \<Longrightarrow>
     run_step n s (s\<lparr>tp_pcs := (tp_pcs s)[k := Wk_Lock, t := Mn_Run (Suc k)]\<rparr>)"
| not_created:
    "t < length (tp_pcs s) \<Longrightarrow> tp_pcs s ! t = Mn_Run k \<Longrightarrow> k < n \<Longrightarrow>
     run_step n s (s\<lparr>tp_pcs := (tp_pcs s)[t := Mn_Run (Suc k)]\<rparr>)"
| all_started:
    "t < length (tp_pcs s) \<Longrightarrow> tp_pcs s ! t = Mn_Run n \<Longrightarrow>
     run_step n s (s\<lparr>tp_pcs := (tp_pcs s)[t := Ps_Make]\<rparr>)"

text \<open>\<open>pushTask\<close>, and the loop that makes the tasks.\<close>

inductive pushTask_step ::
  "('a \<Rightarrow> bool) \<Rightarrow> 'a pool_sys \<Rightarrow> 'a pool_event option \<Rightarrow> 'a pool_sys \<Rightarrow> bool"
  for mk :: "'a \<Rightarrow> bool" where
  make:
    "t < length (tp_pcs s) \<Longrightarrow> tp_pcs s ! t = Ps_Make \<Longrightarrow> mk x \<Longrightarrow>
     pushTask_step mk s None (s\<lparr>tp_pcs := (tp_pcs s)[t := Ps_Lock x]\<rparr>)"
| lock:
    "t < length (tp_pcs s) \<Longrightarrow> tp_pcs s ! t = Ps_Lock x \<Longrightarrow> lockGuard_ctor t (tp_lock s) = Some m \<Longrightarrow>
     pushTask_step mk s None (s\<lparr>tp_lock := m, tp_pcs := (tp_pcs s)[t := Ps_Push x]\<rparr>)"
| put:
    "t < length (tp_pcs s) \<Longrightarrow> tp_pcs s ! t = Ps_Push x \<Longrightarrow>
     pushTask_step mk s (Some (Pushed x))
       (s\<lparr>tp_queue := tq_push x (tp_queue s), tp_pcs := (tp_pcs s)[t := Ps_Signal x]\<rparr>)"
| signal:
    "t < length (tp_pcs s) \<Longrightarrow> tp_pcs s ! t = Ps_Signal x \<Longrightarrow>
     pthread_cond_signal pool_waits pool_wake (tp_pcs s) ps \<Longrightarrow>
     pushTask_step mk s None (s\<lparr>tp_pcs := ps[t := Ps_Unlock x]\<rparr>)"
| unlock:
    "t < length (tp_pcs s) \<Longrightarrow> tp_pcs s ! t = Ps_Unlock x \<Longrightarrow>
     lockGuard_dtor t (tp_lock s) = Some m \<Longrightarrow>
     pushTask_step mk s None (s\<lparr>tp_lock := m, tp_pcs := (tp_pcs s)[t := Ps_Make]\<rparr>)"

definition pool_spurious :: "'a pool_sys \<Rightarrow> 'a pool_sys \<Rightarrow> bool" where
  "pool_spurious s s' \<longleftrightarrow>
     (\<exists>t < length (tp_pcs s). tp_pcs s ! t = Wk_Wait \<and>
        s' = s\<lparr>tp_pcs := (tp_pcs s)[t := Wk_Wake]\<rparr>)"

definition pool_step ::
  "nat \<Rightarrow> ('a \<Rightarrow> bool) \<Rightarrow> 'a pool_sys \<Rightarrow> 'a pool_event option \<Rightarrow> 'a pool_sys \<Rightarrow> bool" where
  "pool_step n mk s l s' \<longleftrightarrow>
     routine_step s l s' \<or> pushTask_step mk s l s' \<or>
     (l = None \<and> (run_step n s s' \<or> pool_spurious s s'))"

text \<open>
  The same steps as a function. A choice is the thread that moves, the task it makes when
  it makes one, and a number: the waiter it wakes, or 0 for a \<open>pthread_create\<close> that fails.
\<close>

definition pool_exec ::
  "nat \<Rightarrow> tid \<times> 'a \<times> nat \<Rightarrow> 'a pool_sys \<Rightarrow> ('a pool_event option \<times> 'a pool_sys) option" where
  "pool_exec n = (\<lambda>(t, x, u) s.
     if length (tp_pcs s) \<le> t then None
     else
     (let q = tp_queue s; m = tp_lock s; ps = tp_pcs s;
          go = (\<lambda>m' q' ps' p'. \<lparr>tp_queue = q', tp_lock = m', tp_pcs = ps'[t := p']\<rparr>)
      in case ps ! t of
        Wk_New \<Rightarrow> None
      | Wk_Lock \<Rightarrow> map_option (\<lambda>m'. (None, go m' q ps Wk_Test)) (lockGuard_ctor t m)
      | Wk_Test \<Rightarrow>
          if tq_isEmpty q then map_option (\<lambda>m'. (None, go m' q ps Wk_Wait)) (pthread_mutex_unlock t m)
          else Some (None, go m q ps Wk_Take)
      | Wk_Wait \<Rightarrow> None
      | Wk_Wake \<Rightarrow> map_option (\<lambda>m'. (None, go m' q ps Wk_Test)) (pthread_mutex_lock t m)
      | Wk_Take \<Rightarrow> (case tq_getTask q of (y, q') \<Rightarrow> Some (Some (Taken t y), go m q' ps (Wk_Unlock y)))
      | Wk_Unlock y \<Rightarrow> map_option (\<lambda>m'. (None, go m' q ps (Wk_Run y))) (lockGuard_dtor t m)
      | Wk_Run y \<Rightarrow> Some (Some (Ran t y), go m q ps Wk_Lock)
      | Mn_Run k \<Rightarrow>
          if k = n then Some (None, go m q ps Ps_Make)
          else if n < k then None
          else if u = 0 then Some (None, go m q ps (Mn_Run (Suc k)))
          else (case ps ! k of
                  Wk_New \<Rightarrow> Some (None, go m q (ps[k := Wk_Lock]) (Mn_Run (Suc k)))
                | _ \<Rightarrow> None)
      | Ps_Make \<Rightarrow> Some (None, go m q ps (Ps_Lock x))
      | Ps_Lock y \<Rightarrow> map_option (\<lambda>m'. (None, go m' q ps (Ps_Push y))) (lockGuard_ctor t m)
      | Ps_Push y \<Rightarrow> Some (Some (Pushed y), go m (tq_push y q) ps (Ps_Signal y))
      | Ps_Signal y \<Rightarrow>
          map_option (\<lambda>ps'. (None, go m q ps' (Ps_Unlock y))) (signal_choice pool_waits pool_wake ps u)
      | Ps_Unlock y \<Rightarrow> map_option (\<lambda>m'. (None, go m' q ps Ps_Make)) (lockGuard_dtor t m)))"

lemma pool_sys_upd [simp]:
  "s\<lparr>tp_lock := m, tp_pcs := ps\<rparr> = \<lparr>tp_queue = tp_queue s, tp_lock = m, tp_pcs = ps\<rparr>"
  "s\<lparr>tp_queue := q, tp_pcs := ps\<rparr> = \<lparr>tp_queue = q, tp_lock = tp_lock s, tp_pcs = ps\<rparr>"
  "s\<lparr>tp_pcs := ps\<rparr> = \<lparr>tp_queue = tp_queue s, tp_lock = tp_lock s, tp_pcs = ps\<rparr>"
  for s :: "'a pool_sys"
  by simp_all

lemma pool_exec_sound: "pool_exec n (t, x, u) s = Some (l, s') \<Longrightarrow> mk x \<Longrightarrow> pool_step n mk s l s'"
  using routine_step.intros [of t s] pushTask_step.intros [of t s] run_step.intros [of t s]
  by (auto simp: pool_exec_def Let_def pool_step_def
      split: pool_pc.splits if_splits prod.splits dest!: signal_choice_sound)

lemma pool_schedule_run:
  assumes "schedule (pool_exec n) s cs = Some (es, s')" and "\<forall>c \<in> set cs. mk (fst (snd c))"
  shows "Lts.run (pool_step n mk) s es s'"
  by (rule schedule_run [OF assms(1)]) (use assms(2) pool_exec_sound in fastforce)

section \<open>The invariant\<close>

fun pool_in_cs :: "'a pool_pc \<Rightarrow> bool" where
  "pool_in_cs Wk_Test = True"
| "pool_in_cs Wk_Take = True"
| "pool_in_cs (Wk_Unlock x) = True"
| "pool_in_cs (Ps_Push x) = True"
| "pool_in_cs (Ps_Signal x) = True"
| "pool_in_cs (Ps_Unlock x) = True"
| "pool_in_cs _ = False"

fun pool_ready :: "'a pool_pc \<Rightarrow> bool" where
  "pool_ready Wk_Lock = True"
| "pool_ready Wk_Test = True"
| "pool_ready Wk_Wake = True"
| "pool_ready Wk_Take = True"
| "pool_ready _ = False"

fun pool_signals :: "'a pool_pc \<Rightarrow> bool" where
  "pool_signals (Ps_Signal x) = True"
| "pool_signals _ = False"

text \<open>
  \<open>pool_backlog\<close>: while a worker sleeps, every task in the queue has an awake worker on
  its way to the queue, or the signal for it is about to be sent.
\<close>

definition pool_backlog :: "'a pool_sys \<Rightarrow> bool" where
  "pool_backlog s \<longleftrightarrow>
     ((\<exists>t < length (tp_pcs s). tp_pcs s ! t = Wk_Wait) \<longrightarrow>
      length (tp_queue s) \<le> count_pc pool_ready (tp_pcs s) + count_pc pool_signals (tp_pcs s))"

definition pool_inv :: "'a pool_sys \<Rightarrow> bool" where
  "pool_inv s \<longleftrightarrow> mutex_inv pool_in_cs (tp_lock s) (tp_pcs s) \<and>
     (\<forall>t. tp_lock s = Some t \<longrightarrow> tp_pcs s ! t = Wk_Take \<longrightarrow> tp_queue s \<noteq> []) \<and> pool_backlog s"

lemma pool_waits_iff [simp]: "pool_waits p \<longleftrightarrow> p = Wk_Wait"
  by (cases p) (auto simp: pool_waits_def)

lemma pool_wake_Wait [simp]: "pool_wake Wk_Wait = Wk_Wake"
  by (simp add: pool_wake_def)

lemma pool_holder: "pool_inv s \<Longrightarrow> t < length (tp_pcs s) \<Longrightarrow> pool_in_cs (tp_pcs s ! t) \<Longrightarrow> tp_lock s = Some t"
  by (auto simp: pool_inv_def dest: mutex_inv_owner)

lemma pool_take_nonempty:
  "pool_inv s \<Longrightarrow> t < length (tp_pcs s) \<Longrightarrow> tp_pcs s ! t = Wk_Take \<Longrightarrow> tp_queue s \<noteq> []"
  by (frule pool_holder [of s t]) (auto simp only: pool_in_cs.simps pool_inv_def)

lemma waiting_update:
  "t < length ps \<Longrightarrow> (\<exists>u < length ps. ps[t := p] ! u = Wk_Wait) \<longleftrightarrow>
     p = Wk_Wait \<or> (\<exists>u < length ps. u \<noteq> t \<and> ps ! u = Wk_Wait)"
  by (cases "p = Wk_Wait") (metis nth_list_update_eq, metis nth_list_update_eq nth_list_update_neq)

lemma routine_step_mutex: "routine_step s l s' \<Longrightarrow> pool_inv s \<Longrightarrow>
   mutex_inv pool_in_cs (tp_lock s') (tp_pcs s')"
  by (induction rule: routine_step.induct)
    (auto simp: pool_inv_def mutex_inv_acquire mutex_inv_release mutex_inv_stay)

lemma routine_step_take: "routine_step s l s' \<Longrightarrow> pool_inv s \<Longrightarrow>
   (\<forall>t. tp_lock s' = Some t \<longrightarrow> tp_pcs s' ! t = Wk_Take \<longrightarrow> tp_queue s' \<noteq> [])"
proof (induction rule: routine_step.induct)
  case (ready t s)
  then have "tp_lock s = Some t" using pool_holder by fastforce
  with ready show ?case by (auto simp: tq_isEmpty_def)
next
  case (take t s x q)
  then have "tp_lock s = Some t" using pool_holder by fastforce
  with take show ?case by auto
next
  case (execute t s x)
  then show ?case by (auto simp: pool_inv_def nth_list_update)
qed (auto simp: pool_inv_def nth_list_update)

lemma routine_step_backlog: "routine_step s l s' \<Longrightarrow> pool_inv s \<Longrightarrow> pool_backlog s'"
proof (induction rule: routine_step.induct)
  case (wait t s m)
  then show ?case by (simp add: pool_backlog_def tq_isEmpty_def)
next
  case (take t s x q)
  then have "tp_queue s \<noteq> []" using pool_take_nonempty by blast
  with take count_pc_pos [of t "tp_pcs s" pool_ready] show ?case
    by (auto simp: pool_inv_def pool_backlog_def waiting_update count_pc_simps tq_getTask_def)
qed (auto simp: pool_inv_def pool_backlog_def waiting_update count_pc_simps)

lemma pushTask_step_mutex: "pushTask_step mk s l s' \<Longrightarrow> pool_inv s \<Longrightarrow>
   mutex_inv pool_in_cs (tp_lock s') (tp_pcs s')"
proof (induction rule: pushTask_step.induct)
  case (signal t s x ps)
  have "mutex_inv pool_in_cs (tp_lock s) ps"
    by (rule mutex_inv_signal [OF signal.hyps(3)]) (use signal.prems in \<open>auto simp: pool_inv_def\<close>)
  moreover have "ps ! t = Ps_Signal x" using signal_other [OF signal.hyps(3,1)] signal.hyps(2) by simp
  ultimately show ?case
    using signal.hyps(1) signal_length [OF signal.hyps(3)] by (simp add: mutex_inv_stay)
qed (auto simp: pool_inv_def mutex_inv_acquire mutex_inv_release mutex_inv_stay)

lemma pushTask_step_take: "pushTask_step mk s l s' \<Longrightarrow> pool_inv s \<Longrightarrow>
   (\<forall>t. tp_lock s' = Some t \<longrightarrow> tp_pcs s' ! t = Wk_Take \<longrightarrow> tp_queue s' \<noteq> [])"
proof (induction rule: pushTask_step.induct)
  case (signal t s x ps)
  then have "tp_lock s = Some t" using pool_holder by fastforce
  with signal signal_length [OF signal.hyps(3)] show ?case by simp
next
  case (lock t s x m)
  then show ?case by auto
qed (auto simp: pool_inv_def nth_list_update tq_push_def)

lemma pushTask_step_backlog: "pushTask_step mk s l s' \<Longrightarrow> pool_inv s \<Longrightarrow> pool_backlog s'"
proof (induction rule: pushTask_step.induct)
  case (signal t s x ps)
  from signal.hyps(3) show ?case
  proof cases
    case (wake_one u)
    then have ut: "u \<noteq> t" using signal.hyps(2) by auto
    have "count_pc pool_ready (ps[t := Ps_Unlock x]) = Suc (count_pc pool_ready (tp_pcs s))"
      using wake_one ut signal.hyps by (simp add: count_pc_simps)
    moreover have "Suc (count_pc pool_signals (ps[t := Ps_Unlock x])) = count_pc pool_signals (tp_pcs s)"
      using wake_one ut signal.hyps count_pc_leave [of t ps pool_signals "Ps_Unlock x"]
      by (simp add: count_pc_simps)
    moreover have "\<exists>t < length (tp_pcs s). tp_pcs s ! t = Wk_Wait" using wake_one by auto
    ultimately show ?thesis
      using signal.prems by (simp add: pool_inv_def pool_backlog_def)
  next
    case wake_none
    then show ?thesis using signal.hyps(1) by (auto simp: pool_backlog_def waiting_update)
  qed
next
  case (put t s x)
  then show ?case
    by (auto simp: pool_inv_def pool_backlog_def waiting_update count_pc_simps tq_push_def)
qed (auto simp: pool_inv_def pool_backlog_def waiting_update count_pc_simps)

lemma run_step_inv: "run_step n s s' \<Longrightarrow> pool_inv s \<Longrightarrow> pool_inv s'"
proof (induction rule: run_step.induct)
  case (created t s k)
  then have kt: "k \<noteq> t" by auto
  show ?case
  proof (cases "k < length (tp_pcs s)")
    case True
    have "mutex_inv pool_in_cs (tp_lock s) ((tp_pcs s)[k := Wk_Lock])"
      using created True by (auto simp: pool_inv_def mutex_inv_stay)
    with created kt True show ?thesis
      by (auto simp: pool_inv_def pool_backlog_def waiting_update count_pc_simps mutex_inv_stay
          nth_list_update)
  next
    case False
    then have "(tp_pcs s)[k := Wk_Lock] = tp_pcs s" by (simp add: list_update_beyond)
    with created False show ?thesis
      by (auto simp: pool_inv_def pool_backlog_def waiting_update count_pc_simps mutex_inv_stay
          nth_list_update)
  qed
qed (auto simp: pool_inv_def pool_backlog_def waiting_update count_pc_simps mutex_inv_stay
        nth_list_update)

lemma pool_spurious_inv: "pool_spurious s s' \<Longrightarrow> pool_inv s \<Longrightarrow> pool_inv s'"
  by (auto simp: pool_spurious_def pool_inv_def pool_backlog_def waiting_update count_pc_simps
      mutex_inv_stay nth_list_update split: if_splits)

lemma pool_step_inv:
  assumes "pool_inv s" and "pool_step n mk s l s'"
  shows "pool_inv s'"
proof -
  have "pool_inv s'" if "routine_step s l s'"
    unfolding pool_inv_def
    using routine_step_mutex [OF that assms(1)] routine_step_take [OF that assms(1)]
      routine_step_backlog [OF that assms(1)] by simp
  moreover have "pool_inv s'" if "pushTask_step mk s l s'"
    unfolding pool_inv_def
    using pushTask_step_mutex [OF that assms(1)] pushTask_step_take [OF that assms(1)]
      pushTask_step_backlog [OF that assms(1)] by simp
  ultimately show ?thesis
    using assms run_step_inv pool_spurious_inv unfolding pool_step_def by blast
qed

lemma pool_init_inv: "pool_init n m s \<Longrightarrow> pool_inv s"
  by (auto simp: pool_init_def pool_inv_def pool_backlog_def mutex_inv_def nth_append nth_Cons'
      split: if_splits)

end
