(* ===== verification/Logging.thy ===== *)
theory Logging
  imports Prelude
begin

text \<open>
  The two loggers. \<open>logMessage\<close> (0208, 0211, 0215) formats a record
  \<open>[LEVEL] [timestamp] text\<close> into two 1024-byte buffers and writes it to a file or to
  standard output; \<open>Log\<close> (1126, 1201) writes \<open>| timestamp | LEVEL | text\<close>.
  The text a caller passes is the result of its format string. What \<open>fprintf\<close> does with
  the null pointer of a failed \<open>fopen\<close>, and \<open>gLevelMap[level]\<close> outside the array, is
  undefined behaviour: the models give \<open>None\<close>.
\<close>

section \<open>logMessage\<close>

datatype log_level = DEBUG | NORMAL | WARNING | ERROR | FATAL

definition gLevelMap :: "string list" where
  "gLevelMap = [''DEBUG'', ''NORMAL'', ''WARNING'', ''ERROR'', ''FATAL'']"

fun level_int :: "log_level \<Rightarrow> int" where
  "level_int DEBUG = 0"
| "level_int NORMAL = 1"
| "level_int WARNING = 2"
| "level_int ERROR = 3"
| "level_int FATAL = 4"

text \<open>What a record is written to: the log file, if it can be opened, and standard output.\<close>

record log_world =
  logfile :: string
  log_opens :: bool
  stdout :: string

definition std_buffer :: "int \<Rightarrow> int \<Rightarrow> string option" where
  "std_buffer level timestamp =
     (if 0 \<le> level \<and> nat level < length gLevelMap
      then Some (snprintf_buf 1024
             (''['' @ gLevelMap ! nat level @ ''] ['' @ show_int timestamp @ ''] ''))
      else None)"

definition log_buffer :: "string \<Rightarrow> string" where
  "log_buffer msg = snprintf_buf 1024 (c_str msg)"

text \<open>0208 and 0211: appended to the file, with no newline of its own.\<close>

definition logMessage :: "int \<Rightarrow> int \<Rightarrow> string \<Rightarrow> log_world \<Rightarrow> log_world option" where
  "logMessage level timestamp msg w =
     (case std_buffer level timestamp of
        None \<Rightarrow> None
      | Some sb \<Rightarrow>
          if log_opens w then Some (w\<lparr>logfile := logfile w @ sb @ log_buffer msg\<rparr>) else None)"

text \<open>0215/tcp: the file is opened and closed, the record goes to standard output;
  closing the null pointer of a file that does not open is undefined too.\<close>

definition logMessage_tcp :: "int \<Rightarrow> int \<Rightarrow> string \<Rightarrow> log_world \<Rightarrow> log_world option" where
  "logMessage_tcp level timestamp msg w =
     (case std_buffer level timestamp of
        None \<Rightarrow> None
      | Some sb \<Rightarrow>
          if log_opens w
          then Some (w\<lparr>stdout := stdout w @ sb @ log_buffer msg @ [CHR 0x0A]\<rparr>) else None)"

text \<open>0215/udp and the backup of the TCP server: standard output only.\<close>

definition logMessage_udp :: "int \<Rightarrow> int \<Rightarrow> string \<Rightarrow> log_world \<Rightarrow> log_world option" where
  "logMessage_udp level timestamp msg w =
     (case std_buffer level timestamp of
        None \<Rightarrow> None
      | Some sb \<Rightarrow> Some (w\<lparr>stdout := stdout w @ sb @ log_buffer msg @ [CHR 0x0A]\<rparr>))"

section \<open>Log\<close>

definition log_msg :: "string list" where
  "log_msg = [''Debug'', ''Notice'', ''Warning'', ''Error'']"

text \<open>\<open>(unsigned)time(nullptr)\<close> is the time modulo \<open>2 ^ 32\<close>.\<close>

definition Log :: "string \<Rightarrow> int \<Rightarrow> int \<Rightarrow> string \<Rightarrow> string option" where
  "Log message level now out =
     (if 0 \<le> level \<and> nat level < length log_msg
      then Some (out @ '' | '' @ show_nat (nat (now mod 2 ^ 32)) @ '' | '' @
                 log_msg ! nat level @ '' | '' @ message)
      else None)"

section \<open>What the records look like\<close>

lemma level_name_cases:
  "(0 \<le> level \<and> nat level < length gLevelMap) \<longleftrightarrow> level \<in> {0, 1, 2, 3, 4}"
  by (auto simp: gLevelMap_def)

lemma length_level_name:
  "nat level < length gLevelMap \<Longrightarrow> length (gLevelMap ! nat level) \<le> 7"
  by (auto simp: gLevelMap_def less_Suc_eq nth_Cons split: nat.splits)

lemma length_show_int:
  assumes "\<bar>i\<bar> < 10 ^ Suc k"
  shows "length (show_int i) \<le> Suc (Suc k)"
proof (cases "i < 0")
  case True
  then have "nat (- i) < 10 ^ Suc k" using assms by (simp add: nat_less_iff)
  with True show ?thesis using length_show_nat_le by (fastforce simp: show_int_def)
next
  case False
  then have "nat i < 10 ^ Suc k" using assms by (simp add: nat_less_iff)
  with False show ?thesis using length_show_nat_le by (fastforce simp: show_int_def)
qed

text \<open>A 64-bit timestamp always fits, so the first buffer is never cut off.\<close>

lemma std_buffer_exact:
  assumes "level \<in> {0, 1, 2, 3, 4}" and "\<bar>timestamp\<bar> < 2 ^ 63"
  shows "std_buffer level timestamp =
     Some (''['' @ gLevelMap ! nat level @ ''] ['' @ show_int timestamp @ ''] '')"
proof -
  have r: "0 \<le> level \<and> nat level < length gLevelMap"
    using assms(1) by (simp only: level_name_cases)
  have "length (show_int timestamp) \<le> Suc (Suc 18)"
    by (rule length_show_int) (use assms(2) in simp)
  moreover have "length (gLevelMap ! nat level) \<le> 7"
    using r length_level_name by simp
  ultimately show ?thesis
    using r by (simp add: std_buffer_def snprintf_buf_fits)
qed

lemma std_buffer_None: "std_buffer level timestamp = None \<longleftrightarrow> level \<notin> {0, 1, 2, 3, 4}"
  using level_name_cases [of level] by (auto simp: std_buffer_def)

lemma level_int_range [simp]: "level_int lv \<in> {0, 1, 2, 3, 4}"
  by (cases lv) auto

lemma length_log_buffer: "length (log_buffer msg) < 1024"
  by (simp add: log_buffer_def length_snprintf_buf)

lemma log_buffer_exact: "nul \<notin> set msg \<Longrightarrow> length msg < 1024 \<Longrightarrow> log_buffer msg = msg"
  by (simp add: log_buffer_def snprintf_buf_fits)

section \<open>Reading a record back\<close>

text \<open>The inverse of the format, for the round trip: level, timestamp and text.\<close>

definition parse_record :: "string \<Rightarrow> (string \<times> string \<times> string) option" where
  "parse_record r =
     (case r of
        [] \<Rightarrow> None
      | c # r1 \<Rightarrow>
          (let lev = takeWhile (\<lambda>c. c \<noteq> CHR '']'') r1; r2 = drop (length lev + 3) r1;
               ts = takeWhile (\<lambda>c. c \<noteq> CHR '']'') r2
           in Some (lev, ts, drop (length ts + 2) r2)))"

lemma bracket_notin_level:
  "nat level < length gLevelMap \<Longrightarrow> CHR '']'' \<notin> set (gLevelMap ! nat level)"
  by (auto simp: gLevelMap_def less_Suc_eq nth_Cons split: nat.splits)

lemma bracket_notin_show_int: "CHR '']'' \<notin> set (show_int i)"
  using show_nat_digits [of "CHR '']''"] by (auto simp: show_int_def is_digit_def)

lemma parse_record_inverse:
  assumes "CHR '']'' \<notin> set lev" and "CHR '']'' \<notin> set ts"
  shows "parse_record (''['' @ lev @ ''] ['' @ ts @ ''] '' @ msg) = Some (lev, ts, msg)"
proof -
  let ?P = "\<lambda>c. c \<noteq> CHR '']''"
  have a: "takeWhile ?P (lev @ CHR '']'' # x) = lev" for x
    by (rule takeWhile_append_stop) (use assms(1) in auto)
  have b: "takeWhile ?P (ts @ CHR '']'' # x) = ts" for x
    by (rule takeWhile_append_stop) (use assms(2) in auto)
  show ?thesis by (simp add: parse_record_def a b drop_Cons')
qed

text \<open>
  C8. A record of a level in range, a 64-bit timestamp and a text under 1024 bytes is
  appended to the log file whole, and its level, timestamp and text can be read back
  from what was appended; a level outside \<open>gLevelMap\<close> or a log file that does not open
  is an undefined access.
\<close>

theorem log_record_roundtrip:
  assumes "\<bar>timestamp\<bar> < 2 ^ 63" and "nul \<notin> set msg" and "length msg < 1024"
  shows "logMessage level timestamp msg w =
       (if level \<in> {0, 1, 2, 3, 4} \<and> log_opens w
        then Some (w\<lparr>logfile := logfile w @ ''['' @ gLevelMap ! nat level @ ''] ['' @
                      show_int timestamp @ ''] '' @ msg\<rparr>)
        else None) \<and>
     (level \<in> {0, 1, 2, 3, 4} \<longrightarrow>
        parse_record (the (std_buffer level timestamp) @ log_buffer msg)
        = Some (gLevelMap ! nat level, show_int timestamp, msg))"
proof (cases "level \<in> {0, 1, 2, 3, 4}")
  case True
  then have "nat level < length gLevelMap" using level_name_cases by blast
  from bracket_notin_level [OF this] show ?thesis
    using True assms parse_record_inverse [OF _ bracket_notin_show_int]
    by (simp add: logMessage_def std_buffer_exact log_buffer_exact)
next
  case False
  then have "std_buffer level timestamp = None" using std_buffer_None by blast
  with False show ?thesis by (simp add: logMessage_def)
qed

theorem log_record_roundtrip_witness:
  "logMessage 3 1707000000 ''popen'' \<lparr>logfile = ''x'', log_opens = True, stdout = []\<rparr>
   = Some \<lparr>logfile = ''x'' @ ''['' @ ''ERROR'' @ ''] ['' @ show_int 1707000000 @ ''] '' @ ''popen'',
           log_opens = True, stdout = []\<rparr>"
  using log_record_roundtrip [of 1707000000 "''popen''" 3 "\<lparr>logfile = ''x'', log_opens = True, stdout = []\<rparr>"]
  by (simp add: nul_def gLevelMap_def)

end
