(* ===== verification/Pool_Correct.thy ===== *)
theory Pool_Correct
  imports Thread_Pool Logging
begin

text \<open>
  What the thread pool guarantees: it refines the abstract pool (tasks leave the queue in
  order, a worker runs exactly what it took), no worker sleeps while tasks pile up, and
  what the tasks of 0208's and 0211's \<open>testMain.cc\<close> compute and log.
\<close>

section \<open>Refinement\<close>

fun pool_pending :: "'a pool_pc \<Rightarrow> 'a option" where
  "pool_pending (Wk_Unlock x) = Some x"
| "pool_pending (Wk_Run x) = Some x"
| "pool_pending _ = None"

definition pool_pendings :: "'a pool_pc list \<Rightarrow> tid \<Rightarrow> 'a option" where
  "pool_pendings ps = (\<lambda>w. if w < length ps then pool_pending (ps ! w) else None)"

definition pool_abs_of :: "'a pool_sys \<Rightarrow> 'a pool_abs" where
  "pool_abs_of s = (tp_queue s, pool_pendings (tp_pcs s))"

lemma pool_pendings_update:
  "t < length ps \<Longrightarrow> pool_pendings (ps[t := p]) = (pool_pendings ps)(t := pool_pending p)"
  by (rule ext) (auto simp: pool_pendings_def nth_list_update)

lemma pool_pendings_at: "t < length ps \<Longrightarrow> pool_pendings ps t = pool_pending (ps ! t)"
  by (simp add: pool_pendings_def)

lemma pool_pendings_stay:
  "t < length ps \<Longrightarrow> pool_pending (ps ! t) = pool_pending p \<Longrightarrow>
   pool_pendings (ps[t := p]) = pool_pendings ps"
  by (rule ext) (auto simp: pool_pendings_def nth_list_update)

lemma pool_pendings_signal:
  assumes "pthread_cond_signal pool_waits pool_wake ps ps'"
  shows "pool_pendings ps' = pool_pendings ps"
  using assms by cases (auto intro!: pool_pendings_stay)

lemma pool_tau_routine: "routine_step s None s' \<Longrightarrow> pool_abs_of s' = pool_abs_of s"
  by (auto simp: pool_abs_of_def pool_pendings_stay elim!: routine_step.cases)

lemma pool_tau_push:
  assumes "pushTask_step mk s None s'"
  shows "pool_abs_of s' = pool_abs_of s"
  using assms
proof cases
  case (signal t x ps)
  have "ps ! t = Ps_Signal x" using signal_other [OF signal(4,2)] signal(3) by simp
  with signal signal_length [OF signal(4)] pool_pendings_signal [OF signal(4)] show ?thesis
    by (simp add: pool_abs_of_def pool_pendings_stay)
qed (auto simp: pool_abs_of_def pool_pendings_stay)

lemma pool_tau_run: "run_step n s s' \<Longrightarrow> pool_abs_of s' = pool_abs_of s"
proof (induction rule: run_step.induct)
  case (created t s k)
  then have "pool_pendings ((tp_pcs s)[k := Wk_Lock]) = pool_pendings (tp_pcs s)"
    by (cases "k < length (tp_pcs s)") (auto simp: pool_pendings_stay list_update_beyond)
  moreover have "(tp_pcs s)[k := Wk_Lock] ! t = Mn_Run k" using created by (cases "k = t") simp_all
  ultimately show ?case using created by (simp add: pool_abs_of_def pool_pendings_stay)
qed (simp_all add: pool_abs_of_def pool_pendings_stay)

lemma pool_tau_spurious: "pool_spurious s s' \<Longrightarrow> pool_abs_of s' = pool_abs_of s"
  by (auto simp: pool_spurious_def pool_abs_of_def pool_pendings_stay)

lemma pool_tau_abs: "pool_step n mk s None s' \<Longrightarrow> pool_abs_of s' = pool_abs_of s"
  unfolding pool_step_def
  using pool_tau_routine pool_tau_push pool_tau_run pool_tau_spurious by blast

lemma pool_vis_abs:
  assumes inv: "pool_inv s" and step: "pool_step n mk s (Some e) s'"
  shows "pool_spec (pool_abs_of s) e = Some (pool_abs_of s')"
proof -
  from step consider "routine_step s (Some e) s'" | "pushTask_step mk s (Some e) s'"
    by (auto simp: pool_step_def)
  then show ?thesis
  proof cases
    case 1
    then show ?thesis
    proof cases
      case (take t x q)
      then have "tp_queue s \<noteq> []" using pool_take_nonempty [OF inv] by blast
      then obtain y ys where "tp_queue s = y # ys" by (auto simp: neq_Nil_conv)
      with take show ?thesis
        by (simp add: pool_abs_of_def pool_pendings_at pool_pendings_update tq_getTask_def)
    next
      case (execute t x)
      then show ?thesis
        by (simp add: pool_abs_of_def pool_pendings_at pool_pendings_update)
    qed
  next
    case 2
    then show ?thesis
      by cases (simp add: pool_abs_of_def pool_pendings_stay tq_push_def)
  qed
qed

interpretation pool: trace_refinement "pool_init n m" "pool_step n mk" pool_inv pool_abs_of pool_spec
  for n m :: nat and mk :: "'a \<Rightarrow> bool"
  by unfold_locales (auto intro: pool_init_inv pool_step_inv pool_tau_abs pool_vis_abs)

lemma pool_init_abs: "pool_init n m s \<Longrightarrow> pool_abs_of s = ([], \<lambda>_. None)"
  by (auto simp: pool_init_def pool_abs_of_def pool_pendings_def nth_append nth_Cons' fun_eq_iff)

text \<open>A concrete run with one worker: it is started, sleeps, is woken for task 5 and runs it.\<close>

lemma pool_demo_run:
  "\<exists>s0 (s :: nat pool_sys). pool_init 1 0 s0 \<and>
     Lts.run (pool_step 1 (\<lambda>_. True)) s0 [Pushed 5, Taken 0 5, Ran 0 5, Pushed 8] s \<and>
     tp_queue s = [8] \<and> tp_lock s = None \<and> tp_pcs s = [Wk_Lock, Ps_Make]"
proof -
  define s0 :: "nat pool_sys" where
    "s0 = \<lparr>tp_queue = [], tp_lock = None, tp_pcs = [Wk_New, Mn_Run 0]\<rparr>"
  let ?cs = "[(1, 0, 1), (0, 0, 0), (0, 0, 0), (1, 0, 0), (1, 5, 0), (1, 0, 0), (1, 0, 0), (1, 0, 0),
              (1, 0, 0), (0, 0, 0), (0, 0, 0), (0, 0, 0), (0, 0, 0), (0, 0, 0),
              (1, 8, 0), (1, 0, 0), (1, 0, 0), (1, 0, 0), (1, 0, 0)] :: (nat \<times> nat \<times> nat) list"
  have "\<exists>s. schedule (pool_exec 1) s0 ?cs = Some ([Pushed 5, Taken 0 5, Ran 0 5, Pushed 8], s) \<and>
     tp_queue s = [8] \<and> tp_lock s = None \<and> tp_pcs s = [Wk_Lock, Ps_Make]"
    by (simp add: s0_def pool_exec_def Let_def tq_isEmpty_def tq_push_def tq_getTask_def
        signal_choice_def lockGuard_ctor_def lockGuard_dtor_def Mutex_lock_def Mutex_unlock_def
        pthread_mutex_lock_def pthread_mutex_unlock_def)
  moreover have "pool_init 1 0 s0" by (simp add: pool_init_def s0_def)
  ultimately show ?thesis using pool_schedule_run [where mk = "\<lambda>_. True" and n = 1] by blast
qed

lemma pool_runs_in_order:
  assumes "pool_init n m s0" and "Lts.run (pool_step n mk) s0 es s"
  shows "pushed es = map snd (taken es) @ tp_queue s \<and>
     (\<forall>w. of_worker w (taken es) = of_worker w (ran es) @ opt_list (pool_pendings (tp_pcs s) w))"
proof -
  have "abs_run pool_spec (pool_abs_of s0) es = Some (pool_abs_of s)"
    by (rule pool.trace_refines [OF assms])
  then have "abs_run pool_spec ([], \<lambda>_. None) es = Some (tp_queue s, pool_pendings (tp_pcs s))"
    by (simp add: pool_init_abs [OF assms(1)]) (simp add: pool_abs_of_def)
  from pool_spec_run [OF this] show ?thesis by (simp add: opt_list_def)
qed

text \<open>
  C12. Along every interleaving of any number of workers and pushing threads, spurious
  wake-ups and failing \<open>pthread_create\<close> calls included, the tasks pushed are the tasks taken,
  in the same order, followed by the queue; and every worker has run exactly the tasks it
  took, in order, except for the one it still holds.
\<close>

theorem pool_runs_each_task_once:
  assumes "pool_init n m s0" and "Lts.run (pool_step n mk) s0 es s"
  shows "pushed es = map snd (taken es) @ tp_queue s \<and>
     (\<forall>w. of_worker w (taken es) = of_worker w (ran es) @ opt_list (pool_pendings (tp_pcs s) w))"
  by (rule pool_runs_in_order [OF assms])

theorem pool_runs_each_task_once_witness:
  "\<exists>s :: nat pool_sys. tp_queue s = [8] \<and>
     pushed [Pushed 5, Taken 0 5, Ran 0 5, Pushed 8]
     = map snd (taken [Pushed 5, Taken 0 5, Ran 0 5, Pushed 8]) @ tp_queue s"
  using pool_demo_run pool_runs_each_task_once by blast

section \<open>No worker sleeps on a backlog\<close>

lemma started_worker_steps:
  assumes "t < length (tp_pcs s)" and "tp_lock s = None"
    and "tp_pcs s ! t = Wk_Lock \<or> tp_pcs s ! t = Wk_Wake \<or> tp_pcs s ! t = Wk_Test \<or>
         tp_pcs s ! t = Wk_Take \<or> (\<exists>x. tp_pcs s ! t = Wk_Run x)"
    and "pool_inv s"
  shows "\<exists>l s'. routine_step s l s'"
  using assms(3)
proof (elim disjE exE)
  assume "tp_pcs s ! t = Wk_Lock"
  with routine_step.lock [of t s "Some t"] show ?thesis using assms by auto
next
  assume "tp_pcs s ! t = Wk_Wake"
  with routine_step.woken [of t s "Some t"] show ?thesis using assms by auto
next
  fix x assume "tp_pcs s ! t = Wk_Run x"
  with routine_step.execute [of t s x] show ?thesis using assms by auto
qed (use assms pool_holder [OF assms(4,1)] in simp_all)

definition started_worker :: "'a pool_pc \<Rightarrow> bool" where
  "started_worker p \<longleftrightarrow>
     p \<in> {Wk_Lock, Wk_Test, Wk_Wait, Wk_Wake, Wk_Take} \<or> (\<exists>x. p = Wk_Unlock x \<or> p = Wk_Run x)"

lemma pool_free_no_signal:
  assumes "pool_inv s" and "tp_lock s = None"
  shows "count_pc pool_signals (tp_pcs s) = 0"
proof (rule count_pc_zero, intro allI impI)
  fix t assume "t < length (tp_pcs s)"
  then have "\<not> pool_in_cs (tp_pcs s ! t)"
    using assms mutex_inv_free by (fastforce simp: pool_inv_def)
  then show "\<not> pool_signals (tp_pcs s ! t)" by (cases "tp_pcs s ! t") auto
qed

text \<open>
  C14. No lost wake-up: when the lock is free and a worker sleeps, the queue holds no more
  tasks than there are awake workers on their way to it; and when the queue holds a task and
  at least one worker has been started, some worker has a step.
\<close>

theorem pool_no_lost_wakeup:
  assumes "reachable (pool_init n m) (pool_step n mk) s" and "tp_lock s = None"
  shows "((\<exists>t < length (tp_pcs s). tp_pcs s ! t = Wk_Wait) \<longrightarrow>
       length (tp_queue s) \<le> count_pc pool_ready (tp_pcs s)) \<and>
     (tp_queue s \<noteq> [] \<and> (\<exists>t < length (tp_pcs s). started_worker (tp_pcs s ! t)) \<longrightarrow>
       (\<exists>l s'. routine_step s l s'))"
proof -
  have inv: "pool_inv s" by (rule pool.inv_reachable [OF assms(1)])
  have bl: "(\<exists>t < length (tp_pcs s). tp_pcs s ! t = Wk_Wait) \<longrightarrow>
      length (tp_queue s) \<le> count_pc pool_ready (tp_pcs s)"
    using inv pool_free_no_signal [OF inv assms(2)] by (simp add: pool_inv_def pool_backlog_def)
  have "\<exists>l s'. routine_step s l s'"
    if q: "tp_queue s \<noteq> []" and t: "t < length (tp_pcs s)" and st: "started_worker (tp_pcs s ! t)" for t
  proof (cases "tp_pcs s ! t = Wk_Wait")
    case True
    with t bl have "length (tp_queue s) \<le> count_pc pool_ready (tp_pcs s)" by blast
    with q have "count_pc pool_ready (tp_pcs s) \<noteq> 0"
      using length_greater_0_conv [of "tp_queue s"] by linarith
    then obtain u where u: "u < length (tp_pcs s)" and r: "pool_ready (tp_pcs s ! u)"
      by (auto simp: count_pc_zero_iff)
    from r have "tp_pcs s ! u \<in> {Wk_Lock, Wk_Test, Wk_Wake, Wk_Take}"
      by (cases "tp_pcs s ! u") auto
    with started_worker_steps [OF u assms(2) _ inv] show ?thesis by auto
  next
    case False
    have "tp_pcs s ! t \<noteq> Wk_Unlock x" for x
      using pool_holder [OF inv t] assms(2) by auto
    with False st show ?thesis
      using started_worker_steps [OF t assms(2) _ inv] by (auto simp: started_worker_def)
  qed
  with bl show ?thesis by blast
qed

theorem pool_no_lost_wakeup_witness:
  "\<exists>s :: nat pool_sys. tp_queue s = [8] \<and> tp_pcs s = [Wk_Lock, Ps_Make] \<and> (\<exists>l s'. routine_step s l s')"
proof -
  obtain s0 s :: "nat pool_sys" where i: "pool_init 1 0 s0"
    and r: "Lts.run (pool_step 1 (\<lambda>_. True)) s0 [Pushed 5, Taken 0 5, Ran 0 5, Pushed 8] s"
    and p: "tp_queue s = [8]" "tp_lock s = None" "tp_pcs s = [Wk_Lock, Ps_Make]"
    using pool_demo_run by blast
  have "reachable (pool_init 1 0) (pool_step 1 (\<lambda>_. True)) s"
    by (rule reachable_run [where I = "pool_init 1 0", OF i r])
  from pool_no_lost_wakeup [OF this] p have "\<exists>l s'. routine_step s l s'"
    by (auto simp: started_worker_def)
  with p show ?thesis by blast
qed

section \<open>The tasks of testMain\<close>

definition text_thread :: string where
  "text_thread = utf8 [0xE7, 0xBA, 0xBF, 0xE7, 0xA8, 0x8B, 0x3A, 0x20]"

definition text_result :: string where
  "text_result =
     utf8 [0x2C, 0xE5, 0xA4, 0x84, 0xE7, 0x90, 0x86, 0xE7, 0xBB, 0x93,
        0xE6, 0x9E, 0x9C, 0xE6, 0x98, 0xAF, 0x3A, 0x20]"

record pool_task =
  pt_x :: int
  pt_y :: int
  pt_func :: "int \<Rightarrow> int \<Rightarrow> int"

definition pool_Task_ctor :: "int \<Rightarrow> int \<Rightarrow> (int \<Rightarrow> int \<Rightarrow> int) \<Rightarrow> pool_task" where
  "pool_Task_ctor x y func = \<lparr>pt_x = x, pt_y = y, pt_func = func\<rparr>"

text \<open>\<open>operator()\<close>: the text is "thread: name, result: n" in the source's language.\<close>

definition pool_Task_text :: "pool_task \<Rightarrow> string \<Rightarrow> string" where
  "pool_Task_text tsk name =
     text_thread @ c_str name @ text_result @
     show_int (pt_func tsk (pt_x tsk) (pt_y tsk)) @ [CHR 0x0A]"

definition pool_Task_call :: "pool_task \<Rightarrow> string \<Rightarrow> int \<Rightarrow> log_world \<Rightarrow> log_world option" where
  "pool_Task_call tsk name now w = logMessage (level_int NORMAL) now (pool_Task_text tsk name) w"

text \<open>The task \<open>main\<close> makes from two results of \<open>rand()\<close>.\<close>

definition main_task :: "nat \<Rightarrow> nat \<Rightarrow> pool_task" where
  "main_task r1 r2 = pool_Task_ctor (int (r1 mod 100) + 1) (int (r2 mod 30) + 1) (\<lambda>x y. x + y)"

definition made_by_main :: "pool_task \<Rightarrow> bool" where
  "made_by_main tsk \<longleftrightarrow> (\<exists>r1 r2. tsk = main_task r1 r2)"

lemma nul_notin_show_int [simp]: "nul \<notin> set (show_int i)"
  by (auto simp: show_int_def nul_def) (use nul_notin_show_nat in \<open>simp_all add: nul_def\<close>)

text \<open>What a thread holds of the tasks, and the invariant that all of them were made.\<close>

fun pool_item :: "'a pool_pc \<Rightarrow> 'a option" where
  "pool_item (Wk_Unlock x) = Some x"
| "pool_item (Wk_Run x) = Some x"
| "pool_item (Ps_Lock x) = Some x"
| "pool_item (Ps_Push x) = Some x"
| "pool_item (Ps_Signal x) = Some x"
| "pool_item (Ps_Unlock x) = Some x"
| "pool_item _ = None"

definition pool_items :: "('a \<Rightarrow> bool) \<Rightarrow> 'a pool_pc list \<Rightarrow> bool" where
  "pool_items mk ps \<longleftrightarrow> (\<forall>t < length ps. \<forall>x. pool_item (ps ! t) = Some x \<longrightarrow> mk x)"

definition pool_made :: "('a \<Rightarrow> bool) \<Rightarrow> 'a pool_sys \<Rightarrow> bool" where
  "pool_made mk s \<longleftrightarrow> pool_inv s \<and> (\<forall>x \<in> set (tp_queue s). mk x) \<and> pool_items mk (tp_pcs s)"

lemma pool_items_update:
  "pool_items mk ps \<Longrightarrow> (\<And>x. pool_item p = Some x \<Longrightarrow> mk x) \<Longrightarrow> pool_items mk (ps[t := p])"
  by (cases "t < length ps") (auto simp: pool_items_def nth_list_update)

lemma pool_items_at:
  "pool_items mk ps \<Longrightarrow> t < length ps \<Longrightarrow> pool_item (ps ! t) = Some x \<Longrightarrow> mk x"
  by (auto simp: pool_items_def)

lemma pool_items_signal:
  assumes "pthread_cond_signal pool_waits pool_wake ps ps'" and "pool_items mk ps"
  shows "pool_items mk ps'"
  using assms(1)
proof cases
  case (wake_one u)
  then have "ps' = ps[u := Wk_Wake]" by simp
  with assms(2) show ?thesis by (simp only:) (rule pool_items_update, simp_all)
next
  case wake_none
  then show ?thesis using assms(2) by simp
qed

lemma pool_made_routine:
  assumes "routine_step s l s'" and "pool_made mk s"
  shows "(\<forall>x \<in> set (tp_queue s'). mk x) \<and> pool_items mk (tp_pcs s')"
  using assms
proof (induction rule: routine_step.induct)
  case (take t s x q)
  then have "tp_queue s \<noteq> []" using pool_take_nonempty by (auto simp: pool_made_def)
  then obtain y ys where "tp_queue s = y # ys" by (auto simp: neq_Nil_conv)
  with take show ?case by (auto simp: pool_made_def tq_getTask_def intro!: pool_items_update)
next
  case (unlock t s x m)
  then have "mk x" using pool_items_at [of mk "tp_pcs s" t x] by (simp add: pool_made_def)
  with unlock show ?case by (auto simp: pool_made_def intro!: pool_items_update)
qed (auto simp: pool_made_def intro!: pool_items_update)

lemma pool_made_push:
  assumes "pushTask_step mk s l s'" and "pool_made mk s"
  shows "(\<forall>x \<in> set (tp_queue s'). mk x) \<and> pool_items mk (tp_pcs s')"
  using assms
proof (induction rule: pushTask_step.induct)
  case (signal t s x ps)
  then have "mk x" using pool_items_at [of mk "tp_pcs s" t x] by (simp add: pool_made_def)
  with signal pool_items_signal show ?case by (auto simp: pool_made_def intro!: pool_items_update)
next
  case (put t s x)
  then have "mk x" using pool_items_at [of mk "tp_pcs s" t x] by (simp add: pool_made_def)
  with put show ?case by (auto simp: pool_made_def tq_push_def intro!: pool_items_update)
next
  case (lock t s x m)
  then have "mk x" using pool_items_at [of mk "tp_pcs s" t x] by (simp add: pool_made_def)
  with lock show ?case by (auto simp: pool_made_def intro!: pool_items_update)
qed (auto simp: pool_made_def intro!: pool_items_update)

lemma pool_made_rest:
  "run_step n s s' \<or> pool_spurious s s' \<Longrightarrow> pool_made mk s \<Longrightarrow>
   (\<forall>x \<in> set (tp_queue s'). mk x) \<and> pool_items mk (tp_pcs s')"
  by (auto simp: pool_made_def pool_spurious_def elim!: run_step.cases intro!: pool_items_update)

lemma pool_made_step:
  assumes "pool_made mk s" and "pool_step n mk s l s'"
  shows "pool_made mk s'"
proof -
  have "pool_inv s" using assms(1) by (simp add: pool_made_def)
  then have "pool_inv s'" by (rule pool_step_inv [OF _ assms(2)])
  moreover have "(\<forall>x \<in> set (tp_queue s'). mk x) \<and> pool_items mk (tp_pcs s')"
    using assms(2) unfolding pool_step_def
    by (elim disjE conjE)
      (rule pool_made_routine [OF _ assms(1)] pool_made_push [OF _ assms(1)]
        pool_made_rest [OF disjI1 assms(1)] pool_made_rest [OF disjI2 assms(1)], assumption)+
  ultimately show ?thesis by (simp add: pool_made_def)
qed

lemma pool_made_init: "pool_init n m s \<Longrightarrow> pool_made mk s"
  by (simp add: pool_made_def pool_init_inv)
    (auto simp: pool_init_def pool_items_def nth_append nth_Cons' split: if_splits)

interpretation poolm: inductive_invariant "pool_init n m" "pool_step n mk" "pool_made mk"
  for n m :: nat and mk :: "'a \<Rightarrow> bool"
  by unfold_locales (auto intro: pool_made_init pool_made_step)

lemma main_task_range:
  "2 \<le> pt_x (main_task r1 r2) + pt_y (main_task r1 r2)"
  "pt_x (main_task r1 r2) + pt_y (main_task r1 r2) \<le> 130"
proof -
  have "int (r1 mod 100) < 100" "int (r2 mod 30) < 30"
    using mod_less_divisor [of 100 r1] mod_less_divisor [of 30 r2] by linarith+
  then show "2 \<le> pt_x (main_task r1 r2) + pt_y (main_task r1 r2)"
    "pt_x (main_task r1 r2) + pt_y (main_task r1 r2) \<le> 130"
    by (simp_all add: main_task_def pool_Task_ctor_def)
qed

lemma pool_text_exact:
  assumes "t < 3" and "0 \<le> r" and "r \<le> 130"
  shows "log_buffer (text_thread @ ''Thread-'' @ show_nat (Suc t) @ text_result @ show_int r @ [CHR 0x0A])
     = text_thread @ ''Thread-'' @ show_nat (Suc t) @ text_result @ show_int r @ [CHR 0x0A]"
proof (rule log_buffer_exact)
  have "length (show_nat (Suc t)) \<le> Suc 0" by (rule length_show_nat_le) (use assms(1) in simp)
  moreover have "length (show_int r) \<le> Suc (Suc 2)" by (rule length_show_int) (use assms in simp)
  ultimately show "length (text_thread @ ''Thread-'' @ show_nat (Suc t) @ text_result @ show_int r @ [CHR 0x0A]) < 1024"
    by (simp add: utf8_def text_thread_def text_result_def)
  have "nul \<notin> set text_thread" "nul \<notin> set text_result" "nul \<notin> set [CHR 0x0A]" by code_simp+
  then show "nul \<notin> set (text_thread @ ''Thread-'' @ show_nat (Suc t) @ text_result @ show_int r @ [CHR 0x0A])"
    using nul_notin_Thread by (simp only: set_append Un_iff nul_notin_show_nat nul_notin_show_int simp_thms)
qed

definition task_line :: "nat \<Rightarrow> pool_task \<Rightarrow> int \<Rightarrow> string" where
  "task_line t tsk now =
     ''[NORMAL] ['' @ show_int now @ ''] '' @ text_thread @ ''Thread-'' @ show_nat (Suc t) @
     text_result @ show_int (pt_x tsk + pt_y tsk) @ [CHR 0x0A]"

lemma task_call_logs:
  assumes "made_by_main tsk" and "t < 3" and "\<bar>now\<bar> < 2 ^ 63" and "log_opens w"
  shows "2 \<le> pt_x tsk + pt_y tsk \<and> pt_x tsk + pt_y tsk \<le> 130 \<and>
     pool_Task_call tsk (thread_name (ThreadPool_threads g_thread_num ! t)) now w
     = Some (w\<lparr>logfile := logfile w @ task_line t tsk now\<rparr>)"
proof -
  from assms(1) obtain r1 r2 :: nat where tsk: "tsk = main_task r1 r2" by (auto simp: made_by_main_def)
  have f: "pt_func tsk = (\<lambda>x y. x + y)" by (simp add: tsk main_task_def pool_Task_ctor_def)
  have r: "2 \<le> pt_x tsk + pt_y tsk" "pt_x tsk + pt_y tsk \<le> 130"
    unfolding tsk by (rule main_task_range)+
  have "thread_name (ThreadPool_threads g_thread_num ! t) = ''Thread-'' @ show_nat (Suc t)"
    using assms(2) Thread_ctor_name [of "int (Suc t)"]
    by (simp add: ThreadPool_threads_def g_thread_num_def nat_add_distrib)
  moreover have "c_str (''Thread-'' @ show_nat (Suc t)) = ''Thread-'' @ show_nat (Suc t)"
    by (rule c_str_id) (use nul_notin_Thread nul_notin_show_nat in auto)
  moreover have "0 \<le> pt_x tsk + pt_y tsk" using r(1) by simp
  note pool_text_exact [OF assms(2) this r(2)]
  ultimately show ?thesis
    using r f assms(3,4) std_buffer_exact [of 1 now]
    by (simp add: pool_Task_call_def pool_Task_text_def logMessage_def gLevelMap_def task_line_def)
qed

text \<open>
  What a worker of the test program logs: the task it is about to run was made by
  \<open>main\<close>, its result is the sum of the task's two numbers, between 2 and 130, and the line
  appended to the log file is the level, the time, the worker's own name and that sum, none
  of it cut off.
\<close>

theorem worker_logs_sum:
  assumes "reachable (pool_init 3 0) (pool_step 3 made_by_main) s"
    and "t < 3" and "t < length (tp_pcs s)" and "tp_pcs s ! t = Wk_Run tsk"
    and "\<bar>now\<bar> < 2 ^ 63" and "log_opens w"
  shows "2 \<le> pt_x tsk + pt_y tsk \<and> pt_x tsk + pt_y tsk \<le> 130 \<and>
     pool_Task_call tsk (thread_name (ThreadPool_threads g_thread_num ! t)) now w
     = Some (w\<lparr>logfile := logfile w @ task_line t tsk now\<rparr>)"
proof -
  have "pool_made made_by_main s" by (rule poolm.inv_reachable [OF assms(1)])
  then have "made_by_main tsk"
    using assms(3,4) pool_items_at [of made_by_main "tp_pcs s" t tsk] by (simp add: pool_made_def)
  from task_call_logs [OF this assms(2,5,6)] show ?thesis .
qed

text \<open>A run of the test program up to the first worker's first task.\<close>

lemma main_demo_run:
  "\<exists>s. reachable (pool_init 3 0) (pool_step 3 made_by_main) s \<and>
     length (tp_pcs s) = 4 \<and> tp_pcs s ! 0 = Wk_Run (main_task 5 7)"
proof -
  define s0 :: "pool_task pool_sys" where
    "s0 = \<lparr>tp_queue = [], tp_lock = None, tp_pcs = [Wk_New, Wk_New, Wk_New, Mn_Run 0]\<rparr>"
  define x where "x = main_task 5 7"
  let ?cs = "[(3, x, 1), (3, x, 0), (3, x, 1), (3, x, 0), (3, x, 0), (3, x, 0), (3, x, 0),
              (3, x, 0), (3, x, 0), (0, x, 0), (0, x, 0), (0, x, 0), (0, x, 0)]"
  have "\<exists>s. schedule (pool_exec 3) s0 ?cs = Some ([Pushed x, Taken 0 x], s) \<and>
     length (tp_pcs s) = 4 \<and> tp_pcs s ! 0 = Wk_Run x"
    by (simp add: s0_def pool_exec_def Let_def tq_isEmpty_def tq_push_def tq_getTask_def
        signal_choice_def lockGuard_ctor_def lockGuard_dtor_def Mutex_lock_def Mutex_unlock_def
        pthread_mutex_lock_def pthread_mutex_unlock_def)
  then obtain s where sch: "schedule (pool_exec 3) s0 ?cs = Some ([Pushed x, Taken 0 x], s)"
    and p: "length (tp_pcs s) = 4" "tp_pcs s ! 0 = Wk_Run x" by blast
  have "Lts.run (pool_step 3 made_by_main) s0 [Pushed x, Taken 0 x] s"
    by (rule pool_schedule_run [OF sch]) (auto simp: made_by_main_def x_def)
  moreover have "pool_init 3 0 s0" by (simp add: pool_init_def s0_def numeral_3_eq_3)
  ultimately have "reachable (pool_init 3 0) (pool_step 3 made_by_main) s"
    using reachable_run [where I = "pool_init 3 0"] by blast
  with p show ?thesis by (auto simp: x_def)
qed

theorem worker_logs_sum_witness:
  "pool_Task_call (main_task 5 7) (thread_name (ThreadPool_threads g_thread_num ! 0)) 0
     \<lparr>logfile = [], log_opens = True, stdout = []\<rparr>
   = Some \<lparr>logfile = ''[NORMAL] ['' @ show_int 0 @ ''] '' @ text_thread @ ''Thread-'' @ show_nat 1 @
       text_result @ show_int 14 @ [CHR 0x0A], log_opens = True, stdout = []\<rparr>"
proof -
  obtain s where "reachable (pool_init 3 0) (pool_step 3 made_by_main) s"
    and "length (tp_pcs s) = 4" and "tp_pcs s ! 0 = Wk_Run (main_task 5 7)"
    using main_demo_run by blast
  from worker_logs_sum [OF this(1), of 0 "main_task 5 7" 0 "\<lparr>logfile = [], log_opens = True, stdout = []\<rparr>"] this
  show ?thesis by (simp add: main_task_def pool_Task_ctor_def task_line_def)
qed

section \<open>Who is a worker does not change\<close>

fun is_worker :: "'a pool_pc \<Rightarrow> bool" where
  "is_worker Wk_New = True"
| "is_worker Wk_Lock = True"
| "is_worker Wk_Test = True"
| "is_worker Wk_Wait = True"
| "is_worker Wk_Wake = True"
| "is_worker Wk_Take = True"
| "is_worker (Wk_Unlock x) = True"
| "is_worker (Wk_Run x) = True"
| "is_worker _ = False"

definition worker_roles :: "nat \<Rightarrow> 'a pool_pc list \<Rightarrow> bool" where
  "worker_roles n ps \<longleftrightarrow> (\<forall>t < length ps. is_worker (ps ! t) = (t < n))"

lemma worker_roles_update:
  "worker_roles n ps \<Longrightarrow> is_worker (ps ! t) = is_worker p \<Longrightarrow> worker_roles n (ps[t := p])"
  by (cases "t < length ps") (auto simp: worker_roles_def nth_list_update)

lemma worker_roles_signal:
  "pthread_cond_signal pool_waits pool_wake ps ps' \<Longrightarrow> worker_roles n ps \<Longrightarrow> worker_roles n ps'"
  by (erule pthread_cond_signal.cases) (auto intro!: worker_roles_update)

lemma worker_roles_step:
  assumes roles: "worker_roles n (tp_pcs s)" and step: "pool_step n mk s l s'"
  shows "worker_roles n (tp_pcs s')"
  using step unfolding pool_step_def
proof (elim disjE conjE)
  assume "routine_step s l s'"
  then show ?thesis using roles by cases (auto intro!: worker_roles_update)
next
  assume "pushTask_step mk s l s'"
  then show ?thesis
  proof cases
    case (signal t x ps)
    have "ps ! t = Ps_Signal x" using signal_other [OF signal(5,3)] signal(4) by simp
    with signal roles worker_roles_signal [OF signal(5)] show ?thesis
      by (auto intro!: worker_roles_update)
  qed (use roles in \<open>auto intro!: worker_roles_update\<close>)
next
  assume "run_step n s s'"
  then show ?thesis
  proof cases
    case (created t k)
    then have "(tp_pcs s)[k := Wk_Lock] ! t = Mn_Run k" by (cases "k = t") simp_all
    with created roles show ?thesis by (auto intro!: worker_roles_update)
  qed (use roles in \<open>auto intro!: worker_roles_update\<close>)
next
  assume "pool_spurious s s'"
  then show ?thesis using roles by (auto simp: pool_spurious_def intro!: worker_roles_update)
qed

lemma worker_roles_init: "pool_init n m s \<Longrightarrow> worker_roles n (tp_pcs s)"
  by (auto simp: pool_init_def worker_roles_def nth_append nth_Cons')

interpretation poolr: inductive_invariant "pool_init n m" "pool_step n mk"
  "\<lambda>s. worker_roles n (tp_pcs s)"
  for n m :: nat and mk :: "'a \<Rightarrow> bool"
  by unfold_locales (auto intro: worker_roles_init worker_roles_step)

text \<open>When every worker is running a task, nobody takes one from the queue.\<close>

lemma busy_pool_takes_nothing:
  assumes "reachable (pool_init n m) (pool_step n mk) s"
    and "\<forall>t < n. \<exists>x. tp_pcs s ! t = Wk_Run x"
  shows "\<not> pool_step n mk s (Some (Taken w y)) s'"
proof
  assume "pool_step n mk s (Some (Taken w y)) s'"
  then have "w < length (tp_pcs s) \<and> tp_pcs s ! w = Wk_Take"
    by (auto simp: pool_step_def elim: routine_step.cases pushTask_step.cases)
  moreover have "worker_roles n (tp_pcs s)" by (rule poolr.inv_reachable [OF assms(1)])
  ultimately have "w < n" and "tp_pcs s ! w = Wk_Take" by (auto simp: worker_roles_def)
  with assms(2) show False by fastforce
qed

text \<open>Every task pushed, and so every task run, is one that was made.\<close>

lemma pushed_snoc: "pushed (es @ [e]) = pushed es @ pushed [e]"
  by (induction es rule: pushed.induct) auto

lemma pool_pushed_made:
  assumes "Lts.run (pool_step n mk) s0 es s" and "pool_made mk s0"
  shows "\<forall>x \<in> set (pushed es). mk x"
  using assms
proof (induction rule: run.induct)
  case (run_vis s es s' e s'')
  have made: "pool_made mk s'" by (rule poolm.inv_run [OF run_vis.hyps(1) run_vis.prems])
  have "\<forall>x \<in> set (pushed [e]). mk x"
  proof (cases e)
    case (Pushed x)
    with run_vis.hyps(2) obtain t where "t < length (tp_pcs s')" "tp_pcs s' ! t = Ps_Push x"
      by (auto simp: pool_step_def elim: routine_step.cases pushTask_step.cases)
    then have "mk x"
      using made pool_items_at [of mk "tp_pcs s'" t x] by (simp add: pool_made_def)
    with Pushed show ?thesis by simp
  qed simp_all
  with run_vis show ?case unfolding pushed_snoc [of es] set_append by blast
qed simp_all

lemma pool_taken_made:
  assumes "pool_init n m s0" and "Lts.run (pool_step n mk) s0 es s"
    and "pushed es = map snd (taken es) @ tp_queue s" and "(w, y) \<in> set (taken es)"
  shows "mk y"
proof -
  have "y \<in> set (pushed es)" using assms(3,4) by force
  then show ?thesis using pool_pushed_made [OF assms(2) pool_made_init [OF assms(1)]] by blast
qed

end
