(* ===== verification/Singleton.thy ===== *)
theory Singleton
  imports Pool_Correct
begin

text \<open>
  The lazy singletons: \<open>ThreadPool<T>::getThreadPool\<close> (0211 and 0215/tcp) and
  \<open>Singleton::GetInstance\<close> (xjh_multi_thread/test.cc), both double-checked locking on a static
  pointer. The heap is the list of objects constructed so far, a pointer is an index into
  it and the null pointer is \<open>None\<close>. \<open>mk\<close> is the constructor with the caller's argument.
  The steps interleave in program order: reordering by compiler or hardware is not modelled,
  and \<open>singleton_data_race\<close> states the unsynchronised read that C++ does not define.
\<close>

datatype 'n get_pc =
    Gt_Call | Gt_Check1 'n | Gt_Lock 'n | Gt_Check2 'n | Gt_New 'n | Gt_Store nat | Gt_Unlock | Gt_Return

record ('n, 'o) get_sys =
  sg_heap :: "'o list"
  sg_ptr :: "nat option"
  sg_lock :: mutex
  sg_pcs :: "'n get_pc list"

datatype 'o get_event = Constructed 'o | Returned tid "nat option"

definition get_init :: "nat \<Rightarrow> ('n, 'o) get_sys \<Rightarrow> bool" where
  "get_init k s \<longleftrightarrow>
     s = \<lparr>sg_heap = [], sg_ptr = None, sg_lock = None, sg_pcs = replicate k Gt_Call\<rparr>"

text \<open>One call, from \<open>Gt_Call\<close> to \<open>Gt_Return\<close>; a thread may call again.\<close>

inductive get_step ::
  "('n \<Rightarrow> 'o) \<Rightarrow> ('n, 'o) get_sys \<Rightarrow> 'o get_event option \<Rightarrow> ('n, 'o) get_sys \<Rightarrow> bool"
  for mk :: "'n \<Rightarrow> 'o" where
  call:
    "t < length (sg_pcs s) \<Longrightarrow> sg_pcs s ! t = Gt_Call \<Longrightarrow>
     get_step mk s None (s\<lparr>sg_pcs := (sg_pcs s)[t := Gt_Check1 n]\<rparr>)"
| check1_null:
    "t < length (sg_pcs s) \<Longrightarrow> sg_pcs s ! t = Gt_Check1 n \<Longrightarrow> sg_ptr s = None \<Longrightarrow>
     get_step mk s None (s\<lparr>sg_pcs := (sg_pcs s)[t := Gt_Lock n]\<rparr>)"
| check1_set:
    "t < length (sg_pcs s) \<Longrightarrow> sg_pcs s ! t = Gt_Check1 n \<Longrightarrow> sg_ptr s \<noteq> None \<Longrightarrow>
     get_step mk s None (s\<lparr>sg_pcs := (sg_pcs s)[t := Gt_Return]\<rparr>)"
| lock:
    "t < length (sg_pcs s) \<Longrightarrow> sg_pcs s ! t = Gt_Lock n \<Longrightarrow> lockGuard_ctor t (sg_lock s) = Some m \<Longrightarrow>
     get_step mk s None (s\<lparr>sg_lock := m, sg_pcs := (sg_pcs s)[t := Gt_Check2 n]\<rparr>)"
| check2_null:
    "t < length (sg_pcs s) \<Longrightarrow> sg_pcs s ! t = Gt_Check2 n \<Longrightarrow> sg_ptr s = None \<Longrightarrow>
     get_step mk s None (s\<lparr>sg_pcs := (sg_pcs s)[t := Gt_New n]\<rparr>)"
| check2_set:
    "t < length (sg_pcs s) \<Longrightarrow> sg_pcs s ! t = Gt_Check2 n \<Longrightarrow> sg_ptr s \<noteq> None \<Longrightarrow>
     get_step mk s None (s\<lparr>sg_pcs := (sg_pcs s)[t := Gt_Unlock]\<rparr>)"
| construct:
    "t < length (sg_pcs s) \<Longrightarrow> sg_pcs s ! t = Gt_New n \<Longrightarrow>
     get_step mk s (Some (Constructed (mk n)))
       (s\<lparr>sg_heap := sg_heap s @ [mk n], sg_pcs := (sg_pcs s)[t := Gt_Store (length (sg_heap s))]\<rparr>)"
| store:
    "t < length (sg_pcs s) \<Longrightarrow> sg_pcs s ! t = Gt_Store p \<Longrightarrow>
     get_step mk s None (s\<lparr>sg_ptr := Some p, sg_pcs := (sg_pcs s)[t := Gt_Unlock]\<rparr>)"
| unlock:
    "t < length (sg_pcs s) \<Longrightarrow> sg_pcs s ! t = Gt_Unlock \<Longrightarrow> lockGuard_dtor t (sg_lock s) = Some m \<Longrightarrow>
     get_step mk s None (s\<lparr>sg_lock := m, sg_pcs := (sg_pcs s)[t := Gt_Return]\<rparr>)"
| return:
    "t < length (sg_pcs s) \<Longrightarrow> sg_pcs s ! t = Gt_Return \<Longrightarrow>
     get_step mk s (Some (Returned t (sg_ptr s))) (s\<lparr>sg_pcs := (sg_pcs s)[t := Gt_Call]\<rparr>)"

text \<open>The two singletons.\<close>

definition getThreadPool_step ::
  "(int, thread_obj list) get_sys \<Rightarrow> thread_obj list get_event option \<Rightarrow>
   (int, thread_obj list) get_sys \<Rightarrow> bool" where
  "getThreadPool_step = get_step ThreadPool_threads"

definition GetInstance_step ::
  "(unit, unit) get_sys \<Rightarrow> unit get_event option \<Rightarrow> (unit, unit) get_sys \<Rightarrow> bool" where
  "GetInstance_step = get_step (\<lambda>_. ())"

definition get_exec ::
  "('n \<Rightarrow> 'o) \<Rightarrow> tid \<times> 'n \<Rightarrow> ('n, 'o) get_sys \<Rightarrow>
   ('o get_event option \<times> ('n, 'o) get_sys) option" where
  "get_exec mk = (\<lambda>(t, n) s.
     if length (sg_pcs s) \<le> t then None
     else
     (let go = (\<lambda>p s'. s'\<lparr>sg_pcs := (sg_pcs s)[t := p]\<rparr>)
      in case sg_pcs s ! t of
        Gt_Call \<Rightarrow> Some (None, go (Gt_Check1 n) s)
      | Gt_Check1 k \<Rightarrow> Some (None, go (if sg_ptr s = None then Gt_Lock k else Gt_Return) s)
      | Gt_Lock k \<Rightarrow>
          map_option (\<lambda>m. (None, go (Gt_Check2 k) (s\<lparr>sg_lock := m\<rparr>))) (lockGuard_ctor t (sg_lock s))
      | Gt_Check2 k \<Rightarrow> Some (None, go (if sg_ptr s = None then Gt_New k else Gt_Unlock) s)
      | Gt_New k \<Rightarrow>
          Some (Some (Constructed (mk k)),
                go (Gt_Store (length (sg_heap s))) (s\<lparr>sg_heap := sg_heap s @ [mk k]\<rparr>))
      | Gt_Store p \<Rightarrow> Some (None, go Gt_Unlock (s\<lparr>sg_ptr := Some p\<rparr>))
      | Gt_Unlock \<Rightarrow>
          map_option (\<lambda>m. (None, go Gt_Return (s\<lparr>sg_lock := m\<rparr>))) (lockGuard_dtor t (sg_lock s))
      | Gt_Return \<Rightarrow> Some (Some (Returned t (sg_ptr s)), go Gt_Call s)))"

lemma get_exec_sound: "get_exec mk c s = Some (l, s') \<Longrightarrow> get_step mk s l s'"
  using get_step.intros [of "fst c" s]
  by (auto simp: get_exec_def Let_def split: get_pc.splits if_splits prod.splits)

lemma get_schedule_run:
  "schedule (get_exec mk) s cs = Some (es, s') \<Longrightarrow> Lts.run (get_step mk) s es s'"
  by (erule schedule_run) (rule get_exec_sound)

section \<open>The abstract singleton\<close>

text \<open>One object at most is constructed, and every caller gets a pointer to it.\<close>

fun get_spec :: "'o option \<Rightarrow> 'o get_event \<Rightarrow> 'o option option" where
  "get_spec None (Constructed n) = Some (Some n)"
| "get_spec (Some n) (Constructed k) = None"
| "get_spec None (Returned t p) = None"
| "get_spec (Some n) (Returned t p) = (if p = Some 0 then Some (Some n) else None)"

fun constructed :: "'o get_event list \<Rightarrow> 'o list" where
  "constructed [] = []"
| "constructed (Constructed n # es) = n # constructed es"
| "constructed (Returned t p # es) = constructed es"

lemma get_spec_run:
  "abs_run get_spec a es = Some b \<Longrightarrow>
   (\<forall>t p. Returned t p \<in> set es \<longrightarrow> p = Some 0 \<and> b \<noteq> None) \<and>
   (case a of None \<Rightarrow> constructed es = (case b of None \<Rightarrow> [] | Some n \<Rightarrow> [n])
    | Some n \<Rightarrow> b = Some n \<and> constructed es = [])"
proof (induction es arbitrary: a)
  case Nil
  then show ?case by (auto split: option.splits)
next
  case (Cons e es)
  then obtain c where st: "get_spec a e = Some c" and r: "abs_run get_spec c es = Some b"
    by (auto split: option.splits)
  show ?case using Cons.IH [OF r] st
    by (cases "(a, e)" rule: get_spec.cases) (auto split: option.splits if_splits)
qed

section \<open>The invariant\<close>

fun get_in_cs :: "'n get_pc \<Rightarrow> bool" where
  "get_in_cs (Gt_Check2 n) = True"
| "get_in_cs (Gt_New n) = True"
| "get_in_cs (Gt_Store p) = True"
| "get_in_cs Gt_Unlock = True"
| "get_in_cs _ = False"

text \<open>What is known at each point: a null pointer and an empty heap at \<open>new\<close>, the one
  object at the store, a pointer to it after.\<close>

fun get_pc_ok :: "'o list \<Rightarrow> nat option \<Rightarrow> 'n get_pc \<Rightarrow> bool" where
  "get_pc_ok h p (Gt_New n) = (p = None)"
| "get_pc_ok h p (Gt_Store q) = (p = None \<and> length h = 1 \<and> q = 0)"
| "get_pc_ok h p Gt_Unlock = (p = Some 0)"
| "get_pc_ok h p Gt_Return = (p = Some 0)"
| "get_pc_ok h p _ = True"

fun is_store :: "'n get_pc \<Rightarrow> bool" where
  "is_store (Gt_Store p) = True"
| "is_store _ = False"

definition heap_ok :: "('n, 'o) get_sys \<Rightarrow> bool" where
  "heap_ok s \<longleftrightarrow>
     (sg_heap s = [] \<and> sg_ptr s = None) \<or> (length (sg_heap s) = 1 \<and> sg_ptr s = Some 0) \<or>
     (length (sg_heap s) = 1 \<and> sg_ptr s = None \<and>
      (\<exists>t < length (sg_pcs s). is_store (sg_pcs s ! t)))"

definition get_inv :: "('n, 'o) get_sys \<Rightarrow> bool" where
  "get_inv s \<longleftrightarrow> mutex_inv get_in_cs (sg_lock s) (sg_pcs s) \<and> heap_ok s \<and>
     (\<forall>t < length (sg_pcs s). get_pc_ok (sg_heap s) (sg_ptr s) (sg_pcs s ! t))"

lemma store_update:
  "t < length ps \<Longrightarrow> \<not> is_store (ps ! t) \<Longrightarrow> \<not> is_store p \<Longrightarrow>
   (\<exists>u < length ps. is_store (ps[t := p] ! u)) = (\<exists>u < length ps. is_store (ps ! u))"
  by (metis nth_list_update_eq nth_list_update_neq)

lemma get_holder:
  "get_inv s \<Longrightarrow> t < length (sg_pcs s) \<Longrightarrow> get_in_cs (sg_pcs s ! t) \<Longrightarrow> sg_lock s = Some t"
  by (auto simp: get_inv_def dest: mutex_inv_owner)

lemma get_only_holder:
  assumes "get_inv s" and "t < length (sg_pcs s)" and "get_in_cs (sg_pcs s ! t)"
    and "u < length (sg_pcs s)" and "get_in_cs (sg_pcs s ! u)"
  shows "u = t"
  using get_holder [OF assms(1,2,3)] get_holder [OF assms(1,4,5)] by simp

lemma store_in_cs: "is_store p \<Longrightarrow> get_in_cs p"
  by (cases p) auto

text \<open>The steps that leave the heap and the pointer alone.\<close>

lemma get_inv_move:
  assumes inv: "get_inv s" and t: "t < length (sg_pcs s)"
    and mi: "mutex_inv get_in_cs m ((sg_pcs s)[t := p])"
    and ns: "\<not> is_store (sg_pcs s ! t)" "\<not> is_store p"
    and ok: "get_pc_ok (sg_heap s) (sg_ptr s) p"
  shows "get_inv (s\<lparr>sg_lock := m, sg_pcs := (sg_pcs s)[t := p]\<rparr>)"
  using inv mi ok t store_update [OF t ns]
  by (auto simp: get_inv_def heap_ok_def nth_list_update)

lemma get_inv_move':
  assumes inv: "get_inv s" and t: "t < length (sg_pcs s)"
    and cs: "get_in_cs (sg_pcs s ! t) = get_in_cs p"
    and ns: "\<not> is_store (sg_pcs s ! t)" "\<not> is_store p"
    and ok: "get_pc_ok (sg_heap s) (sg_ptr s) p"
  shows "get_inv (s\<lparr>sg_pcs := (sg_pcs s)[t := p]\<rparr>)"
proof -
  have "mutex_inv get_in_cs (sg_lock s) ((sg_pcs s)[t := p])"
    using inv t cs by (simp add: get_inv_def mutex_inv_stay)
  from get_inv_move [OF inv t this ns ok] show ?thesis by simp
qed

lemma get_pc_ok_at:
  "get_inv s \<Longrightarrow> t < length (sg_pcs s) \<Longrightarrow> sg_pcs s ! t = p \<Longrightarrow> get_pc_ok (sg_heap s) (sg_ptr s) p"
  by (auto simp: get_inv_def)

lemma ptr_cases: "get_inv s \<Longrightarrow> sg_ptr s = None \<or> sg_ptr s = Some 0"
  by (auto simp: get_inv_def heap_ok_def)

text \<open>At \<open>new\<close> the heap is empty: the only thread that could have filled it would be
  storing, but the lock is held here.\<close>

lemma new_heap_empty:
  assumes inv: "get_inv s" and t: "t < length (sg_pcs s)" and pc: "sg_pcs s ! t = Gt_New n"
  shows "sg_heap s = []"
proof (rule ccontr)
  assume "sg_heap s \<noteq> []"
  moreover have "sg_ptr s = None" using get_pc_ok_at [OF inv t pc] by simp
  ultimately obtain u where u: "u < length (sg_pcs s)" "is_store (sg_pcs s ! u)"
    using inv by (auto simp: get_inv_def heap_ok_def)
  have "u = t"
    using get_only_holder [OF inv t _ u(1) store_in_cs [OF u(2)]] pc by simp
  with u(2) pc show False by simp
qed

text \<open>While one thread holds the lock, what the others know does not depend on the heap, nor
  on the pointer being set.\<close>

lemma outside_pc_ok:
  assumes inv: "get_inv s" and t: "t < length (sg_pcs s)" and cs: "get_in_cs (sg_pcs s ! t)"
    and u: "u < length (sg_pcs s)" "u \<noteq> t" and p: "p = sg_ptr s \<or> p = Some 0"
  shows "get_pc_ok h p (sg_pcs s ! u)"
proof -
  have "\<not> get_in_cs (sg_pcs s ! u)" using get_only_holder [OF inv t cs u(1)] u(2) by blast
  moreover have "get_pc_ok (sg_heap s) (sg_ptr s) (sg_pcs s ! u)"
    using inv u(1) by (simp add: get_inv_def)
  ultimately show ?thesis using p by (cases "sg_pcs s ! u") auto
qed

lemma get_step_inv: "get_step mk s l s' \<Longrightarrow> get_inv s \<Longrightarrow> get_inv s'"
proof (induction rule: get_step.induct)
  case (construct t s n)
  have h: "sg_heap s = []" by (rule new_heap_empty [OF construct.prems construct.hyps])
  have p: "sg_ptr s = None" using get_pc_ok_at [OF construct.prems construct.hyps] by simp
  show ?case
    using construct h p outside_pc_ok [OF construct.prems construct.hyps(1)]
    by (auto simp: get_inv_def heap_ok_def nth_list_update intro!: mutex_inv_stay)
next
  case (store t s q)
  have ok: "length (sg_heap s) = 1" "q = 0"
    using get_pc_ok_at [OF store.prems store.hyps] by simp_all
  show ?case
    using store ok outside_pc_ok [OF store.prems store.hyps(1)]
    by (auto simp: get_inv_def heap_ok_def nth_list_update intro!: mutex_inv_stay)
next
  case (lock t s n m)
  then have "mutex_inv get_in_cs m ((sg_pcs s)[t := Gt_Check2 n])"
    by (auto simp: get_inv_def mutex_inv_acquire)
  with lock show ?case by (intro get_inv_move) simp_all
next
  case (unlock t s m)
  then have "mutex_inv get_in_cs m ((sg_pcs s)[t := Gt_Return])"
    by (auto simp: get_inv_def mutex_inv_release)
  with unlock get_pc_ok_at [OF unlock.prems unlock.hyps(1,2)] show ?case
    by (intro get_inv_move) simp_all
qed (use ptr_cases in \<open>fastforce intro!: get_inv_move'\<close>)+

lemma get_init_inv: "get_init k s \<Longrightarrow> get_inv s"
  by (auto simp: get_init_def get_inv_def heap_ok_def mutex_inv_def)

definition get_abs :: "('n, 'o) get_sys \<Rightarrow> 'o option" where
  "get_abs s = (case sg_heap s of [] \<Rightarrow> None | x # xs \<Rightarrow> Some x)"

lemma get_tau_abs: "get_step mk s None s' \<Longrightarrow> get_abs s' = get_abs s"
  by (auto simp: get_abs_def elim!: get_step.cases)

lemma get_vis_abs:
  assumes inv: "get_inv s" and step: "get_step mk s (Some e) s'"
  shows "get_spec (get_abs s) e = Some (get_abs s')"
  using step
proof cases
  case (construct t n)
  then have "sg_heap s = []" using new_heap_empty [OF inv] by blast
  with construct show ?thesis by (simp add: get_abs_def)
next
  case (return t)
  then have "sg_ptr s = Some 0" using get_pc_ok_at [OF inv] by fastforce
  moreover from this obtain x where "sg_heap s = [x]"
    using inv by (auto simp: get_inv_def heap_ok_def length_Suc_conv)
  ultimately show ?thesis using return by (simp add: get_abs_def)
qed

interpretation single: trace_refinement "get_init k" "get_step mk" get_inv get_abs get_spec
  for k :: nat and mk :: "'n \<Rightarrow> 'o"
  by unfold_locales (auto intro: get_init_inv get_step_inv get_tau_abs get_vis_abs)

section \<open>Properties\<close>

lemma singleton_run:
  assumes "get_init k s0" and "Lts.run (get_step mk) s0 es s"
  shows "sg_heap s = constructed es \<and> length (constructed es) \<le> 1 \<and>
     (\<forall>t p. Returned t p \<in> set es \<longrightarrow> p = Some 0 \<and> length (constructed es) = 1)"
proof -
  have "get_abs s0 = None" using assms(1) by (simp add: get_init_def get_abs_def)
  with single.trace_refines [OF assms] have "abs_run get_spec None es = Some (get_abs s)" by simp
  from get_spec_run [OF this] have c: "constructed es = (case get_abs s of None \<Rightarrow> [] | Some n \<Rightarrow> [n])"
    and r: "\<forall>t p. Returned t p \<in> set es \<longrightarrow> p = Some 0 \<and> get_abs s \<noteq> None" by simp_all
  have "get_inv s" using single.inv_run [OF assms(2) get_init_inv [OF assms(1)]] .
  then have "length (sg_heap s) \<le> 1" by (auto simp: get_inv_def heap_ok_def)
  then have "sg_heap s = (case get_abs s of None \<Rightarrow> [] | Some n \<Rightarrow> [n])"
    by (cases "sg_heap s") (auto simp: get_abs_def)
  with c r show ?thesis by (auto split: option.splits)
qed

text \<open>Two threads ask for pools of different sizes at the same time, the second one waits for
  the lock and finds the pool of the first.\<close>

definition get_demo :: "(tid \<times> int) list" where
  "get_demo = [(0, 3), (1, 8), (0, 3), (1, 8), (0, 3), (0, 3), (0, 3), (0, 3), (0, 3), (1, 8), (1, 8),
               (1, 8), (1, 8), (0, 3)]"

lemma get_demo_run:
  "\<exists>s0 s. get_init 2 s0 \<and> Lts.run getThreadPool_step s0
     [Constructed (ThreadPool_threads 3), Returned 1 (Some 0), Returned 0 (Some 0)] s"
proof -
  define s0 :: "(int, thread_obj list) get_sys" where
    "s0 = \<lparr>sg_heap = [], sg_ptr = None, sg_lock = None, sg_pcs = [Gt_Call, Gt_Call]\<rparr>"
  have "\<exists>s. schedule (get_exec ThreadPool_threads) s0 get_demo =
     Some ([Constructed (ThreadPool_threads 3), Returned 1 (Some 0), Returned 0 (Some 0)], s)"
    by (simp add: s0_def get_demo_def get_exec_def Let_def lockGuard_ctor_def lockGuard_dtor_def
        Mutex_lock_def Mutex_unlock_def pthread_mutex_lock_def pthread_mutex_unlock_def
        del: upto_rec_numeral)
  moreover have "get_init 2 s0" by (simp add: get_init_def s0_def numeral_2_eq_2)
  ultimately show ?thesis
    unfolding getThreadPool_step_def using get_schedule_run by blast
qed

text \<open>
  C15. However many threads call \<open>getThreadPool\<close>, with whatever sizes and however often, at
  most one pool is constructed, and every call that returns has returned a non-null pointer
  to that pool.
\<close>

theorem getThreadPool_one_pool:
  assumes "get_init k s0" and "Lts.run getThreadPool_step s0 es s"
  shows "sg_heap s = constructed es \<and> length (constructed es) \<le> 1 \<and>
     (\<forall>t p. Returned t p \<in> set es \<longrightarrow> p = Some 0 \<and> length (sg_heap s) = 1)"
  using singleton_run [OF assms(1)] assms(2) by (auto simp: getThreadPool_step_def)

theorem getThreadPool_one_pool_witness:
  "\<exists>s :: (int, thread_obj list) get_sys. sg_heap s = [ThreadPool_threads 3]"
proof -
  obtain s0 and s :: "(int, thread_obj list) get_sys" where i: "get_init 2 s0"
    and r: "Lts.run getThreadPool_step s0
      [Constructed (ThreadPool_threads 3), Returned 1 (Some 0), Returned 0 (Some 0)] s"
    using get_demo_run by blast
  from getThreadPool_one_pool [OF i r] have "sg_heap s = [ThreadPool_threads 3]"
    by (simp del: upto_rec_numeral)
  then show ?thesis by blast
qed

text \<open>The \<open>main\<close> of xjh_multi_thread/test.cc: one thread, two calls, two printed pointers.\<close>

lemma instance_demo_run:
  "\<exists>s0 s. get_init 1 s0 \<and>
     Lts.run GetInstance_step s0 [Constructed (), Returned 0 (Some 0), Returned 0 (Some 0)] s"
proof -
  define s0 :: "(unit, unit) get_sys" where
    "s0 = \<lparr>sg_heap = [], sg_ptr = None, sg_lock = None, sg_pcs = [Gt_Call]\<rparr>"
  let ?cs = "[(0, ()), (0, ()), (0, ()), (0, ()), (0, ()), (0, ()), (0, ()), (0, ()), (0, ()), (0, ()), (0, ())]"
  have "\<exists>s. schedule (get_exec (\<lambda>_. ())) s0 ?cs
     = Some ([Constructed (), Returned 0 (Some 0), Returned 0 (Some 0)], s)"
    by (simp add: s0_def get_exec_def Let_def lockGuard_ctor_def lockGuard_dtor_def
        Mutex_lock_def Mutex_unlock_def pthread_mutex_lock_def pthread_mutex_unlock_def)
  moreover have "get_init 1 s0" by (simp add: get_init_def s0_def)
  ultimately show ?thesis
    unfolding GetInstance_step_def using get_schedule_run by blast
qed

text \<open>
  All calls of \<open>GetInstance\<close>, by one thread or many, return the same non-null pointer,
  and the constructor runs once at most.
\<close>

theorem GetInstance_same_pointer:
  assumes "get_init k s0" and "Lts.run GetInstance_step s0 es s"
    and "Returned t p \<in> set es" and "Returned u q \<in> set es"
  shows "p = q \<and> p \<noteq> None \<and> length (constructed es) = 1"
proof -
  have "\<forall>t p. Returned t p \<in> set es \<longrightarrow> p = Some 0 \<and> length (constructed es) = 1"
    using singleton_run [OF assms(1) assms(2) [unfolded GetInstance_step_def]] by blast
  with assms(3,4) show ?thesis by blast
qed

theorem GetInstance_same_pointer_witness:
  "\<exists>es. Returned 0 (Some 0) \<in> set es \<and> (Some (0::nat) \<noteq> None \<and> length (constructed es :: unit list) = 1)"
proof -
  obtain s0 s where i: "get_init 1 s0"
    and r: "Lts.run GetInstance_step s0 [Constructed (), Returned 0 (Some 0), Returned 0 (Some 0)] s"
    using instance_demo_run by blast
  from GetInstance_same_pointer [OF i r, of 0 "Some 0" 0 "Some 0"] show ?thesis
    by (intro exI [of _ "[Constructed (), Returned 0 (Some 0), Returned 0 (Some 0)]"]) simp
qed

text \<open>
  The first check is unsynchronised: a reachable state has one thread about to store the
  pointer under the lock and another about to read it without the lock.
\<close>

theorem singleton_data_race:
  "\<exists>s. reachable (get_init 2) getThreadPool_step s \<and> sg_lock s = Some 0 \<and>
     sg_pcs s ! 0 = Gt_Store 0 \<and> sg_pcs s ! 1 = Gt_Check1 8"
proof -
  define s0 :: "(int, thread_obj list) get_sys" where
    "s0 = \<lparr>sg_heap = [], sg_ptr = None, sg_lock = None, sg_pcs = [Gt_Call, Gt_Call]\<rparr>"
  have "\<exists>s. schedule (get_exec ThreadPool_threads) s0 [(0, 3), (1, 8), (0, 3), (0, 3), (0, 3), (0, 3)] =
     Some ([Constructed (ThreadPool_threads 3)], s) \<and> sg_lock s = Some 0 \<and>
     sg_pcs s ! 0 = Gt_Store 0 \<and> sg_pcs s ! 1 = Gt_Check1 8"
    by (simp add: s0_def get_exec_def Let_def lockGuard_ctor_def lockGuard_dtor_def
        Mutex_lock_def Mutex_unlock_def pthread_mutex_lock_def pthread_mutex_unlock_def
        del: upto_rec_numeral)
  moreover have "get_init 2 s0" by (simp add: get_init_def s0_def numeral_2_eq_2)
  ultimately show ?thesis
    unfolding getThreadPool_step_def
    using get_schedule_run reachable_run [where I = "get_init 2" and ?s0.0 = s0] by blast
qed

end
