(* ===== verification/Net.thy ===== *)
theory Net
  imports Logging "HOL-Library.Word"
begin

text \<open>
  What the network programs share: socket addresses and the conversions between host and
  network byte order on a little-endian host, dotted addresses, the port argument, and
  \<open>std::getline\<close> on standard input. \<open>inet_addr\<close>, and the results of the system calls, are
  arguments of the models that use them.
\<close>

unbundle bit_operations_syntax

section \<open>Addresses\<close>

record sockaddr_in =
  sin_family :: nat
  sin_port :: "16 word"
  sin_addr :: "32 word"

definition AF_INET :: nat where "AF_INET = 2"

definition INADDR_ANY :: "32 word" where "INADDR_ANY = 0"

definition htons :: "16 word \<Rightarrow> 16 word" where
  "htons w = push_bit 8 w OR drop_bit 8 w"

definition ntohs :: "16 word \<Rightarrow> 16 word" where
  "ntohs w = push_bit 8 w OR drop_bit 8 w"

lemma ntohs_htons [simp]: "ntohs (htons w) = w"
  by (rule bit_word_eqI) (auto simp: ntohs_def htons_def bit_simps)

lemma htons_ntohs [simp]: "htons (ntohs w) = w"
  by (rule bit_word_eqI) (auto simp: ntohs_def htons_def bit_simps)

lemma ntohs_inj [simp]: "ntohs v = ntohs w \<longleftrightarrow> v = w"
  by (metis htons_ntohs)

text \<open>Byte \<open>i\<close> of an address as it lies in memory.\<close>

definition addr_byte :: "nat \<Rightarrow> 32 word \<Rightarrow> nat" where
  "addr_byte i a = unat a div 256 ^ i mod 256"

definition inet_ntoa :: "32 word \<Rightarrow> string" where
  "inet_ntoa a =
     show_nat (addr_byte 0 a) @ ''.'' @ show_nat (addr_byte 1 a) @ ''.'' @
     show_nat (addr_byte 2 a) @ ''.'' @ show_nat (addr_byte 3 a)"

lemma addr_byte_less [simp]: "addr_byte i a < 256"
  by (simp add: addr_byte_def)

lemma addr_bytes_inj:
  assumes "addr_byte 0 a = addr_byte 0 b" "addr_byte 1 a = addr_byte 1 b"
    and "addr_byte 2 a = addr_byte 2 b" "addr_byte 3 a = addr_byte 3 b"
  shows "a = b"
proof -
  have b: "addr_byte 0 x = unat x mod 256" "addr_byte 1 x = unat x div 256 mod 256"
    "addr_byte 2 x = unat x div 65536 mod 256" "addr_byte 3 x = unat x div 16777216 mod 256" for x
    by (simp_all add: addr_byte_def)
  have "unat a < 4294967296" "unat b < 4294967296"
    using unsigned_less [of a] unsigned_less [of b] by simp_all
  from base256_split [OF this(1)] base256_split [OF this(2)] have "unat a = unat b"
    using assms unfolding b by metis
  then show ?thesis by (simp add: word_eq_iff_unsigned [where 'a = nat])
qed

lemma dot_notin_show_nat [simp]: "CHR ''.'' \<notin> set (show_nat n)"
  using show_nat_digits [of "CHR ''.''" n] by (auto simp: is_digit_def)

lemma minus_notin_show_nat [simp]: "CHR ''-'' \<notin> set (show_nat n)"
  using show_nat_digits [of "CHR ''-''" n] by (auto simp: is_digit_def)

lemma inet_ntoa_inj [simp]: "inet_ntoa a = inet_ntoa b \<longleftrightarrow> a = b"
proof
  assume "inet_ntoa a = inet_ntoa b"
  then have e: "show_nat (addr_byte 0 a) @ CHR ''.'' # show_nat (addr_byte 1 a) @ CHR ''.'' #
      show_nat (addr_byte 2 a) @ CHR ''.'' # show_nat (addr_byte 3 a)
    = show_nat (addr_byte 0 b) @ CHR ''.'' # show_nat (addr_byte 1 b) @ CHR ''.'' #
      show_nat (addr_byte 2 b) @ CHR ''.'' # show_nat (addr_byte 3 b)"
    by (simp add: inet_ntoa_def)
  note s1 = sep_split [OF dot_notin_show_nat dot_notin_show_nat e]
  note s2 = sep_split [OF dot_notin_show_nat dot_notin_show_nat conjunct2 [OF s1]]
  note s3 = sep_split [OF dot_notin_show_nat dot_notin_show_nat conjunct2 [OF s2]]
  from s1 s2 s3 show "a = b" using addr_bytes_inj [of a b] by simp
qed simp

lemma nul_notin_inet_ntoa [simp]: "nul \<notin> set (inet_ntoa a)"
proof -
  have "nul \<notin> set ''.''" by (simp add: nul_def)
  then show ?thesis by (simp only: inet_ntoa_def set_append Un_iff nul_notin_show_nat simp_thms)
qed

lemma minus_notin_inet_ntoa [simp]: "CHR ''-'' \<notin> set (inet_ntoa a)"
  by (simp add: inet_ntoa_def)

lemma length_byte: "n < 256 \<Longrightarrow> length (show_nat n) \<le> 3"
  using length_show_nat_le [of n 2] by simp

lemma length_inet_ntoa: "length (inet_ntoa a) \<le> 15"
  using length_byte [OF addr_byte_less [of 0 a]] length_byte [OF addr_byte_less [of 1 a]]
    length_byte [OF addr_byte_less [of 2 a]] length_byte [OF addr_byte_less [of 3 a]]
  by (simp add: inet_ntoa_def)

lemma length_port: "length (show_nat (unat (p :: 16 word))) \<le> 5"
proof -
  have "unat p < 10 ^ Suc 4" using unsigned_less [of p, where 'a = nat] by simp
  then show ?thesis using length_show_nat_le [of "unat p" 4] by simp
qed

section \<open>The port argument\<close>

text \<open>\<open>uint16_t port = atoi(argv[1])\<close>.\<close>

definition port_of_arg :: "string \<Rightarrow> 16 word" where
  "port_of_arg arg = word_of_int (atoi arg)"

lemma unat_port_of_arg: "unat (port_of_arg (show_nat n)) = n mod 65536"
  by (simp add: port_of_arg_def unat_of_nat)

section \<open>Standard input\<close>

text \<open>
  Standard input is the lines still to come, the text after the last newline and whether
  the end has been reached. \<open>getline\<close> stores the next line; at the end it stores the
  rest once, and after that, with the stream in the failed state, leaves the string as it is.
\<close>

record cin =
  cin_lines :: "string list"
  cin_rest :: string
  cin_eof :: bool

definition getline :: "string \<Rightarrow> cin \<Rightarrow> string \<times> cin" where
  "getline m c =
     (case cin_lines c of
        l # ls \<Rightarrow> (l, c\<lparr>cin_lines := ls\<rparr>)
      | [] \<Rightarrow> if cin_eof c then (m, c) else (cin_rest c, c\<lparr>cin_eof := True\<rparr>))"

lemma getline_line: "cin_lines c = l # ls \<Longrightarrow> getline m c = (l, c\<lparr>cin_lines := ls\<rparr>)"
  by (simp add: getline_def)

lemma getline_eof: "cin_lines c = [] \<Longrightarrow> cin_eof c \<Longrightarrow> getline m c = (m, c)"
  by (simp add: getline_def)

section \<open>Outcome of a program\<close>

text \<open>\<open>Exit n\<close> is \<open>exit(n)\<close>; otherwise the program goes on with a value.\<close>

datatype 'a outcome = Exit nat | Go 'a

end
