(* ===== verification/Udp_Chat.thy ===== *)
theory Udp_Chat
  imports Net
begin

text \<open>
  The UDP chat of 0215/udp: a server that remembers every peer it heard from and sends each
  datagram, prefixed by the sender's address, to all of them, and a client with a sending and
  a receiving thread. The iteration order of the \<open>unordered_map\<close> is the order of the list
  here; no property depends on it. The stack array \<open>key\<close> is not initialised by the code:
  its old content is an argument of a round.
\<close>

section \<open>The server\<close>

record udp_server =
  us_ip :: string
  us_port :: "16 word"
  us_sock :: int
  us_users :: "(string \<times> sockaddr_in) list"

definition SIZE :: nat where "SIZE = 1024"

definition UdpServer_ctor :: "16 word \<Rightarrow> string \<Rightarrow> udp_server" where
  "UdpServer_ctor port ip = \<lparr>us_ip = ip, us_port = port, us_sock = -1, us_users = []\<rparr>"

text \<open>The destructor closes the socket, when there is one.\<close>

definition UdpServer_dtor :: "udp_server \<Rightarrow> int list" where
  "UdpServer_dtor srv = (if 0 \<le> us_sock srv then [us_sock srv] else [])"

text \<open>\<open>sock\<close> is what \<open>socket\<close> returns, \<open>bind\<close> what binding a socket to an address returns.\<close>

definition UdpServer_initServer ::
  "(string \<Rightarrow> 32 word) \<Rightarrow> int \<Rightarrow> (int \<Rightarrow> sockaddr_in \<Rightarrow> int) \<Rightarrow> udp_server \<Rightarrow> udp_server outcome" where
  "UdpServer_initServer inet_addr sock bind srv =
     (let srv' = srv\<lparr>us_sock := sock\<rparr> in
      if sock < 0 then Exit 2
      else
        let local = \<lparr>sin_family = AF_INET, sin_port = htons (us_port srv'),
                     sin_addr = (if us_ip srv' = [] then INADDR_ANY else inet_addr (us_ip srv'))\<rparr> in
        if bind sock local < 0 then Exit 2 else Go srv')"

text \<open>\<open>snprintf(key, sizeof key, "%s-%u", cli_ip.c_str(), cli_port)\<close>.\<close>

definition client_key :: "sockaddr_in \<Rightarrow> string" where
  "client_key peer =
     c_str (snprintf_buf 64
       (c_str (inet_ntoa (sin_addr peer)) @ ''-'' @ show_nat (unat (ntohs (sin_port peer)))))"

definition add_user :: "sockaddr_in \<Rightarrow> udp_server \<Rightarrow> udp_server" where
  "add_user peer srv =
     (if map_of (us_users srv) (client_key peer) = None
      then srv\<lparr>us_users := us_users srv @ [(client_key peer, peer)]\<rparr> else srv)"

definition push_message :: "string \<Rightarrow> byte list \<Rightarrow> byte list" where
  "push_message key buffer = key @ '' # '' @ c_str buffer"

text \<open>
  One round of \<open>start\<close>. \<open>r\<close> is what \<open>recvfrom\<close> gives: the peer and the datagram, cut off
  at 1023 bytes, or \<open>None\<close> for an error. The buffer was zeroed, so the bytes after the
  datagram are zero. \<open>key0\<close> is the array \<open>key\<close> before the round. The result is the
  datagrams sent and the server, or \<open>None\<close> when \<open>key\<close> is read without a terminator.
\<close>

definition udp_round ::
  "byte list \<Rightarrow> (sockaddr_in \<times> byte list) option \<Rightarrow> udp_server \<Rightarrow>
   ((sockaddr_in \<times> byte list) list \<times> udp_server) option" where
  "udp_round key0 r srv =
     (let buffer = (case r of None \<Rightarrow> [] | Some (peer, d) \<Rightarrow> take (SIZE - 1) d);
          (key, srv') =
            (case r of
               Some (peer, d) \<Rightarrow>
                 if 0 < length buffer then (client_key peer @ [nul], add_user peer srv) else (key0, srv)
             | None \<Rightarrow> (key0, srv))
      in if us_users srv' = [] then Some ([], srv')
         else if nul \<in> set key
         then Some (map (\<lambda>(k, peer). (peer, push_message (c_str key) buffer)) (us_users srv'), srv')
         else None)"

fun udp_rounds ::
  "(byte list \<times> (sockaddr_in \<times> byte list) option) list \<Rightarrow> udp_server \<Rightarrow>
   ((sockaddr_in \<times> byte list) list list \<times> udp_server) option" where
  "udp_rounds [] srv = Some ([], srv)"
| "udp_rounds ((key0, r) # rs) srv =
     (case udp_round key0 r srv of
        None \<Rightarrow> None
      | Some (out, srv') \<Rightarrow>
          (case udp_rounds rs srv' of
             None \<Rightarrow> None
           | Some (outs, srv'') \<Rightarrow> Some (out # outs, srv'')))"

text \<open>\<open>main\<close> of the server: the argument check, the server, its initialisation.\<close>

definition udp_server_main ::
  "(string \<Rightarrow> 32 word) \<Rightarrow> int \<Rightarrow> (int \<Rightarrow> sockaddr_in \<Rightarrow> int) \<Rightarrow> string list \<Rightarrow> udp_server outcome" where
  "udp_server_main inet_addr sock bind argv =
     (if length argv \<noteq> 2 then Exit 1
      else UdpServer_initServer inet_addr sock bind (UdpServer_ctor (port_of_arg (argv ! 1)) []))"

section \<open>The client\<close>

text \<open>
  \<open>udpSend\<close>: the datagrams sent in at most \<open>fuel\<close> iterations, and whether the loop has
  ended. \<open>m\<close> is the string the previous iteration left behind.
\<close>

fun udpSend :: "nat \<Rightarrow> string \<Rightarrow> cin \<Rightarrow> byte list list \<times> bool" where
  "udpSend 0 m c = ([], False)"
| "udpSend (Suc fuel) m c =
     (let (m', c') = getline m c in
      if m' = ''quit'' then ([], True)
      else (let (out, ended) = udpSend fuel m' c' in (m' # out, ended)))"

definition udp_server_addr :: "(string \<Rightarrow> 32 word) \<Rightarrow> string \<Rightarrow> 16 word \<Rightarrow> sockaddr_in" where
  "udp_server_addr inet_addr ip port =
     \<lparr>sin_family = AF_INET, sin_port = htons port, sin_addr = inet_addr ip\<rparr>"

definition READ_SEND_MAX_SIZE :: nat where "READ_SEND_MAX_SIZE = 1024"

text \<open>
  One round of \<open>udpRecv\<close>: the line printed, if any; \<open>None\<close> when \<open>buffer[s] = 0\<close> is outside
  the buffer.
\<close>

definition udpRecv_round :: "byte list option \<Rightarrow> string option option" where
  "udpRecv_round r =
     (case r of
        None \<Rightarrow> Some None
      | Some d \<Rightarrow>
          (let s = min READ_SEND_MAX_SIZE (length d) in
           if 0 < s
           then (if s < READ_SEND_MAX_SIZE then Some (Some (c_str (take s d) @ [CHR 0x0A])) else None)
           else Some None))"

section \<open>Keys\<close>

lemma client_key_exact:
  "client_key peer = inet_ntoa (sin_addr peer) @ ''-'' @ show_nat (unat (ntohs (sin_port peer)))"
proof -
  let ?t = "inet_ntoa (sin_addr peer) @ ''-'' @ show_nat (unat (ntohs (sin_port peer)))"
  have "length ?t < 64"
    using length_inet_ntoa [of "sin_addr peer"] length_port [of "ntohs (sin_port peer)"] by simp
  then have "snprintf_buf 64 ?t = ?t" by (rule snprintf_buf_fits)
  moreover have "nul \<notin> set ''-''" by (simp add: nul_def)
  then have "nul \<notin> set ?t"
    by (simp only: set_append Un_iff nul_notin_show_nat nul_notin_inet_ntoa simp_thms)
  ultimately show ?thesis unfolding client_key_def by simp
qed

lemma client_key_nul [simp]: "nul \<notin> set (client_key peer)"
  by (simp add: client_key_def)

lemma client_key_inj:
  "client_key p = client_key q \<longleftrightarrow> sin_addr p = sin_addr q \<and> sin_port p = sin_port q"
proof
  assume "client_key p = client_key q"
  then have "inet_ntoa (sin_addr p) @ CHR ''-'' # show_nat (unat (ntohs (sin_port p)))
    = inet_ntoa (sin_addr q) @ CHR ''-'' # show_nat (unat (ntohs (sin_port q)))"
    by (simp add: client_key_exact)
  from sep_split [OF minus_notin_inet_ntoa minus_notin_inet_ntoa this]
  have "inet_ntoa (sin_addr p) = inet_ntoa (sin_addr q)"
    and n: "unat (ntohs (sin_port p)) = unat (ntohs (sin_port q))" by simp_all
  moreover from n have "ntohs (sin_port p) = ntohs (sin_port q)" by (simp add: word_unat_eq_iff)
  ultimately show "sin_addr p = sin_addr q \<and> sin_port p = sin_port q" by simp
qed (simp add: client_key_exact)

lemma length_client_key: "length (client_key p) \<le> 21"
  using length_inet_ntoa [of "sin_addr p"] length_port [of "ntohs (sin_port p)"]
  by (simp add: client_key_exact)

section \<open>Users and broadcasts\<close>

text \<open>The table holds exactly the peers in \<open>P\<close>, each once and under its own key.\<close>

definition users_ok :: "sockaddr_in set \<Rightarrow> udp_server \<Rightarrow> bool" where
  "users_ok P srv \<longleftrightarrow>
     distinct (map snd (us_users srv)) \<and> set (map snd (us_users srv)) = P \<and>
     (\<forall>(k, p) \<in> set (us_users srv). k = client_key p \<and> sin_family p = AF_INET)"

lemma sockaddr_eq:
  "sin_family p = sin_family q \<Longrightarrow> client_key p = client_key q \<Longrightarrow> p = (q :: sockaddr_in)"
  by (auto simp: client_key_inj)

lemma users_ok_mem:
  assumes ok: "users_ok P srv" and fam: "sin_family peer = AF_INET"
  shows "map_of (us_users srv) (client_key peer) = None \<longleftrightarrow> peer \<notin> P"
proof -
  have "map_of (us_users srv) (client_key peer) = None \<longleftrightarrow>
      client_key peer \<notin> fst ` set (us_users srv)"
    by (simp add: map_of_eq_None_iff)
  also have "\<dots> \<longleftrightarrow> peer \<notin> snd ` set (us_users srv)"
  proof
    assume n: "client_key peer \<notin> fst ` set (us_users srv)"
    show "peer \<notin> snd ` set (us_users srv)"
    proof
      assume "peer \<in> snd ` set (us_users srv)"
      then obtain k where k: "(k, peer) \<in> set (us_users srv)" by auto
      with ok have "k = client_key peer" by (auto simp: users_ok_def)
      with k have "client_key peer \<in> fst ` set (us_users srv)" by (metis fst_conv imageI)
      with n show False ..
    qed
  next
    assume n: "peer \<notin> snd ` set (us_users srv)"
    show "client_key peer \<notin> fst ` set (us_users srv)"
    proof
      assume "client_key peer \<in> fst ` set (us_users srv)"
      then obtain q where q: "(client_key peer, q) \<in> set (us_users srv)" by auto
      with ok have "client_key peer = client_key q" "sin_family q = AF_INET"
        by (auto simp: users_ok_def)
      with fam have "peer = q" using sockaddr_eq [of peer q] by simp
      with q have "peer \<in> snd ` set (us_users srv)" by (metis imageI snd_conv)
      with n show False ..
    qed
  qed
  finally show ?thesis using ok by (simp add: users_ok_def)
qed

lemma add_user_ok:
  assumes ok: "users_ok P srv" and fam: "sin_family peer = AF_INET"
  shows "users_ok (insert peer P) (add_user peer srv)"
proof (cases "peer \<in> P")
  case True
  then have "add_user peer srv = srv" using users_ok_mem [OF assms] by (simp add: add_user_def)
  with True ok show ?thesis by (simp add: insert_absorb)
next
  case False
  then have "map_of (us_users srv) (client_key peer) = None" using users_ok_mem [OF assms] by simp
  with False ok fam show ?thesis
    by (auto simp: add_user_def users_ok_def)
qed

lemma users_nonempty: "users_ok (insert peer P) srv \<Longrightarrow> us_users srv \<noteq> []"
  by (auto simp: users_ok_def)

definition peer_of :: "byte list \<times> (sockaddr_in \<times> byte list) option \<Rightarrow> sockaddr_in" where
  "peer_of r = fst (the (snd r))"

definition text_of :: "byte list \<times> (sockaddr_in \<times> byte list) option \<Rightarrow> byte list" where
  "text_of r = take 1023 (snd (the (snd r)))"

definition is_message :: "byte list \<times> (sockaddr_in \<times> byte list) option \<Rightarrow> bool" where
  "is_message r \<longleftrightarrow>
     (case snd r of None \<Rightarrow> False | Some (peer, d) \<Rightarrow> d \<noteq> [] \<and> sin_family peer = AF_INET)"

lemma udp_round_message:
  assumes ok: "users_ok P srv" and msg: "is_message (key0, r)"
  defines "p \<equiv> peer_of (key0, r)"
  shows "users_ok (insert p P) (add_user p srv) \<and>
     udp_round key0 r srv =
       Some (map (\<lambda>(k, q). (q, push_message (client_key p) (text_of (key0, r))))
               (us_users (add_user p srv)), add_user p srv)"
proof -
  obtain d where r: "r = Some (p, d)" "d \<noteq> []" "sin_family p = AF_INET"
    using msg by (auto simp: is_message_def p_def peer_of_def split: option.splits)
  have u: "users_ok (insert p P) (add_user p srv)" by (rule add_user_ok [OF ok r(3)])
  from users_nonempty [OF this] r u show ?thesis
    by (simp add: udp_round_def SIZE_def text_of_def)
qed

lemma udp_rounds_messages:
  "users_ok P srv \<Longrightarrow> \<forall>r \<in> set rs. is_message r \<Longrightarrow>
   \<exists>outs srv'. udp_rounds rs srv = Some (outs, srv') \<and> length outs = length rs \<and>
     (\<forall>i < length rs. distinct (map fst (outs ! i)) \<and>
        set (map fst (outs ! i)) = P \<union> peer_of ` set (take (Suc i) rs) \<and>
        (\<forall>m \<in> set (map snd (outs ! i)). m = push_message (client_key (peer_of (rs ! i))) (text_of (rs ! i))))"
proof (induction rs arbitrary: P srv)
  case Nil
  then show ?case by simp
next
  case (Cons kr rs)
  obtain key0 r where kr: "kr = (key0, r)" by (cases kr)
  let ?p = "peer_of kr"
  let ?out = "map (\<lambda>(k, q). (q, push_message (client_key ?p) (text_of kr))) (us_users (add_user ?p srv))"
  have ok: "users_ok (insert ?p P) (add_user ?p srv)"
    and st: "udp_round key0 r srv = Some (?out, add_user ?p srv)"
    using udp_round_message [OF Cons.prems(1), of key0 r] Cons.prems(2) by (simp_all add: kr)
  obtain outs srv' where rest: "udp_rounds rs (add_user ?p srv) = Some (outs, srv')"
    and len: "length outs = length rs"
    and all: "\<forall>i < length rs. distinct (map fst (outs ! i)) \<and>
        set (map fst (outs ! i)) = insert ?p P \<union> peer_of ` set (take (Suc i) rs) \<and>
        (\<forall>m \<in> set (map snd (outs ! i)). m = push_message (client_key (peer_of (rs ! i))) (text_of (rs ! i)))"
    using Cons.IH [OF ok] Cons.prems(2) by auto
  have fs: "map fst ?out = map snd (us_users (add_user ?p srv))" by (simp add: case_prod_beta comp_def)
  have first: "distinct (map fst ?out)" "set (map fst ?out) = insert ?p P"
    unfolding fs using ok by (simp_all add: users_ok_def)
  have ms: "m = push_message (client_key ?p) (text_of kr)" if "m \<in> set (map snd ?out)" for m
    using that by (auto simp: case_prod_beta)
  have step: "udp_rounds (kr # rs) srv = Some (?out # outs, srv')"
    using st rest by (simp add: kr)
  show ?case
  proof (intro exI conjI allI impI)
    show "udp_rounds (kr # rs) srv = Some (?out # outs, srv')" by (rule step)
    show "length (?out # outs) = length (kr # rs)" using len by simp
    fix i assume i: "i < length (kr # rs)"
    show "distinct (map fst ((?out # outs) ! i))"
      using first all i by (cases i) simp_all
    show "set (map fst ((?out # outs) ! i)) = P \<union> peer_of ` set (take (Suc i) (kr # rs))"
      using first all i by (cases i) auto
    show "\<forall>m \<in> set (map snd ((?out # outs) ! i)).
        m = push_message (client_key (peer_of ((kr # rs) ! i))) (text_of ((kr # rs) ! i))"
      using ms all i by (cases i) auto
  qed
qed

text \<open>
  C18. When every \<open>recvfrom\<close> gives a non-empty datagram, the server sends each message
  exactly once to every peer it has heard from so far, the sender included, and to nobody
  else; what it sends is the sender's address, port and text.
\<close>

theorem udp_chat_broadcasts:
  assumes "\<forall>r \<in> set rs. is_message r"
  shows "\<exists>outs srv. udp_rounds rs (UdpServer_ctor port ip) = Some (outs, srv) \<and>
     length outs = length rs \<and>
     (\<forall>i < length rs. distinct (map fst (outs ! i)) \<and>
        set (map fst (outs ! i)) = peer_of ` set (take (Suc i) rs) \<and>
        (\<forall>m \<in> set (map snd (outs ! i)).
           m = inet_ntoa (sin_addr (peer_of (rs ! i))) @ ''-'' @
               show_nat (unat (ntohs (sin_port (peer_of (rs ! i))))) @ '' # '' @ c_str (text_of (rs ! i))))"
proof -
  have "users_ok {} (UdpServer_ctor port ip)" by (simp add: users_ok_def UdpServer_ctor_def)
  from udp_rounds_messages [OF this assms] show ?thesis
    by (simp add: push_message_def client_key_exact)
qed

definition demo_peer :: "16 word \<Rightarrow> sockaddr_in" where
  "demo_peer p = \<lparr>sin_family = AF_INET, sin_port = htons p, sin_addr = 0x0100007F\<rparr>"

theorem udp_chat_broadcasts_witness:
  "\<exists>outs srv. udp_rounds [([], Some (demo_peer 9, ''hi'')), ([], Some (demo_peer 7, ''ho''))]
       (UdpServer_ctor 8080 []) = Some (outs, srv) \<and> length outs = 2 \<and>
     set (map fst (outs ! 1)) = {demo_peer 9, demo_peer 7}"
  using udp_chat_broadcasts
    [of "[([], Some (demo_peer 9, ''hi'')), ([], Some (demo_peer 7, ''ho''))]" 8080 "[]"]
  by (fastforce simp: is_message_def demo_peer_def peer_of_def)

section \<open>Where the chat breaks\<close>

text \<open>
  An empty datagram (or an error of \<open>recvfrom\<close>) makes the server broadcast whatever
  the uninitialised array \<open>key\<close> holds, up to its first zero byte, and read past its end when
  there is none.
\<close>

theorem empty_datagram_reads_uninitialised_key:
  assumes "us_users srv \<noteq> []"
  shows "udp_round key0 (Some (peer, [])) srv =
       (if nul \<in> set key0 then Some (map (\<lambda>(k, q). (q, c_str key0 @ '' # '')) (us_users srv), srv)
        else None) \<and>
     udp_round key0 None srv = udp_round key0 (Some (peer, [])) srv"
  using assms by (simp add: udp_round_def push_message_def c_str_def)

theorem empty_datagram_reads_uninitialised_key_witness:
  "udp_round (replicate 64 (CHR ''x'')) (Some (demo_peer 7, []))
     (add_user (demo_peer 9) (UdpServer_ctor 8080 [])) = None"
proof -
  have "us_users (add_user (demo_peer 9) (UdpServer_ctor 8080 [])) \<noteq> []"
    by (simp add: add_user_def UdpServer_ctor_def)
  from empty_datagram_reads_uninitialised_key [OF this, of "replicate 64 (CHR ''x'')" "demo_peer 7"]
  show ?thesis by (simp add: nul_def)
qed

text \<open>
  C21. A broadcast writes outside the receiving client's buffer exactly when the sender's key
  and text have 1021 bytes or more together, which a text of 1012 bytes always reaches.
\<close>

theorem udp_client_overflow:
  "(udpRecv_round (Some (push_message (client_key peer) (take (SIZE - 1) d))) = None \<longleftrightarrow>
     1021 \<le> length (client_key peer) + strlen (take (SIZE - 1) d)) \<and>
   (nul \<notin> set d \<and> 1012 \<le> length d \<longrightarrow>
     udpRecv_round (Some (push_message (client_key peer) (take (SIZE - 1) d))) = None)"
proof -
  have a: "udpRecv_round (Some (push_message (client_key peer) (take (SIZE - 1) d))) = None \<longleftrightarrow>
     1021 \<le> length (client_key peer) + strlen (take (SIZE - 1) d)"
    by (auto simp: udpRecv_round_def push_message_def READ_SEND_MAX_SIZE_def strlen_def Let_def)
  have one: "Suc 0 \<le> length (show_nat n)" for n
    using show_nat_nonempty [of n] by (cases "show_nat n") auto
  have "9 \<le> length (client_key peer)"
    using one [of "addr_byte 0 (sin_addr peer)"] one [of "addr_byte 1 (sin_addr peer)"]
      one [of "addr_byte 2 (sin_addr peer)"] one [of "addr_byte 3 (sin_addr peer)"]
      one [of "unat (ntohs (sin_port peer))"]
    by (simp add: client_key_exact inet_ntoa_def)
  moreover have "strlen (take (SIZE - 1) d) = min (SIZE - 1) (length d)" if "nul \<notin> set d"
  proof -
    have "nul \<notin> set (take (SIZE - 1) d)" using that by (auto dest: in_set_takeD)
    then show ?thesis by (simp add: strlen_def min.commute)
  qed
  ultimately show ?thesis using a by (auto simp: SIZE_def)
qed

theorem udp_client_overflow_witness:
  "udpRecv_round (Some (push_message (client_key (demo_peer 7)) (take (SIZE - 1) (replicate 1012 CHR ''x'')))) = None"
proof -
  have "nul \<notin> set (replicate 1012 CHR ''x'') \<and> 1012 \<le> length (replicate 1012 CHR ''x'')"
    by (simp add: nul_def)
  then show ?thesis using udp_client_overflow [of "demo_peer 7" "replicate 1012 CHR ''x''"] by blast
qed

text \<open>What the sending thread does with its input.\<close>

lemma udpSend_rest:
  "cin_lines c = [] \<Longrightarrow> cin_eof c \<Longrightarrow> m \<noteq> ''quit'' \<Longrightarrow> udpSend n m c = (replicate n m, False)"
  by (induction n) (auto simp: getline_eof)

lemma udpSend_end:
  "cin_lines c = [] \<Longrightarrow> \<not> cin_eof c \<Longrightarrow> cin_rest c \<noteq> ''quit'' \<Longrightarrow>
   udpSend n m c = (replicate n (cin_rest c), False)"
  by (cases n) (auto simp: getline_def udpSend_rest)

lemma udpSend_lines:
  "''quit'' \<notin> set ls \<Longrightarrow> cin_lines c = ls @ ls' \<Longrightarrow>
   udpSend (length ls + n) m c =
     (let (out, ended) = udpSend n (if ls = [] then m else last ls) (c\<lparr>cin_lines := ls'\<rparr>)
      in (ls @ out, ended))"
proof (induction ls arbitrary: m c)
  case Nil
  then have "c\<lparr>cin_lines := ls'\<rparr> = c" by auto
  then show ?case by (simp add: case_prod_beta)
next
  case (Cons l ls)
  from Cons.prems have l: "l \<noteq> ''quit''" "''quit'' \<notin> set ls" "cin_lines c = l # ls @ ls'" by auto
  have "udpSend (length ls + n) l (c\<lparr>cin_lines := ls @ ls'\<rparr>) =
     (let (out, ended) = udpSend n (if ls = [] then l else last ls) (c\<lparr>cin_lines := ls'\<rparr>)
      in (ls @ out, ended))"
    using Cons.IH [of "c\<lparr>cin_lines := ls @ ls'\<rparr>" l] l(2) by simp
  then show ?case using l by (simp add: getline_line case_prod_beta Let_def split: if_splits)
qed

text \<open>
  The sending thread sends every line before \<open>quit\<close> as one datagram and then ends. With
  no \<open>quit\<close> in its input it never ends: at the end of the input it sends the unfinished
  last line, usually the empty datagram, again and again.
\<close>

theorem udp_sender_ends_only_on_quit:
  assumes "''quit'' \<notin> set ls"
  shows "udpSend (length ls + Suc n) m \<lparr>cin_lines = ls @ ''quit'' # ls', cin_rest = r, cin_eof = False\<rparr>
       = (ls, True) \<and>
     (r \<noteq> ''quit'' \<longrightarrow>
      udpSend (length ls + n) m \<lparr>cin_lines = ls, cin_rest = r, cin_eof = False\<rparr>
       = (ls @ replicate n r, False))"
proof (intro conjI impI)
  show "udpSend (length ls + Suc n) m \<lparr>cin_lines = ls @ ''quit'' # ls', cin_rest = r, cin_eof = False\<rparr>
       = (ls, True)"
    by (subst udpSend_lines [OF assms, of _ "''quit'' # ls'"]) (simp_all add: getline_def)
  assume "r \<noteq> ''quit''"
  then show "udpSend (length ls + n) m \<lparr>cin_lines = ls, cin_rest = r, cin_eof = False\<rparr>
       = (ls @ replicate n r, False)"
    by (subst udpSend_lines [OF assms, of _ "[]"]) (simp_all add: udpSend_end)
qed

theorem udp_sender_ends_only_on_quit_witness:
  "udpSend 2 [] \<lparr>cin_lines = [''hello'', ''quit''], cin_rest = [], cin_eof = False\<rparr> = ([''hello''], True)"
  using udp_sender_ends_only_on_quit [of "[''hello'']" 0 "[]" "[]" "[]"] by (simp add: numeral_2_eq_2)

section \<open>Starting the server\<close>

text \<open>
  \<open>main\<close> ends with status 1 without exactly one argument and with status 2 when the
  socket cannot be created or bound; otherwise the server listens on all addresses, on the
  port that is the argument modulo 65536, with no users.
\<close>

theorem udp_server_start:
  "udp_server_main inet_addr sock bind [prog, show_nat n] =
     (if sock < 0 \<or>
         bind sock \<lparr>sin_family = AF_INET, sin_port = htons (of_nat n), sin_addr = 0\<rparr> < 0
      then Exit 2
      else Go \<lparr>us_ip = [], us_port = of_nat n, us_sock = sock, us_users = []\<rparr>) \<and>
   unat (of_nat n :: 16 word) = n mod 65536 \<and>
   udp_server_main inet_addr sock bind [prog] = Exit 1"
  by (simp add: udp_server_main_def UdpServer_initServer_def UdpServer_ctor_def Let_def
      port_of_arg_def INADDR_ANY_def unat_of_nat)

end
