(* ===== verification/Tcp_Echo.thy ===== *)
theory Tcp_Echo
  imports Net Singleton
begin

text \<open>
  The TCP echo server of 0215/tcp: \<open>service\<close> on one connection, the server that hands
  connections to the singleton thread pool, the older server that forks a process per
  connection (tcp_backup_1), the client, and client and \<open>service\<close> at the two ends of a
  connection. What \<open>read\<close>, \<open>accept\<close>, \<open>fork\<close> and the other
  system calls return is an argument; a text that goes to \<open>logMessage\<close> is the event
  \<open>Logged\<close> with its level.
\<close>

section \<open>service\<close>

definition SERVICE_SIZE :: nat where "SERVICE_SIZE = 1024"

text \<open>\<open>read\<close>: the bytes, the end of the stream, or an error number.\<close>

datatype read_result = Chunk "byte list" | Eof | Rerr int

datatype svc_event = Printed string | Wrote "byte list" | Logged log_level string | Closed int

text \<open>
  How \<open>service\<close> ends: it returns, waits in \<open>read\<close> for more, or the process is killed by
  \<open>SIGPIPE\<close> in \<open>write\<close>. \<open>Overrun\<close> would be \<open>buffer[s] = 0\<close> outside the buffer.
\<close>

datatype svc_end = Returns | Blocks | Killed | Overrun

definition service_line :: "string \<Rightarrow> 16 word \<Rightarrow> byte list \<Rightarrow> string" where
  "service_line ip port buffer = ip @ '': '' @ show_nat (unat port) @ '' # '' @ c_str buffer @ [CHR 0x0A]"

text \<open>
  Each element is the result of a \<open>read\<close> and whether the \<open>write\<close> after it finds the peer's
  end still open.
\<close>

fun service ::
  "(int \<Rightarrow> string) \<Rightarrow> int \<Rightarrow> string \<Rightarrow> 16 word \<Rightarrow> (read_result \<times> bool) list \<Rightarrow> svc_event list \<times> svc_end" where
  "service strerror sock ip port [] = ([], Blocks)"
| "service strerror sock ip port ((Chunk d, open) # rs) =
     (if length d < SERVICE_SIZE then
        (let buffer = d @ [nul];
             out = [Printed (service_line ip port buffer)] in
         if open then
           (let (es, e) = service strerror sock ip port rs in (out @ Wrote (c_str buffer) # es, e))
         else (out, Killed))
      else ([], Overrun))"
| "service strerror sock ip port ((Eof, open) # rs) =
     ([Logged NORMAL (c_str ip @ '': '' @ show_nat (unat port) @ '' shutdown, me too!''), Closed sock],
      Returns)"
| "service strerror sock ip port ((Rerr errno, open) # rs) =
     ([Logged ERROR (''read socket error, '' @ show_int errno @ '': '' @ strerror errno), Closed sock],
      Returns)"

fun wrote :: "svc_event list \<Rightarrow> byte list" where
  "wrote [] = []"
| "wrote (Wrote d # es) = d @ wrote es"
| "wrote (_ # es) = wrote es"

fun closes :: "svc_event list \<Rightarrow> int list" where
  "closes [] = []"
| "closes (Closed s # es) = s # closes es"
| "closes (_ # es) = closes es"

lemma wrote_append [simp]: "wrote (es @ fs) = wrote es @ wrote fs"
  by (induction es rule: wrote.induct) auto

lemma closes_append [simp]: "closes (es @ fs) = closes es @ closes fs"
  by (induction es rule: closes.induct) auto

text \<open>What \<open>read(sock, buffer, sizeof(buffer) - 1)\<close> can return.\<close>

definition read_ok :: "read_result \<Rightarrow> bool" where
  "read_ok r = (case r of Chunk d \<Rightarrow> 0 < length d \<and> length d \<le> SERVICE_SIZE - 1 | _ \<Rightarrow> True)"

lemma service_closes:
  "\<forall>r \<in> set rs. read_ok (fst r) \<Longrightarrow>
   snd (service strerror sock ip port rs) \<noteq> Overrun \<and>
   closes (fst (service strerror sock ip port rs)) =
     (if snd (service strerror sock ip port rs) = Returns then [sock] else [])"
  by (induction strerror sock ip port rs rule: service.induct)
    (auto simp: read_ok_def SERVICE_SIZE_def case_prod_beta Let_def)

lemma service_echo:
  "\<forall>d \<in> set ds. 0 < length d \<and> length d < SERVICE_SIZE \<Longrightarrow>
   service strerror sock ip port (map (\<lambda>d. (Chunk d, True)) ds @ rs) =
     (concat (map (\<lambda>d. [Printed (service_line ip port (d @ [nul])), Wrote (c_str d)]) ds) @
        fst (service strerror sock ip port rs),
      snd (service strerror sock ip port rs))"
  by (induction ds) (auto simp: case_prod_beta Let_def)

lemma wrote_echo:
  "wrote (concat (map (\<lambda>d. [Printed (f d), Wrote (g d)]) ds)) = concat (map g ds)"
  by (induction ds) auto

text \<open>
  C22. The echo: on a connection that delivers the chunks \<open>ds\<close> and then ends, the service
  writes back every chunk up to its first zero byte, so exactly the bytes it received when
  there is none, logs the end and closes the socket, once and last.
\<close>

theorem tcp_service_echoes:
  assumes "\<forall>d \<in> set ds. 0 < length d \<and> length d \<le> 1023"
  shows "wrote (fst (service strerror sock ip port (map (\<lambda>d. (Chunk d, True)) ds @ [(Eof, True)])))
       = concat (map c_str ds) \<and>
     (nul \<notin> set (concat ds) \<longrightarrow> concat (map c_str ds) = concat ds) \<and>
     closes (fst (service strerror sock ip port (map (\<lambda>d. (Chunk d, True)) ds @ [(Eof, True)]))) = [sock] \<and>
     last (fst (service strerror sock ip port (map (\<lambda>d. (Chunk d, True)) ds @ [(Eof, True)]))) = Closed sock \<and>
     snd (service strerror sock ip port (map (\<lambda>d. (Chunk d, True)) ds @ [(Eof, True)])) = Returns"
proof -
  let ?rs = "map (\<lambda>d. (Chunk d, True)) ds @ [(Eof, True)]"
  have "\<forall>d \<in> set ds. 0 < length d \<and> length d < SERVICE_SIZE"
    using assms by (auto simp: SERVICE_SIZE_def)
  note e = service_echo [OF this, of strerror sock ip port "[(Eof, True)]"]
  have "\<forall>r \<in> set ?rs. read_ok (fst r)" using assms by (auto simp: read_ok_def SERVICE_SIZE_def)
  note c = service_closes [OF this, of strerror sock ip port]
  have "nul \<notin> set (concat ds) \<longrightarrow> concat (map c_str ds) = concat ds"
    by (induction ds) auto
  with e c show ?thesis by (simp add: wrote_echo)
qed

theorem tcp_service_echoes_witness:
  "wrote (fst (service (\<lambda>_. []) 4 ''1.2.3.4'' 9 [(Chunk ''ab'', True), (Chunk ''c'', True), (Eof, True)])) = ''abc''"
  using tcp_service_echoes [of "[''ab'', ''c'']" "\<lambda>_. []" 4 "''1.2.3.4''" 9] by (simp add: nul_def)

text \<open>
  On every sequence of results \<open>read\<close> can give, the service stays inside its buffer and
  closes the socket exactly once when it returns, not while it waits. A client that has gone
  away when the service writes takes the whole process with it (\<open>SIGPIPE\<close>), and the socket
  is not closed.
\<close>

theorem tcp_service_closes_once:
  assumes "\<forall>r \<in> set rs. read_ok (fst r)"
  shows "snd (service strerror sock ip port rs) \<noteq> Overrun \<and>
     closes (fst (service strerror sock ip port rs)) =
       (if snd (service strerror sock ip port rs) = Returns then [sock] else []) \<and>
     (rs \<noteq> [] \<and> snd (last rs) = False \<and> (\<exists>d. fst (last rs) = Chunk d) \<and>
      (\<forall>r \<in> set (butlast rs). snd r \<and> (\<exists>d. fst r = Chunk d)) \<longrightarrow>
      snd (service strerror sock ip port rs) = Killed)"
proof -
  have "rs \<noteq> [] \<Longrightarrow> snd (last rs) = False \<Longrightarrow> \<exists>d. fst (last rs) = Chunk d \<Longrightarrow>
      \<forall>r \<in> set (butlast rs). snd r \<and> (\<exists>d. fst r = Chunk d) \<Longrightarrow>
      snd (service strerror sock ip port rs) = Killed"
    using assms
  proof (induction rs)
    case Nil
    then show ?case by simp
  next
    case (Cons r rs)
    then show ?case
      by (cases r; cases rs)
        (auto simp: read_ok_def SERVICE_SIZE_def case_prod_beta Let_def split: if_splits)
  qed
  with service_closes [OF assms, of strerror sock ip port] show ?thesis by blast
qed

theorem tcp_service_closes_once_witness:
  "snd (service (\<lambda>_. []) 4 ''1.2.3.4'' 9 [(Chunk ''ab'', False)]) = Killed"
  using tcp_service_closes_once [of "[(Chunk ''ab'', False)]" "\<lambda>_. []" 4 "''1.2.3.4''" 9]
  by (simp add: read_ok_def SERVICE_SIZE_def)

section \<open>TcpServer\<close>

record tcp_server =
  ts_port :: "16 word"
  ts_ip :: string
  ts_listen_sock :: int
  ts_pool :: nat

definition gbacklog :: int where "gbacklog = 20"

text \<open>The server keeps the pointer \<open>getThreadPool\<close> returned.\<close>

definition TcpServer_ctor :: "16 word \<Rightarrow> string \<Rightarrow> nat \<Rightarrow> tcp_server" where
  "TcpServer_ctor port ip pool = \<lparr>ts_port = port, ts_ip = ip, ts_listen_sock = -1, ts_pool = pool\<rparr>"

text \<open>
  \<open>sock\<close>, \<open>bind\<close> and \<open>listen\<close> are what the calls return, \<open>err\<close> the error number after a
  failing call.
\<close>

definition TcpServer_initServer ::
  "(int \<Rightarrow> string) \<Rightarrow> (string \<Rightarrow> 32 word) \<Rightarrow> int \<Rightarrow> int \<Rightarrow> (int \<Rightarrow> sockaddr_in \<Rightarrow> int) \<Rightarrow>
   (int \<Rightarrow> int \<Rightarrow> int) \<Rightarrow> tcp_server \<Rightarrow> svc_event list \<times> tcp_server outcome" where
  "TcpServer_initServer strerror inet_addr err sock bind listen srv =
     (let fail = (\<lambda>what. Logged FATAL (what @ '' error, '' @ show_int err @ '': '' @ strerror err));
          srv' = srv\<lparr>ts_listen_sock := sock\<rparr> in
      if sock < 0 then ([fail ''create socket''], Exit 2)
      else
        let ok = Logged NORMAL (''create socket success, sock: '' @ show_int sock);
            local = \<lparr>sin_family = AF_INET, sin_port = htons (ts_port srv'),
                     sin_addr = (if ts_ip srv' = [] then INADDR_ANY else inet_addr (ts_ip srv'))\<rparr> in
        if bind sock local < 0 then ([ok, fail ''bind''], Exit 3)
        else if listen sock gbacklog < 0 then ([ok, fail ''listen''], Exit 4)
        else ([ok, Logged NORMAL ''init TcpServer Success''], Go srv'))"

text \<open>The task of a connection (threadPool/Task.hpp): running it is calling \<open>service\<close>.\<close>

record tcp_task =
  tt_sock :: int
  tt_ip :: string
  tt_port :: "16 word"

definition tcp_Task_ctor :: "int \<Rightarrow> string \<Rightarrow> 16 word \<Rightarrow> tcp_task" where
  "tcp_Task_ctor sock ip port = \<lparr>tt_sock = sock, tt_ip = ip, tt_port = port\<rparr>"

definition tcp_Task_call ::
  "(int \<Rightarrow> string) \<Rightarrow> tcp_task \<Rightarrow> (read_result \<times> bool) list \<Rightarrow> svc_event list \<times> svc_end" where
  "tcp_Task_call strerror tsk rs = service strerror (tt_sock tsk) (tt_ip tsk) (tt_port tsk) rs"

text \<open>
  One round of the accept loop: the socket or a negative number with the error number, and
  the address of the peer.
\<close>

definition tcp_accept_round ::
  "(int \<Rightarrow> string) \<Rightarrow> int \<times> int \<times> sockaddr_in \<Rightarrow> svc_event list \<times> tcp_task option" where
  "tcp_accept_round strerror = (\<lambda>(service_sock, errno, src).
     if service_sock < 0
     then ([Logged ERROR (''accept error, '' @ show_int errno @ '': '' @ strerror errno)], None)
     else
       (let client_port = ntohs (sin_port src); client_ip = inet_ntoa (sin_addr src) in
        ([Logged NORMAL (''link success, serviceSock: '' @ show_int service_sock @ '' | '' @
            c_str client_ip @ '' : '' @ show_nat (unat client_port))],
         Some (tcp_Task_ctor service_sock client_ip client_port))))"

definition tcp_server_main ::
  "(int \<Rightarrow> string) \<Rightarrow> (string \<Rightarrow> 32 word) \<Rightarrow> int \<Rightarrow> int \<Rightarrow> (int \<Rightarrow> sockaddr_in \<Rightarrow> int) \<Rightarrow>
   (int \<Rightarrow> int \<Rightarrow> int) \<Rightarrow> nat \<Rightarrow> string list \<Rightarrow> svc_event list \<times> tcp_server outcome" where
  "tcp_server_main strerror inet_addr err sock bind listen pool argv =
     (if length argv \<noteq> 2 then ([], Exit 1)
      else TcpServer_initServer strerror inet_addr err sock bind listen
             (TcpServer_ctor (port_of_arg (argv ! 1)) [] pool))"

text \<open>
  Each way the server can fail to start has its own exit status; when it starts, it
  listens on the given port with the backlog of 20.
\<close>

theorem tcp_server_start:
  "snd (tcp_server_main strerror inet_addr err sock bind listen pool argv) =
     (if length argv \<noteq> 2 then Exit 1
      else if sock < 0 then Exit 2
      else if bind sock \<lparr>sin_family = AF_INET, sin_port = htons (port_of_arg (argv ! 1)),
                         sin_addr = 0\<rparr> < 0 then Exit 3
      else if listen sock 20 < 0 then Exit 4
      else Go \<lparr>ts_port = port_of_arg (argv ! 1), ts_ip = [], ts_listen_sock = sock, ts_pool = pool\<rparr>)"
  by (simp add: tcp_server_main_def TcpServer_initServer_def TcpServer_ctor_def Let_def
      INADDR_ANY_def gbacklog_def)

section \<open>The server and its thread pool\<close>

text \<open>
  \<open>start\<close>: the main thread of the server is the pool's main thread. It runs the pool; then each
  round of its loop takes the next result of \<open>accept\<close> and makes the task of the connection, which
  \<open>pushTask\<close> puts into the pool's queue, or goes on to the next round when \<open>accept\<close> failed. The
  state is the pool with the results \<open>accept\<close> has yet to give; the pool's own rule that makes a
  task is switched off. The texts for the log are those of \<open>tcp_accept_round\<close>.
\<close>

type_synonym accept_result = "int \<times> int \<times> sockaddr_in"

inductive tcp_pool_step ::
  "(int \<Rightarrow> string) \<Rightarrow> tcp_task pool_sys \<times> accept_result list \<Rightarrow> tcp_task pool_event option \<Rightarrow>
   tcp_task pool_sys \<times> accept_result list \<Rightarrow> bool"
  for strerror :: "int \<Rightarrow> string" where
  accepted:
    "t < length (tp_pcs s) \<Longrightarrow> tp_pcs s ! t = Ps_Make \<Longrightarrow>
     tcp_accept_round strerror a = (ls, Some tsk) \<Longrightarrow>
     tcp_pool_step strerror (s, a # as) None (s\<lparr>tp_pcs := (tp_pcs s)[t := Ps_Lock tsk]\<rparr>, as)"
| accept_fails:
    "t < length (tp_pcs s) \<Longrightarrow> tp_pcs s ! t = Ps_Make \<Longrightarrow>
     tcp_accept_round strerror a = (ls, None) \<Longrightarrow>
     tcp_pool_step strerror (s, a # as) None (s, as)"
| pool:
    "pool_step (nat g_thread_num) (\<lambda>_. False) s l s' \<Longrightarrow> tcp_pool_step strerror (s, as) l (s', as)"

text \<open>The connections that succeed, in their order, and the one the main thread is about to push.\<close>

definition accepted_tasks :: "accept_result list \<Rightarrow> tcp_task list" where
  "accepted_tasks as =
     map (\<lambda>(sock, errno, src). \<lparr>tt_sock = sock, tt_ip = inet_ntoa (sin_addr src),
            tt_port = ntohs (sin_port src)\<rparr>)
       (filter (\<lambda>(sock, errno, src). 0 \<le> sock) as)"

fun in_hand :: "'a pool_pc \<Rightarrow> 'a list" where
  "in_hand (Ps_Lock x) = [x]"
| "in_hand (Ps_Push x) = [x]"
| "in_hand _ = []"

lemma accept_round_tasks:
  "accepted_tasks (a # as) = opt_list (snd (tcp_accept_round strerror a)) @ accepted_tasks as"
  by (cases a) (simp add: accepted_tasks_def tcp_accept_round_def tcp_Task_ctor_def opt_list_def Let_def)

lemma pool_step_makes_any: "pool_step n (\<lambda>_. False) s l s' \<Longrightarrow> pool_step n mk s l s'"
  unfolding pool_step_def by (auto elim!: pushTask_step.cases intro: pushTask_step.intros)

lemma in_hand_worker: "is_worker p \<Longrightarrow> in_hand p = []"
  by (cases p) auto

lemma worker_not_main: "worker_roles 3 ps \<Longrightarrow> length ps = 4 \<Longrightarrow> t < 4 \<Longrightarrow> is_worker (ps ! t) = (t \<noteq> 3)"
  by (auto simp: worker_roles_def)

text \<open>A step of the pool leaves what the main thread holds in its hand, or pushes it.\<close>

lemma pool_step_hand:
  assumes roles: "worker_roles 3 (tp_pcs s)" and len: "length (tp_pcs s) = 4"
    and step: "pool_step 3 (\<lambda>_. False) s l s'"
  shows "length (tp_pcs s') = 4 \<and>
     pushed (opt_list l) @ in_hand (tp_pcs s' ! 3) = in_hand (tp_pcs s ! 3)"
  using step unfolding pool_step_def
proof (elim disjE conjE)
  note other = worker_not_main [OF roles len]
  assume "routine_step s l s'"
  then show ?thesis
    by cases (use len other in \<open>auto simp: opt_list_def nth_list_update dest!: spec [of _ 3]\<close>)
next
  note other = worker_not_main [OF roles len]
  assume "pushTask_step (\<lambda>_. False) s l s'"
  then show ?thesis
  proof cases
    case (signal t x ps)
    have "t = 3" using other [of t] signal len by auto
    with signal signal_length [OF signal(5)] len show ?thesis by (simp add: opt_list_def)
  next
    case (lock t x m)
    have "t = 3" using other [of t] lock len by auto
    with lock len show ?thesis by (simp add: opt_list_def)
  next
    case (put t x)
    have "t = 3" using other [of t] put len by auto
    with put len show ?thesis by (simp add: opt_list_def)
  next
    case (unlock t x m)
    have "t = 3" using other [of t] unlock len by auto
    with unlock len show ?thesis by (simp add: opt_list_def)
  qed simp
next
  note other = worker_not_main [OF roles len]
  assume "l = None" and "run_step 3 s s'"
  from this(2) show ?thesis
  proof cases
    case (created t k)
    have "t = 3" using other [of t] created len by auto
    with created len \<open>l = None\<close> show ?thesis by (simp add: opt_list_def)
  next
    case (not_created t k)
    have "t = 3" using other [of t] not_created len by auto
    with not_created len \<open>l = None\<close> show ?thesis by (simp add: opt_list_def)
  next
    case (all_started t)
    have "t = 3" using other [of t] all_started len by auto
    with all_started len \<open>l = None\<close> show ?thesis by (simp add: opt_list_def)
  qed
next
  note other = worker_not_main [OF roles len]
  assume "l = None" and "pool_spurious s s'"
  then obtain t where t: "t < 4" "tp_pcs s ! t = Wk_Wait" "s' = s\<lparr>tp_pcs := (tp_pcs s)[t := Wk_Wake]\<rparr>"
    using len by (auto simp: pool_spurious_def)
  have "t \<noteq> 3" using other [of t] t by auto
  with t len \<open>l = None\<close> show ?thesis by (simp add: opt_list_def)
qed

definition tcp_counts :: "accept_result list \<Rightarrow> tcp_task pool_event list \<Rightarrow>
    tcp_task pool_sys \<times> accept_result list \<Rightarrow> bool" where
  "tcp_counts as0 es c \<longleftrightarrow>
     worker_roles 3 (tp_pcs (fst c)) \<and> length (tp_pcs (fst c)) = 4 \<and>
     pushed es @ in_hand (tp_pcs (fst c) ! 3) @ accepted_tasks (snd c) = accepted_tasks as0"

lemma pushed_append: "pushed (es @ fs) = pushed es @ pushed fs"
  by (induction es rule: pushed.induct) auto

lemma tcp_counts_step:
  assumes "tcp_pool_step strerror c l c'" and "tcp_counts as0 es c"
  shows "tcp_counts as0 (es @ opt_list l) c'"
  using assms(1)
proof cases
  case (accepted t s a ls tsk as)
  have "t = 3" using worker_not_main [of "tp_pcs s" t] assms(2) accepted by (auto simp: tcp_counts_def)
  moreover have "worker_roles 3 ((tp_pcs s)[t := Ps_Lock tsk])"
    by (rule worker_roles_update) (use assms(2) accepted in \<open>simp_all add: tcp_counts_def\<close>)
  ultimately show ?thesis using assms(2) accepted accept_round_tasks [of a as strerror]
    by (simp add: tcp_counts_def opt_list_def)
next
  case (accept_fails t s a ls as)
  then show ?thesis using assms(2) accept_round_tasks [of a as strerror]
    by (simp add: tcp_counts_def opt_list_def)
next
  case (pool s s' as)
  then have st: "pool_step 3 (\<lambda>_. False) s l s'" by (simp add: g_thread_num_def)
  have c: "worker_roles 3 (tp_pcs s)" "length (tp_pcs s) = 4"
    "pushed es @ in_hand (tp_pcs s ! 3) @ accepted_tasks as = accepted_tasks as0"
    using assms(2) pool by (simp_all add: tcp_counts_def)
  have "worker_roles 3 (tp_pcs s')" by (rule worker_roles_step [OF c(1) st])
  with c(3) pool_step_hand [OF c(1,2) st] show ?thesis
    unfolding pool(2) tcp_counts_def fst_conv snd_conv pushed_append by (metis append.assoc)
qed

text \<open>A run of the server is one of the pool, and it accounts for every accepted connection.\<close>

lemma tcp_run:
  assumes "Lts.run (tcp_pool_step strerror) c es c'" and "tcp_counts (snd c) [] c"
  shows "tcp_counts (snd c) es c' \<and> Lts.run (pool_step 3 (\<lambda>_. True)) (fst c) es (fst c')"
  using assms
proof (induction rule: run.induct)
  case (run_nil c)
  then show ?case by (simp add: Lts.run_nil)
next
  case (run_tau c es c' c'')
  have r: "Lts.run (pool_step 3 (\<lambda>_. True)) (fst c) es (fst c')" and k: "tcp_counts (snd c) es c'"
    using run_tau.IH run_tau.prems by simp_all
  have "Lts.run (pool_step 3 (\<lambda>_. True)) (fst c) es (fst c'')"
    using run_tau.hyps(2)
  proof cases
    case (accepted t s a ls tsk as)
    then have "pool_step 3 (\<lambda>_. True) (fst c') None (fst c'')"
      using pushTask_step.make [of t s "\<lambda>_. True" tsk] by (simp add: pool_step_def)
    with r show ?thesis by (rule Lts.run_tau)
  next
    case (accept_fails t s a ls as)
    with r show ?thesis by simp
  next
    case (pool s s' as)
    with pool_step_makes_any [of 3] have "pool_step 3 (\<lambda>_. True) (fst c') None (fst c'')"
      by (simp add: g_thread_num_def)
    with r show ?thesis by (rule Lts.run_tau)
  qed
  with tcp_counts_step [OF run_tau.hyps(2) k] show ?case by (simp add: opt_list_def)
next
  case (run_vis c es c' e c'')
  have r: "Lts.run (pool_step 3 (\<lambda>_. True)) (fst c) es (fst c')" and k: "tcp_counts (snd c) es c'"
    using run_vis.IH run_vis.prems by simp_all
  have "pool_step 3 (\<lambda>_. True) (fst c') (Some e) (fst c'')"
    using run_vis.hyps(2) by cases (use pool_step_makes_any [of 3] in \<open>simp add: g_thread_num_def\<close>)
  with r have "Lts.run (pool_step 3 (\<lambda>_. True)) (fst c) (es @ [e]) (fst c'')" by (rule Lts.run_vis)
  with tcp_counts_step [OF run_vis.hyps(2) k] show ?case by (simp add: opt_list_def)
qed

lemma tcp_counts_init: "pool_init 3 0 s0 \<Longrightarrow> tcp_counts as [] (s0, as)"
  using worker_roles_init [of 3 0 s0] by (simp add: tcp_counts_def) (simp add: pool_init_def nth_append)

text \<open>
  C23. The server serves its connections through the pool: the connections that \<open>accept\<close> gave,
  without the failed ones and in their order, are those pushed into the queue, the one the main
  thread is about to push, and those of the results still to come; each of them once. So what the
  workers have taken, and after it the queue, is a beginning of the accepted connections, in order,
  each at most once; a worker has served what it took, except for the connection it still holds.
  While all three workers are in \<open>service\<close>, a further connection waits in the queue.
\<close>

theorem tcp_connections_served:
  assumes "pool_init 3 0 s0" and "Lts.run (tcp_pool_step strerror) (s0, as) es (s, rest)"
  shows "map snd (taken es) @ tp_queue s @ in_hand (tp_pcs s ! 3) @ accepted_tasks rest = accepted_tasks as \<and>
     pushed es = map snd (taken es) @ tp_queue s \<and>
     (\<forall>w. \<exists>held. of_worker w (taken es) = of_worker w (ran es) @ held \<and> length held \<le> 1) \<and>
     ((\<forall>t < 3. \<exists>x. tp_pcs s ! t = Wk_Run x) \<longrightarrow>
        \<not> (\<exists>w y c'. tcp_pool_step strerror (s, rest) (Some (Taken w y)) c'))"
proof -
  from tcp_run [OF assms(2)] tcp_counts_init [OF assms(1), of as]
  have c: "tcp_counts as es (s, rest)" and r: "Lts.run (pool_step 3 (\<lambda>_. True)) s0 es s" by simp_all
  have once: "pushed es = map snd (taken es) @ tp_queue s \<and>
     (\<forall>w. of_worker w (taken es) = of_worker w (ran es) @ opt_list (pool_pendings (tp_pcs s) w))"
    by (rule pool_runs_in_order [OF assms(1) r])
  have one: "length (opt_list r) \<le> 1" for r :: "tcp_task option"
    by (simp add: opt_list_def split: option.splits)
  have busy: "\<not> (\<exists>w y c'. tcp_pool_step strerror (s, rest) (Some (Taken w y)) c')"
    if "\<forall>t < 3. \<exists>x. tp_pcs s ! t = Wk_Run x"
    using busy_pool_takes_nothing [OF reachable_run [where I = "pool_init 3 0", OF assms(1) r] that]
      by (auto simp: g_thread_num_def elim!: tcp_pool_step.cases
          dest: pool_step_makes_any [where mk = "\<lambda>_. True"])
  have "pushed es @ in_hand (tp_pcs s ! 3) @ accepted_tasks rest = accepted_tasks as"
    using c by (simp add: tcp_counts_def)
  with once one busy show ?thesis by (intro conjI) (simp, blast+)
qed

text \<open>A schedule: \<open>None\<close> is the next result of \<open>accept\<close>, \<open>Some (t, u)\<close> a choice of the pool.\<close>

definition tcp_exec :: "(nat \<times> nat) option \<Rightarrow> tcp_task pool_sys \<times> accept_result list \<Rightarrow>
    (tcp_task pool_event option \<times> tcp_task pool_sys \<times> accept_result list) option" where
  "tcp_exec c = (\<lambda>(s, as).
     (case c of
        None \<Rightarrow>
          (case as of
             [] \<Rightarrow> None
           | a # as' \<Rightarrow>
               if 3 < length (tp_pcs s) \<and> tp_pcs s ! 3 = Ps_Make
               then Some (None, (case snd (tcp_accept_round (\<lambda>_. []) a) of
                           None \<Rightarrow> s
                         | Some tsk \<Rightarrow> s\<lparr>tp_pcs := (tp_pcs s)[3 := Ps_Lock tsk]\<rparr>), as')
               else None)
      | Some (t, u) \<Rightarrow>
          if tp_pcs s ! t = Ps_Make then None
          else map_option (\<lambda>(l, s'). (l, s', as)) (pool_exec 3 (t, tcp_Task_ctor 0 [] 0, u) s)))"

lemma pool_exec_makes_none:
  "pool_exec n (t, x, u) s = Some (l, s') \<Longrightarrow> tp_pcs s ! t \<noteq> Ps_Make \<Longrightarrow> pool_step n mk s l s'"
  using routine_step.intros [of t s] pushTask_step.intros(2-) [of t s] run_step.intros [of t s]
  by (auto simp: pool_exec_def Let_def pool_step_def
      split: pool_pc.splits if_splits prod.splits dest!: signal_choice_sound)

lemma tcp_exec_sound:
  assumes "tcp_exec c x = Some (l, x')"
  shows "tcp_pool_step (\<lambda>_. []) x l x'"
proof -
  obtain s as where x: "x = (s, as)" by (cases x)
  show ?thesis
  proof (cases c)
    case None
    with assms x obtain a as' where a: "as = a # as'" "3 < length (tp_pcs s)" "tp_pcs s ! 3 = Ps_Make"
      by (auto simp: tcp_exec_def split: list.splits if_splits)
    obtain ls o' where r: "tcp_accept_round (\<lambda>_. []) a = (ls, o')" by fastforce
    with assms x a None tcp_pool_step.accepted [of 3 s "\<lambda>_. []" a ls _ as']
      tcp_pool_step.accept_fails [of 3 s "\<lambda>_. []" a ls as']
    show ?thesis by (cases o') (auto simp: tcp_exec_def)
  next
    case (Some tu)
    obtain t u where tu: "tu = (t, u)" by (cases tu)
    with assms x Some obtain s' where e: "tp_pcs s ! t \<noteq> Ps_Make" "x' = (s', as)"
      "pool_exec 3 (t, tcp_Task_ctor 0 [] 0, u) s = Some (l, s')"
      by (auto simp: tcp_exec_def split: if_splits)
    have "pool_step (nat g_thread_num) (\<lambda>_. False) s l s'"
      using pool_exec_makes_none [OF e(3,1)] by (simp add: g_thread_num_def)
    then show ?thesis unfolding x e(2) by (rule tcp_pool_step.pool)
  qed
qed

definition no_peer :: sockaddr_in where
  "no_peer = \<lparr>sin_family = AF_INET, sin_port = 0, sin_addr = 0\<rparr>"

lemma no_peer_task: "inet_ntoa (sin_addr no_peer) = ''0.0.0.0''" "ntohs (sin_port no_peer) = 0"
proof -
  have "show_nat 0 = ''0''" by code_simp
  then show "inet_ntoa (sin_addr no_peer) = ''0.0.0.0''"
    by (simp add: no_peer_def inet_ntoa_def addr_byte_def)
  show "ntohs (sin_port no_peer) = 0" by (simp add: no_peer_def ntohs_def)
qed

lemma tcp_demo_run:
  "\<exists>s0 s. pool_init 3 0 s0 \<and>
     Lts.run (tcp_pool_step (\<lambda>_. [])) (s0, [(-1, 24, no_peer), (4, 0, no_peer), (5, 0, no_peer)])
       [Pushed (tcp_Task_ctor 4 ''0.0.0.0'' 0), Taken 0 (tcp_Task_ctor 4 ''0.0.0.0'' 0)] (s, [(5, 0, no_peer)])"
proof -
  define x where "x = tcp_Task_ctor 4 ''0.0.0.0'' 0"
  define s0 :: "tcp_task pool_sys" where
    "s0 = \<lparr>tp_queue = [], tp_lock = None, tp_pcs = [Wk_New, Wk_New, Wk_New, Mn_Run 0]\<rparr>"
  let ?as = "[(-1, 24, no_peer), (4, 0, no_peer), (5, 0, no_peer)]"
  let ?cs = "[Some (3, 1), Some (3, 0), Some (3, 1), Some (3, 0), None, None, Some (3, 0), Some (3, 0), Some (3, 0),
              Some (3, 0), Some (0, 0), Some (0, 0), Some (0, 0), Some (0, 0)]"
  have "\<exists>s. schedule tcp_exec (s0, ?as) ?cs = Some ([Pushed x, Taken 0 x], s, [(5, 0, no_peer)])"
    by (simp add: s0_def x_def tcp_exec_def pool_exec_def Let_def tq_isEmpty_def tq_push_def tq_getTask_def
        tcp_accept_round_def no_peer_task signal_choice_def lockGuard_ctor_def lockGuard_dtor_def
        Mutex_lock_def Mutex_unlock_def pthread_mutex_lock_def pthread_mutex_unlock_def)
  then obtain s where sch: "schedule tcp_exec (s0, ?as) ?cs = Some ([Pushed x, Taken 0 x], s, [(5, 0, no_peer)])" ..
  have "Lts.run (tcp_pool_step (\<lambda>_. [])) (s0, ?as) [Pushed x, Taken 0 x] (s, [(5, 0, no_peer)])"
    by (rule schedule_run [OF sch]) (rule tcp_exec_sound)
  moreover have "pool_init 3 0 s0" by (simp add: pool_init_def s0_def numeral_3_eq_3)
  ultimately show ?thesis unfolding x_def by blast
qed

theorem tcp_connections_served_witness:
  "\<exists>s :: tcp_task pool_sys. tcp_Task_ctor 4 ''0.0.0.0'' 0 # tp_queue s @ in_hand (tp_pcs s ! 3) @
     [tcp_Task_ctor 5 ''0.0.0.0'' 0] = [tcp_Task_ctor 4 ''0.0.0.0'' 0, tcp_Task_ctor 5 ''0.0.0.0'' 0]"
proof -
  from tcp_demo_run obtain s0 s where i: "pool_init 3 0 s0"
    and r: "Lts.run (tcp_pool_step (\<lambda>_. [])) (s0, [(-1, 24, no_peer), (4, 0, no_peer), (5, 0, no_peer)])
       [Pushed (tcp_Task_ctor 4 ''0.0.0.0'' 0), Taken 0 (tcp_Task_ctor 4 ''0.0.0.0'' 0)] (s, [(5, 0, no_peer)])"
    by blast
  from tcp_connections_served [OF i r] show ?thesis
    by (auto simp: accepted_tasks_def no_peer_task tcp_Task_ctor_def)
qed

section \<open>One process per connection: tcp_backup_1\<close>

text \<open>
  A round of the forking server. \<open>fork\<close> returns \<open>id\<close> to the parent: positive when there is
  a child, negative when it failed. The parent's open descriptors are a set; the result is
  the parent's descriptors after the round and, for a child, its descriptors while it serves.
\<close>

definition tcp_fork_round ::
  "int \<Rightarrow> int \<times> sockaddr_in \<times> int \<Rightarrow> int set \<Rightarrow> int set \<times> (int set \<times> tcp_task) option" where
  "tcp_fork_round listen_sock = (\<lambda>(service_sock, src, id) fds.
     if service_sock < 0 then (fds, None)
     else
       (let client_port = ntohs (sin_port src); client_ip = inet_ntoa (sin_addr src);
            fds' = insert service_sock fds;
            child = (fds' - {listen_sock}, tcp_Task_ctor service_sock client_ip client_port)
        in (fds' - {service_sock}, if 0 < id then Some child else None)))"

fun tcp_fork_loop ::
  "int \<Rightarrow> (int \<times> sockaddr_in \<times> int) list \<Rightarrow> int set \<Rightarrow> int set \<times> (int set \<times> tcp_task) list" where
  "tcp_fork_loop listen_sock [] fds = (fds, [])"
| "tcp_fork_loop listen_sock (a # as) fds =
     (let (fds', c) = tcp_fork_round listen_sock a fds; (fds'', cs) = tcp_fork_loop listen_sock as fds'
      in (fds'', opt_list c @ cs))"

text \<open>
  The forking server leaks no descriptor, whether or not \<open>accept\<close> and \<open>fork\<close> succeed:
  after any number of rounds the parent has the descriptors it started with, and a child has
  its own connection, not the listening socket and no other client's connection.
\<close>

theorem tcp_fork_no_descriptor_leak:
  assumes "\<forall>(sock, src, id) \<in> set as. sock \<notin> fds"
  shows "fst (tcp_fork_loop listen_sock as fds) = fds \<and>
     (\<forall>(cfds, tsk) \<in> set (snd (tcp_fork_loop listen_sock as fds)).
        cfds = insert (tt_sock tsk) fds - {listen_sock} \<and>
        (\<exists>src id. (tt_sock tsk, src, id) \<in> set as \<and> 0 < id))"
  using assms
proof (induction as)
  case Nil
  then show ?case by simp
next
  case (Cons a as)
  obtain sock src id where a: "a = (sock, src, id)" by (cases a)
  have f: "fst (tcp_fork_round listen_sock a fds) = fds"
    using Cons.prems by (auto simp: a tcp_fork_round_def Let_def)
  have c: "snd (tcp_fork_round listen_sock a fds) = Some (cfds, tsk) \<Longrightarrow>
      cfds = insert (tt_sock tsk) fds - {listen_sock} \<and> tt_sock tsk = sock \<and> 0 < id" for cfds tsk
    by (auto simp: a tcp_fork_round_def Let_def tcp_Task_ctor_def split: if_splits)
  show ?case
    using Cons.IH Cons.prems f c
    by (cases "snd (tcp_fork_round listen_sock a fds)")
      (fastforce simp: case_prod_beta Let_def opt_list_def a)+
qed

theorem tcp_fork_no_descriptor_leak_witness:
  "fst (tcp_fork_loop 3 [(4, \<lparr>sin_family = 2, sin_port = 0, sin_addr = 0\<rparr>, 100),
        (-1, \<lparr>sin_family = 2, sin_port = 0, sin_addr = 0\<rparr>, 0),
        (4, \<lparr>sin_family = 2, sin_port = 0, sin_addr = 0\<rparr>, -1)] {0, 1, 2, 3}) = {0, 1, 2, 3}"
  using tcp_fork_no_descriptor_leak
    [of "[(4, \<lparr>sin_family = 2, sin_port = 0, sin_addr = 0\<rparr>, 100),
        (-1, \<lparr>sin_family = 2, sin_port = 0, sin_addr = 0\<rparr>, 0),
        (4, \<lparr>sin_family = 2, sin_port = 0, sin_addr = 0\<rparr>, -1)]" "{0, 1, 2, 3}" 3]
  by simp

section \<open>The client\<close>

definition RECV_SIZE :: nat where "RECV_SIZE = 1024"

text \<open>What the client prints for the bytes of a \<open>recv\<close>.\<close>

definition tcp_client_print :: "byte list \<Rightarrow> string" where
  "tcp_client_print d = ''server echo # '' @ c_str (take (RECV_SIZE - 1) d @ [nul]) @ [CHR 0x0A]"

datatype client_end = Client_exit nat | Client_session

text \<open>\<open>main\<close> of the client up to its loop.\<close>

definition tcp_client_main ::
  "(string \<Rightarrow> 32 word) \<Rightarrow> int \<Rightarrow> (int \<Rightarrow> sockaddr_in \<Rightarrow> int) \<Rightarrow> string list \<Rightarrow> client_end" where
  "tcp_client_main inet_addr sock connect argv =
     (if length argv \<noteq> 3 then Client_exit 1
      else if sock < 0 then Client_exit 2
      else
        let server_ip = argv ! 1; server_port = port_of_arg (argv ! 2);
            server = \<lparr>sin_family = AF_INET, sin_port = htons server_port, sin_addr = inet_addr server_ip\<rparr>
        in if connect sock server < 0 then Client_exit 3 else Client_session)"

section \<open>A connection\<close>

text \<open>
  The client's loop and \<open>service\<close> at the two ends of a connection. Each direction is a stream of
  bytes: what \<open>send\<close> and \<open>write\<close> put in is appended, and \<open>read\<close> and \<open>recv\<close> return any
  part of it from the front that is not empty and fits the buffer, so a line can be cut into pieces
  and pieces of several lines can come together. \<open>send\<close> and \<open>write\<close> take all bytes. A
  \<open>read\<close> that fails ends \<open>service\<close>; then the client is told so by the end of the stream or an
  error, and leaves its loop, or is killed by \<open>SIGPIPE\<close> in \<open>send\<close>.
\<close>

datatype client_pc = Cl_getline | Cl_recv | Cl_close | Cl_returned | Cl_killed

datatype conn_event = Line_typed string | Line_printed string

record tcp_conn =
  cn_cin :: cin
  cn_pc :: client_pc
  cn_up :: "byte list"
  cn_down :: "byte list"
  cn_serving :: bool

definition tcp_conn_start :: "cin \<Rightarrow> tcp_conn" where
  "tcp_conn_start i = \<lparr>cn_cin = i, cn_pc = Cl_getline, cn_up = [], cn_down = [], cn_serving = True\<rparr>"

inductive tcp_conn_step :: "tcp_conn \<Rightarrow> conn_event option \<Rightarrow> tcp_conn \<Rightarrow> bool" where
  send_line:
    "cn_pc c = Cl_getline \<Longrightarrow> getline [] (cn_cin c) = (l, i) \<Longrightarrow>
     tcp_conn_step c (Some (Line_typed l)) (c\<lparr>cn_cin := i, cn_pc := Cl_recv, cn_up := cn_up c @ l\<rparr>)"
| send_killed:
    "cn_pc c = Cl_getline \<Longrightarrow> \<not> cn_serving c \<Longrightarrow> getline [] (cn_cin c) = (l, i) \<Longrightarrow>
     tcp_conn_step c None (c\<lparr>cn_cin := i, cn_pc := Cl_killed\<rparr>)"
| recv_chunk:
    "cn_pc c = Cl_recv \<Longrightarrow> cn_down c = d @ rest \<Longrightarrow> d \<noteq> [] \<Longrightarrow> length d \<le> RECV_SIZE - 1 \<Longrightarrow>
     tcp_conn_step c (Some (Line_printed (tcp_client_print d))) (c\<lparr>cn_pc := Cl_getline, cn_down := rest\<rparr>)"
| recv_eof:
    "cn_pc c = Cl_recv \<Longrightarrow> \<not> cn_serving c \<Longrightarrow> cn_down c = [] \<Longrightarrow>
     tcp_conn_step c None (c\<lparr>cn_pc := Cl_close\<rparr>)"
| recv_error:
    "cn_pc c = Cl_recv \<Longrightarrow> \<not> cn_serving c \<Longrightarrow> tcp_conn_step c None (c\<lparr>cn_pc := Cl_close\<rparr>)"
| close_sock:
    "cn_pc c = Cl_close \<Longrightarrow> tcp_conn_step c None (c\<lparr>cn_pc := Cl_returned\<rparr>)"
| read_chunk:
    "cn_serving c \<Longrightarrow> cn_up c = d @ rest \<Longrightarrow> d \<noteq> [] \<Longrightarrow> length d \<le> SERVICE_SIZE - 1 \<Longrightarrow>
     service strerror sock ip port [(Chunk d, True)] = (es, Blocks) \<Longrightarrow>
     tcp_conn_step c None (c\<lparr>cn_up := rest, cn_down := cn_down c @ wrote es\<rparr>)"
| read_error:
    "cn_serving c \<Longrightarrow> service strerror sock ip port [(Rerr e, True)] = (es, Returns) \<Longrightarrow>
     tcp_conn_step c None (c\<lparr>cn_serving := False\<rparr>)"

fun typed_lines :: "conn_event list \<Rightarrow> string list" where
  "typed_lines [] = []"
| "typed_lines (Line_typed l # es) = l # typed_lines es"
| "typed_lines (Line_printed p # es) = typed_lines es"

fun printed_lines :: "conn_event list \<Rightarrow> string list" where
  "printed_lines [] = []"
| "printed_lines (Line_typed l # es) = printed_lines es"
| "printed_lines (Line_printed p # es) = p # printed_lines es"

lemma conn_lines_append [simp]:
  "typed_lines (es @ fs) = typed_lines es @ typed_lines fs"
  "printed_lines (es @ fs) = printed_lines es @ printed_lines fs"
  by (induction es rule: typed_lines.induct) auto

definition echo_line :: "byte list \<Rightarrow> string" where
  "echo_line b = ''server echo # '' @ b @ [CHR 0x0A]"

lemma tcp_client_print_echo: "length d \<le> 1023 \<Longrightarrow> nul \<notin> set d \<Longrightarrow> tcp_client_print d = echo_line d"
  by (simp add: tcp_client_print_def echo_line_def RECV_SIZE_def)

text \<open>
  What was typed is what was printed, followed by what is on its way back and on its way there;
  and a client that waits in \<open>recv\<close> has the whole of its last line outstanding.
\<close>

definition conn_bytes :: "conn_event list \<Rightarrow> tcp_conn \<Rightarrow> byte list list \<Rightarrow> bool" where
  "conn_bytes es c bs \<longleftrightarrow> printed_lines es = map echo_line bs \<and>
     concat bs @ cn_down c @ cn_up c = concat (typed_lines es)"

definition conn_counts :: "conn_event list \<Rightarrow> tcp_conn \<Rightarrow> bool" where
  "conn_counts es c \<longleftrightarrow>
     (cn_pc c = Cl_getline \<longrightarrow> length (typed_lines es) = length (printed_lines es)) \<and>
     (cn_pc c = Cl_recv \<longrightarrow> typed_lines es \<noteq> [] \<and> length (typed_lines es) = Suc (length (printed_lines es)) \<and>
        length (last (typed_lines es)) \<le> length (cn_down c @ cn_up c))"

definition conn_inv :: "conn_event list \<Rightarrow> tcp_conn \<Rightarrow> bool" where
  "conn_inv es c \<longleftrightarrow> (\<exists>bs. conn_bytes es c bs) \<and> conn_counts es c"

lemma conn_inv_start: "conn_inv [] (tcp_conn_start i)"
  by (simp add: conn_inv_def conn_bytes_def conn_counts_def tcp_conn_start_def)

lemma service_writes_chunk:
  assumes "length d \<le> 1023" and "nul \<notin> set d" and "service strerror sock ip port [(Chunk d, True)] = (es, e)"
  shows "wrote es = d"
  using assms by (auto simp: SERVICE_SIZE_def Let_def)

lemma conn_bytes_nul_free:
  assumes "conn_bytes es c bs" and "\<forall>t \<in> set (typed_lines es). nul \<notin> set t"
  shows "nul \<notin> set (cn_down c)" "nul \<notin> set (cn_up c)"
proof -
  have "nul \<notin> set (concat bs @ cn_down c @ cn_up c)"
    using assms by (simp only: conn_bytes_def) auto
  then show "nul \<notin> set (cn_down c)" "nul \<notin> set (cn_up c)" by auto
qed

lemma conn_bytes_step:
  assumes "tcp_conn_step c l c'" and b: "conn_bytes es c bs" and nf: "\<forall>t \<in> set (typed_lines es). nul \<notin> set t"
  shows "\<exists>bs'. conn_bytes (es @ opt_list l) c' bs'"
  using assms(1)
proof cases
  case (send_line t i)
  then have "conn_bytes (es @ opt_list l) c' bs"
    using b by (simp add: conn_bytes_def opt_list_def)
  then show ?thesis ..
next
  case (recv_chunk d rest)
  then have "tcp_client_print d = echo_line d"
    using conn_bytes_nul_free(1) [OF b nf] by (intro tcp_client_print_echo) (simp_all add: RECV_SIZE_def)
  with recv_chunk b have "conn_bytes (es @ opt_list l) c' (bs @ [d])"
    by (simp add: conn_bytes_def opt_list_def)
  then show ?thesis ..
next
  case (read_chunk d rest strerror sock ip port fs)
  have "wrote fs = d"
    by (rule service_writes_chunk [OF _ _ read_chunk(7)])
      (use read_chunk conn_bytes_nul_free(2) [OF b nf] in \<open>simp_all add: SERVICE_SIZE_def\<close>)
  with read_chunk b have "conn_bytes (es @ opt_list l) c' bs" by (simp add: conn_bytes_def opt_list_def)
  then show ?thesis ..
qed (use b in \<open>auto simp: conn_bytes_def opt_list_def\<close>)

lemma conn_counts_step:
  assumes "tcp_conn_step c l c'" and k: "conn_counts es c" and b: "conn_bytes es c bs"
    and nf: "\<forall>t \<in> set (typed_lines es). nul \<notin> set t"
  shows "conn_counts (es @ opt_list l) c'"
  using assms(1)
proof cases
  case (read_chunk d rest strerror sock ip port fs)
  have "wrote fs = d"
    by (rule service_writes_chunk [OF _ _ read_chunk(7)])
      (use read_chunk conn_bytes_nul_free(2) [OF b nf] in \<open>simp_all add: SERVICE_SIZE_def\<close>)
  with read_chunk k show ?thesis by (simp add: conn_counts_def opt_list_def)
qed (use k in \<open>simp_all add: conn_counts_def opt_list_def\<close>)

lemma conn_inv_step:
  "tcp_conn_step c l c' \<Longrightarrow> conn_inv es c \<Longrightarrow> \<forall>t \<in> set (typed_lines es). nul \<notin> set t \<Longrightarrow>
   conn_inv (es @ opt_list l) c'"
  unfolding conn_inv_def using conn_bytes_step conn_counts_step by blast

lemma conn_run_inv:
  assumes "Lts.run tcp_conn_step (tcp_conn_start i) es c" and "\<forall>t \<in> set (typed_lines es). nul \<notin> set t"
  shows "conn_inv es c"
proof -
  have "Lts.run tcp_conn_step c0 es c \<Longrightarrow> conn_inv [] c0 \<Longrightarrow> \<forall>t \<in> set (typed_lines es). nul \<notin> set t \<Longrightarrow>
      conn_inv es c" for c0
  proof (induction rule: run.induct)
    case (run_tau c0 es c' c'')
    then show ?case using conn_inv_step [OF run_tau.hyps(2)] by (simp add: opt_list_def)
  next
    case (run_vis c0 es c' e c'')
    then show ?case using conn_inv_step [OF run_vis.hyps(2)] by (simp add: opt_list_def)
  qed simp
  with assms conn_inv_start show ?thesis by blast
qed


text \<open>While the server serves, only a failing \<open>read\<close> ends a silence in which nothing is on its way.\<close>

lemma conn_silent:
  assumes "tcp_conn_step c l c'" and "cn_serving c" and "cn_pc c = Cl_recv" and "cn_down c = []" and "cn_up c = []"
  shows "\<not> cn_serving c'"
  using assms by (auto elim!: tcp_conn_step.cases)

lemma conn_reads:
  assumes "cn_serving c" and "cn_up c = d @ rest" and "d \<noteq> []" and "length d \<le> 1023" and "nul \<notin> set d"
  shows "tcp_conn_step c None (c\<lparr>cn_up := rest, cn_down := cn_down c @ d\<rparr>)"
proof -
  obtain es where e: "service (\<lambda>_. []) 0 [] 0 [(Chunk d, True)] = (es, Blocks)"
    using assms(4) by (simp add: SERVICE_SIZE_def Let_def)
  have "wrote es = d" by (rule service_writes_chunk [OF assms(4,5) e])
  with tcp_conn_step.read_chunk [OF assms(1-3) _ e] assms(4) show ?thesis by (simp add: SERVICE_SIZE_def)
qed

lemma conn_recvs:
  assumes "cn_pc c = Cl_recv" and "cn_down c = d @ rest" and "d \<noteq> []" and "length d \<le> 1023"
  shows "tcp_conn_step c (Some (Line_printed (tcp_client_print d))) (c\<lparr>cn_pc := Cl_getline, cn_down := rest\<rparr>)"
  using tcp_conn_step.recv_chunk [OF assms(1-3)] assms(4) by (simp add: RECV_SIZE_def)

lemma conn_progress:
  assumes inv: "conn_inv es c" and nf: "\<forall>t \<in> set (typed_lines es). nul \<notin> set t" and srv: "cn_serving c"
    and pc: "cn_pc c \<in> {Cl_getline, Cl_recv}" and ne: "\<forall>t \<in> set (typed_lines es). t \<noteq> []"
  shows "\<exists>l c'. tcp_conn_step c l c' \<and> cn_serving c'"
proof (cases "cn_pc c = Cl_getline")
  case True
  obtain t i where "getline [] (cn_cin c) = (t, i)" by fastforce
  with tcp_conn_step.send_line [OF True] srv show ?thesis by fastforce
next
  case False
  with pc have r: "cn_pc c = Cl_recv" by simp
  with inv ne have "cn_down c \<noteq> [] \<or> cn_up c \<noteq> []" by (auto simp: conn_inv_def conn_counts_def)
  then show ?thesis
  proof
    assume "cn_down c \<noteq> []"
    then obtain b rest where "cn_down c = [b] @ rest" by (cases "cn_down c") simp_all
    from conn_recvs [OF r this] srv show ?thesis by fastforce
  next
    assume "cn_up c \<noteq> []"
    then obtain b rest where u: "cn_up c = [b] @ rest" by (cases "cn_up c") simp_all
    from inv obtain bs where "conn_bytes es c bs" by (auto simp: conn_inv_def)
    from conn_bytes_nul_free(2) [OF this nf] u have "nul \<notin> set [b]" by simp
    with conn_reads [OF srv u] srv show ?thesis by fastforce
  qed
qed

text \<open>One line that is sent, read, written and received in one piece.\<close>

lemma conn_whole_line:
  assumes "l \<noteq> []" and "length l \<le> 1023" and "nul \<notin> set l" and "cin_lines i = l # ls"
  shows "Lts.run tcp_conn_step (tcp_conn_start i) [Line_typed l, Line_printed (echo_line l)]
     (tcp_conn_start (i\<lparr>cin_lines := ls\<rparr>))"
proof -
  let ?i = "i\<lparr>cin_lines := ls\<rparr>"
  let ?c1 = "\<lparr>cn_cin = ?i, cn_pc = Cl_recv, cn_up = l, cn_down = [], cn_serving = True\<rparr>"
  let ?c2 = "\<lparr>cn_cin = ?i, cn_pc = Cl_recv, cn_up = [], cn_down = l, cn_serving = True\<rparr>"
  have 1: "tcp_conn_step (tcp_conn_start i) (Some (Line_typed l)) ?c1"
    using tcp_conn_step.send_line [of "tcp_conn_start i" l ?i] getline_line [OF assms(4)]
    by (simp add: tcp_conn_start_def)
  have 2: "tcp_conn_step ?c1 None ?c2" using conn_reads [of ?c1 l "[]"] assms by simp
  have 3: "tcp_conn_step ?c2 (Some (Line_printed (echo_line l))) (tcp_conn_start ?i)"
    using conn_recvs [of ?c2 l "[]"] tcp_client_print_echo [of l] assms by (simp add: tcp_conn_start_def)
  have "Lts.run tcp_conn_step (tcp_conn_start i) ([Line_typed l] @ [Line_printed (echo_line l)]) (tcp_conn_start ?i)"
    by (rule run_vis [OF run_tau [OF run_one_vis]]) (fact 1, fact 2, fact 3)
  then show ?thesis by simp
qed

lemma conn_whole_lines:
  assumes "\<forall>l \<in> set ls. l \<noteq> [] \<and> length l \<le> 1023 \<and> nul \<notin> set l" and "cin_lines i = ls @ rest"
  shows "Lts.run tcp_conn_step (tcp_conn_start i) (concat (map (\<lambda>l. [Line_typed l, Line_printed (echo_line l)]) ls))
     (tcp_conn_start (i\<lparr>cin_lines := rest\<rparr>))"
  using assms
proof (induction ls arbitrary: i)
  case Nil
  then have "i\<lparr>cin_lines := rest\<rparr> = i" by simp
  then show ?case by (simp add: run_nil)
next
  case (Cons l ls)
  have 1: "Lts.run tcp_conn_step (tcp_conn_start i) [Line_typed l, Line_printed (echo_line l)]
      (tcp_conn_start (i\<lparr>cin_lines := ls @ rest\<rparr>))"
    by (rule conn_whole_line) (use Cons.prems in simp_all)
  have "Lts.run tcp_conn_step (tcp_conn_start (i\<lparr>cin_lines := ls @ rest\<rparr>))
      (concat (map (\<lambda>l. [Line_typed l, Line_printed (echo_line l)]) ls)) (tcp_conn_start (i\<lparr>cin_lines := rest\<rparr>))"
    using Cons.IH [of "i\<lparr>cin_lines := ls @ rest\<rparr>"] Cons.prems(1) by simp
  from run_trans [OF this 1] show ?case by simp
qed

text \<open>
  C25. Whatever pieces the streams are cut into, as long as no zero byte is typed, the texts the
  client prints after \<open>server echo #\<close>, put together, followed by the bytes under way, are the lines
  typed put together: nothing is lost, repeated or reordered. While the server serves and no empty
  line is typed, client or server can always go on. A client that waits with nothing under way has
  just sent an empty line, and then nothing can happen any more until the server's \<open>read\<close> fails.
  Lines of 1 to 1023 bytes can come back whole, each printed after it was typed; and after them an
  empty line ends the session in that silence.
\<close>

theorem tcp_connection_echoes:
  assumes "Lts.run tcp_conn_step (tcp_conn_start i) es c" and "\<forall>l \<in> set (typed_lines es). nul \<notin> set l"
  shows "(\<exists>bs. printed_lines es = map (\<lambda>b. ''server echo # '' @ b @ [CHR 0x0A]) bs \<and>
       concat bs @ cn_down c @ cn_up c = concat (typed_lines es)) \<and>
     (cn_serving c \<and> cn_pc c \<in> {Cl_getline, Cl_recv} \<and> [] \<notin> set (typed_lines es) \<longrightarrow>
       (\<exists>l c'. tcp_conn_step c l c' \<and> cn_serving c')) \<and>
     (cn_serving c \<and> cn_pc c = Cl_recv \<and> cn_down c = [] \<and> cn_up c = [] \<longrightarrow>
       typed_lines es \<noteq> [] \<and> last (typed_lines es) = [] \<and>
       (\<forall>l c'. tcp_conn_step c l c' \<longrightarrow> \<not> cn_serving c')) \<and>
     (\<forall>ls rest. cin_lines i = ls @ [] # rest \<and> (\<forall>l \<in> set ls. l \<noteq> [] \<and> length l \<le> 1023 \<and> nul \<notin> set l) \<longrightarrow>
       (\<exists>c1 c2. Lts.run tcp_conn_step (tcp_conn_start i)
           (concat (map (\<lambda>l. [Line_typed l, Line_printed (''server echo # '' @ l @ [CHR 0x0A])]) ls)) c1 \<and>
         tcp_conn_step c1 (Some (Line_typed [])) c2 \<and> cn_serving c2 \<and>
         (\<forall>l c'. tcp_conn_step c2 l c' \<longrightarrow> \<not> cn_serving c')))"
proof -
  have inv: "conn_inv es c" by (rule conn_run_inv [OF assms])
  have 1: "\<exists>bs. printed_lines es = map (\<lambda>b. ''server echo # '' @ b @ [CHR 0x0A]) bs \<and>
       concat bs @ cn_down c @ cn_up c = concat (typed_lines es)"
    using inv by (auto simp: conn_inv_def conn_bytes_def echo_line_def [abs_def])
  have 2: "\<exists>l c'. tcp_conn_step c l c' \<and> cn_serving c'"
    if "cn_serving c \<and> cn_pc c \<in> {Cl_getline, Cl_recv} \<and> [] \<notin> set (typed_lines es)"
    by (rule conn_progress [OF inv assms(2)]) (use that in auto)
  have 3: "typed_lines es \<noteq> [] \<and> last (typed_lines es) = [] \<and> (\<forall>l c'. tcp_conn_step c l c' \<longrightarrow> \<not> cn_serving c')"
    if "cn_serving c \<and> cn_pc c = Cl_recv \<and> cn_down c = [] \<and> cn_up c = []"
    using inv that conn_silent [of c] by (auto simp: conn_inv_def conn_counts_def)
  have 4: "\<exists>c1 c2. Lts.run tcp_conn_step (tcp_conn_start i)
         (concat (map (\<lambda>l. [Line_typed l, Line_printed (''server echo # '' @ l @ [CHR 0x0A])]) ls)) c1 \<and>
       tcp_conn_step c1 (Some (Line_typed [])) c2 \<and> cn_serving c2 \<and>
       (\<forall>l c'. tcp_conn_step c2 l c' \<longrightarrow> \<not> cn_serving c')"
    if "cin_lines i = ls @ [] # rest \<and> (\<forall>l \<in> set ls. l \<noteq> [] \<and> length l \<le> 1023 \<and> nul \<notin> set l)" for ls rest
  proof -
    let ?c1 = "tcp_conn_start (i\<lparr>cin_lines := [] # rest\<rparr>)"
    let ?c2 = "(tcp_conn_start (i\<lparr>cin_lines := rest\<rparr>))\<lparr>cn_pc := Cl_recv\<rparr>"
    have "tcp_conn_step ?c1 (Some (Line_typed [])) ?c2"
      using tcp_conn_step.send_line [of ?c1 "[]" "i\<lparr>cin_lines := rest\<rparr>"]
      by (simp add: tcp_conn_start_def getline_def)
    moreover have "cn_serving ?c2" by (simp add: tcp_conn_start_def)
    moreover have "\<not> cn_serving c'" if "tcp_conn_step ?c2 l c'" for l c'
      using conn_silent [OF that] by (simp add: tcp_conn_start_def)
    moreover have "Lts.run tcp_conn_step (tcp_conn_start i)
        (concat (map (\<lambda>l. [Line_typed l, Line_printed (''server echo # '' @ l @ [CHR 0x0A])]) ls)) ?c1"
      using conn_whole_lines [of ls i "[] # rest"] that unfolding echo_line_def by blast
    ultimately show ?thesis by blast
  qed
  from 1 2 3 4 show ?thesis by blast
qed

text \<open>
  "hello" is sent, read in two pieces and received in two: the client prints "hel" for it and is a
  line behind from there on.
\<close>

theorem tcp_connection_echoes_witness:
  "\<exists>c. Lts.run tcp_conn_step (tcp_conn_start \<lparr>cin_lines = [''hello''], cin_rest = [], cin_eof = False\<rparr>)
       [Line_typed ''hello'', Line_printed (''server echo # hel'' @ [CHR 0x0A])] c \<and>
     ''hel'' @ cn_down c @ cn_up c = ''hello'' \<and> (\<exists>l c'. tcp_conn_step c l c' \<and> cn_serving c')"
proof -
  let ?i = "\<lparr>cin_lines = [''hello''], cin_rest = [], cin_eof = False\<rparr>"
  let ?j = "\<lparr>cin_lines = [], cin_rest = [], cin_eof = False\<rparr>"
  let ?c1 = "\<lparr>cn_cin = ?j, cn_pc = Cl_recv, cn_up = ''hello'', cn_down = [], cn_serving = True\<rparr>"
  let ?c2 = "\<lparr>cn_cin = ?j, cn_pc = Cl_recv, cn_up = ''lo'', cn_down = ''hel'', cn_serving = True\<rparr>"
  let ?c3 = "\<lparr>cn_cin = ?j, cn_pc = Cl_getline, cn_up = ''lo'', cn_down = [], cn_serving = True\<rparr>"
  have 1: "tcp_conn_step (tcp_conn_start ?i) (Some (Line_typed ''hello'')) ?c1"
    using tcp_conn_step.send_line [of "tcp_conn_start ?i" "''hello''" ?j] by (simp add: tcp_conn_start_def getline_def)
  have 2: "tcp_conn_step ?c1 None ?c2" using conn_reads [of ?c1 "''hel''" "''lo''"] by (simp add: nul_def)
  have 3: "tcp_conn_step ?c2 (Some (Line_printed (''server echo # hel'' @ [CHR 0x0A]))) ?c3"
    using conn_recvs [of ?c2 "''hel''" "[]"] tcp_client_print_echo [of "''hel''"] by (simp add: nul_def echo_line_def)
  have "Lts.run tcp_conn_step (tcp_conn_start ?i)
      ([Line_typed ''hello''] @ [Line_printed (''server echo # hel'' @ [CHR 0x0A])]) ?c3"
    by (rule run_vis [OF run_tau [OF run_one_vis]]) (fact 1, fact 2, fact 3)
  then have r: "Lts.run tcp_conn_step (tcp_conn_start ?i)
      [Line_typed ''hello'', Line_printed (''server echo # hel'' @ [CHR 0x0A])] ?c3" by simp
  from tcp_connection_echoes [OF r] have "\<exists>l c'. tcp_conn_step ?c3 l c' \<and> cn_serving c'" by (simp add: nul_def)
  with r show ?thesis by (intro exI [of _ ?c3]) simp
qed

end
