(* ===== verification/Tcp_Versions.thy ===== *)
theory Tcp_Versions
  imports Tcp_Echo
begin

text \<open>
  The earlier versions of the TCP server, which \<open>tcp_server.hpp\<close> keeps beside the thread pool
  and tcp_backup_1 runs: a process per connection with \<open>SIGCHLD\<close> ignored, a grandchild per
  connection, and a detached thread per connection. What an accepted connection does to the
  server process: its descriptors, whether it can accept the next one, and what it takes
  with it when its \<open>write\<close> meets a closed peer.
\<close>

datatype version = Fork_ignore | Fork_twice | Thread_each

text \<open>
  The server process: its open descriptors, the connections being served (by whichever process
  or thread), the child it waits for, and whether it still runs.
\<close>

record tcp_proc =
  tp_fds :: "int set"
  tp_conns :: "tcp_task list"
  tp_waits :: "tcp_task option"
  tp_alive :: bool

definition tcp_proc_start :: "int set \<Rightarrow> tcp_proc" where
  "tcp_proc_start fds = \<lparr>tp_fds = fds, tp_conns = [], tp_waits = None, tp_alive = True\<rparr>"

text \<open>
  What reaches the server: \<open>accept\<close> returns a socket or a negative number, then \<open>pid\<close> is what
  \<open>fork\<close> returns to the parent or what \<open>pthread_create\<close> returns, \<open>pid2\<close> what the child's own
  \<open>fork\<close> returns to it; or the service of a connection ends.
\<close>

datatype tcp_input = Accepted int sockaddr_in int int | Service_end tcp_task svc_end

text \<open>
  Where the second \<open>fork\<close> fails the child serves the connection itself, and the parent stays in
  \<open>waitpid\<close>, before it closes its copy of the socket.
\<close>

definition accept_round :: "version \<Rightarrow> int \<Rightarrow> sockaddr_in \<Rightarrow> int \<Rightarrow> int \<Rightarrow> tcp_proc \<Rightarrow> tcp_proc" where
  "accept_round v service_sock src pid pid2 s =
     (if service_sock < 0 then s
      else
        let tsk = tcp_Task_ctor service_sock (inet_ntoa (sin_addr src)) (ntohs (sin_port src));
            opened = s\<lparr>tp_fds := insert service_sock (tp_fds s)\<rparr>;
            closed = (\<lambda>u. u\<lparr>tp_fds := tp_fds u - {service_sock}\<rparr>);
            serves = (\<lambda>u. u\<lparr>tp_conns := tp_conns u @ [tsk]\<rparr>) in
        case v of
          Fork_ignore \<Rightarrow> closed (if 0 < pid then serves opened else opened)
        | Fork_twice \<Rightarrow>
            if pid < 0 then closed opened
            else if 0 < pid2 then closed (serves opened)
            else (serves opened)\<lparr>tp_waits := Some tsk\<rparr>
        | Thread_each \<Rightarrow> (if pid = 0 then serves opened else opened))"

text \<open>
  A child that returns from \<open>service\<close> exits, a thread has closed the socket in \<open>service\<close>; a
  process killed by \<open>SIGPIPE\<close> ends alone, a thread takes the server with it.
\<close>

definition end_round :: "version \<Rightarrow> tcp_task \<Rightarrow> svc_end \<Rightarrow> tcp_proc \<Rightarrow> tcp_proc" where
  "end_round v tsk e s =
     (let gone = s\<lparr>tp_conns := remove1 tsk (tp_conns s)\<rparr> in
      if v = Thread_each then
        (if e = Killed then s\<lparr>tp_fds := {}, tp_conns := [], tp_alive := False\<rparr>
         else gone\<lparr>tp_fds := tp_fds s - {tt_sock tsk}\<rparr>)
      else if tp_waits s = Some tsk
      then gone\<lparr>tp_waits := None, tp_fds := tp_fds s - {tt_sock tsk}\<rparr> else gone)"

text \<open>
  A server that waits for its child is not in \<open>accept\<close>, which gives a descriptor that is free;
  a service ends by returning or by being killed.
\<close>

definition tcp_proc_step :: "version \<Rightarrow> tcp_input \<Rightarrow> tcp_proc \<Rightarrow> tcp_proc option" where
  "tcp_proc_step v i s =
     (if \<not> tp_alive s then None
      else
        case i of
          Accepted sock src pid pid2 \<Rightarrow>
            if tp_waits s = None \<and> sock \<notin> tp_fds s then Some (accept_round v sock src pid pid2 s) else None
        | Service_end tsk e \<Rightarrow>
            if tsk \<in> set (tp_conns s) \<and> e \<in> {Returns, Killed} then Some (end_round v tsk e s) else None)"

fun tcp_proc_run :: "version \<Rightarrow> tcp_input list \<Rightarrow> tcp_proc \<Rightarrow> tcp_proc option" where
  "tcp_proc_run v [] s = Some s"
| "tcp_proc_run v (i # is) s =
     (case tcp_proc_step v i s of None \<Rightarrow> None | Some s' \<Rightarrow> tcp_proc_run v is s')"

section \<open>Processes\<close>

definition fork_inv :: "int set \<Rightarrow> tcp_proc \<Rightarrow> bool" where
  "fork_inv fds s \<longleftrightarrow> tp_alive s \<and>
     (case tp_waits s of
        None \<Rightarrow> tp_fds s = fds
      | Some tsk \<Rightarrow> tsk \<in> set (tp_conns s) \<and> tt_sock tsk \<notin> fds \<and> tp_fds s = insert (tt_sock tsk) fds)"

lemma in_set_remove1_ne: "x \<in> set xs \<Longrightarrow> x \<noteq> y \<Longrightarrow> x \<in> set (remove1 y xs)"
  by (induction xs) auto

lemma fork_step_inv:
  assumes "v \<noteq> Thread_each" and "fork_inv fds s" and "tcp_proc_step v i s = Some s'"
  shows "fork_inv fds s'"
proof (cases i)
  case (Accepted sock src pid pid2)
  with assms show ?thesis
    by (cases v) (auto simp: tcp_proc_step_def accept_round_def Let_def fork_inv_def tcp_Task_ctor_def
        split: if_splits)
next
  case (Service_end tsk e)
  with assms show ?thesis
    by (auto simp: tcp_proc_step_def end_round_def Let_def fork_inv_def in_set_remove1_ne
        split: if_splits option.splits)
qed

section \<open>Threads\<close>

text \<open>The sockets of the connections for which \<open>pthread_create\<close> failed.\<close>

fun leaked :: "tcp_input list \<Rightarrow> int set" where
  "leaked [] = {}"
| "leaked (Accepted sock src pid pid2 # is) = (if 0 \<le> sock \<and> pid \<noteq> 0 then insert sock (leaked is) else leaked is)"
| "leaked (Service_end tsk e # is) = leaked is"

definition thread_inv :: "int set \<Rightarrow> tcp_proc \<Rightarrow> bool" where
  "thread_inv fds s \<longleftrightarrow> tp_waits s = None \<and> distinct (map tt_sock (tp_conns s)) \<and>
     (if tp_alive s
      then tp_fds s = fds \<union> tt_sock ` set (tp_conns s) \<and> (\<forall>tsk \<in> set (tp_conns s). tt_sock tsk \<notin> fds)
      else tp_fds s = {} \<and> tp_conns s = [])"

lemma remove1_socks:
  "distinct (map tt_sock ts) \<Longrightarrow> t \<in> set ts \<Longrightarrow>
   tt_sock ` set (remove1 t ts) = tt_sock ` set ts - {tt_sock t} \<and> distinct (map tt_sock (remove1 t ts))"
proof (induction ts)
  case (Cons a ts)
  then show ?case by (cases "a = t") (auto dest: notin_set_remove1 simp: image_iff)
qed simp

lemma thread_step_inv:
  assumes "thread_inv fds s" and "tcp_proc_step Thread_each i s = Some s'"
  shows "thread_inv (fds \<union> leaked [i]) s'"
proof (cases i)
  case (Accepted sock src pid pid2)
  with assms show ?thesis
    by (auto simp: tcp_proc_step_def accept_round_def Let_def thread_inv_def tcp_Task_ctor_def split: if_splits)
next
  case (Service_end tsk e)
  with assms have t: "tp_alive s" "tsk \<in> set (tp_conns s)" "s' = end_round Thread_each tsk e s"
    by (auto simp: tcp_proc_step_def split: if_splits)
  from assms(1) t have d: "distinct (map tt_sock (tp_conns s))" by (simp add: thread_inv_def)
  from remove1_socks [OF d t(2)] assms(1) t Service_end show ?thesis
    by (auto simp: end_round_def Let_def thread_inv_def)
qed

lemma leaked_Cons: "leaked (i # is) = leaked [i] \<union> leaked is"
  by (cases i) auto

lemma thread_run_inv: "tcp_proc_run Thread_each is s = Some s' \<Longrightarrow> thread_inv fds s \<Longrightarrow> thread_inv (fds \<union> leaked is) s'"
proof (induction "is" arbitrary: s fds)
  case (Cons i "is")
  then obtain u where u: "tcp_proc_step Thread_each i s = Some u" "tcp_proc_run Thread_each is u = Some s'"
    by (auto split: option.splits)
  from Cons.IH [OF u(2) thread_step_inv [OF Cons.prems(2) u(1)]]
  show ?case using leaked_Cons [of i "is"] by (simp add: Un_assoc)
qed simp

lemma fork_run_inv:
  "tcp_proc_run v is s = Some s' \<Longrightarrow> v \<noteq> Thread_each \<Longrightarrow> fork_inv fds s \<Longrightarrow> fork_inv fds s'"
  by (induction "is" arbitrary: s) (auto split: option.splits intro: fork_step_inv)

lemma fork_ignore_never_waits:
  "tcp_proc_run Fork_ignore is s = Some s' \<Longrightarrow> tp_waits s = None \<Longrightarrow> tp_waits s' = None"
proof (induction "is" arbitrary: s)
  case (Cons i "is")
  then obtain u where u: "tcp_proc_step Fork_ignore i s = Some u" "tcp_proc_run Fork_ignore is u = Some s'"
    by (auto split: option.splits)
  with Cons.prems(2) have "tp_waits u = None"
    by (cases i) (auto simp: tcp_proc_step_def accept_round_def end_round_def Let_def split: if_splits)
  with Cons.IH u(2) show ?case by blast
qed simp

text \<open>
  C24. The three versions, from a server with descriptors \<open>fds\<close>, after any inputs. With processes
  the server survives every client and keeps exactly its descriptors; only where the second
  \<open>fork\<close> failed it holds one connection more and accepts nobody until that one ends, which the
  version that ignores \<open>SIGCHLD\<close> never does. With threads it holds the connections being served and those
  whose thread could not be created, for ever; and one write to a closed peer ends it with
  all connections.
\<close>

theorem tcp_versions_descriptors:
  assumes run: "tcp_proc_run v is (tcp_proc_start fds) = Some s"
  shows "(v = Fork_ignore \<longrightarrow> tp_alive s \<and> tp_fds s = fds \<and> tp_waits s = None) \<and>
     (v = Fork_twice \<longrightarrow> tp_alive s \<and>
        (case tp_waits s of
           None \<Rightarrow> tp_fds s = fds
         | Some tsk \<Rightarrow> tsk \<in> set (tp_conns s) \<and> tp_fds s = insert (tt_sock tsk) fds \<and>
             (\<forall>sock src pid pid2. tcp_proc_step v (Accepted sock src pid pid2) s = None))) \<and>
     (v = Thread_each \<and> tp_alive s \<longrightarrow> tp_fds s = fds \<union> leaked is \<union> tt_sock ` set (tp_conns s)) \<and>
     (v = Thread_each \<and> tp_alive s \<longrightarrow>
        (\<forall>tsk \<in> set (tp_conns s). \<exists>s'. tcp_proc_step v (Service_end tsk Killed) s = Some s' \<and>
           \<not> tp_alive s' \<and> tp_conns s' = []))"
proof (cases v)
  case Fork_ignore
  then have "fork_inv fds s"
    using fork_run_inv [OF run, of fds] by (simp add: fork_inv_def tcp_proc_start_def)
  moreover have "tp_waits s = None"
    using fork_ignore_never_waits run Fork_ignore by (simp add: tcp_proc_start_def)
  ultimately show ?thesis using Fork_ignore by (simp add: fork_inv_def)
next
  case Fork_twice
  then have "fork_inv fds s"
    using fork_run_inv [OF run, of fds] by (simp add: fork_inv_def tcp_proc_start_def)
  then show ?thesis using Fork_twice by (auto simp: fork_inv_def tcp_proc_step_def split: option.splits)
next
  case Thread_each
  have "thread_inv fds (tcp_proc_start fds)" by (simp add: thread_inv_def tcp_proc_start_def)
  with thread_run_inv run Thread_each have "thread_inv (fds \<union> leaked is) s" by blast
  then show ?thesis
    using Thread_each by (auto simp: thread_inv_def tcp_proc_step_def end_round_def Let_def split: if_splits)
qed

text \<open>
  A second \<open>fork\<close> that fails, and a thread that cannot be created after one that can.
\<close>

theorem tcp_versions_descriptors_witness:
  "(\<exists>s. tcp_proc_run Fork_twice [Accepted 4 \<lparr>sin_family = 2, sin_port = 0, sin_addr = 0\<rparr> 100 (-1)]
       (tcp_proc_start {0, 3}) = Some s \<and> tp_fds s = {0, 3, 4}) \<and>
   (\<exists>s. tcp_proc_run Thread_each [Accepted 4 \<lparr>sin_family = 2, sin_port = 0, sin_addr = 0\<rparr> 0 0,
         Accepted 5 \<lparr>sin_family = 2, sin_port = 0, sin_addr = 0\<rparr> 11 0]
       (tcp_proc_start {0, 3}) = Some s \<and> tp_fds s = {0, 3, 4, 5})"
proof
  let ?src = "\<lparr>sin_family = 2, sin_port = 0, sin_addr = 0\<rparr> :: sockaddr_in"
  obtain s where r: "tcp_proc_run Fork_twice [Accepted 4 ?src 100 (-1)] (tcp_proc_start {0, 3}) = Some s"
    and w: "\<exists>tsk. tp_waits s = Some tsk \<and> tt_sock tsk = 4"
    by (simp add: tcp_proc_step_def accept_round_def tcp_proc_start_def tcp_Task_ctor_def Let_def)
  from tcp_versions_descriptors [OF r] w have "tp_fds s = insert 4 {0, 3}" by auto
  then have "tp_fds s = {0, 3, 4}" by auto
  with r show "\<exists>s. tcp_proc_run Fork_twice [Accepted 4 ?src 100 (-1)] (tcp_proc_start {0, 3}) = Some s \<and>
      tp_fds s = {0, 3, 4}" by blast
next
  let ?src = "\<lparr>sin_family = 2, sin_port = 0, sin_addr = 0\<rparr> :: sockaddr_in"
  obtain s where r: "tcp_proc_run Thread_each [Accepted 4 ?src 0 0, Accepted 5 ?src 11 0] (tcp_proc_start {0, 3}) = Some s"
    and w: "tp_alive s" "tt_sock ` set (tp_conns s) = {4}"
    by (simp add: tcp_proc_step_def accept_round_def tcp_proc_start_def tcp_Task_ctor_def Let_def)
  from tcp_versions_descriptors [OF r] w have "tp_fds s = {0, 3} \<union> {5} \<union> {4}" by simp
  then have "tp_fds s = {0, 3, 4, 5}" by auto
  with r show "\<exists>s. tcp_proc_run Thread_each [Accepted 4 ?src 0 0, Accepted 5 ?src 11 0] (tcp_proc_start {0, 3}) = Some s \<and>
      tp_fds s = {0, 3, 4, 5}" by blast
qed

section \<open>The service of tcp_backup_1\<close>

text \<open>
  In tcp_backup_1 \<open>service\<close> leaves the socket open, and the child that called it ends: its
  descriptors go with it.
\<close>

fun service_backup ::
  "(int \<Rightarrow> string) \<Rightarrow> string \<Rightarrow> 16 word \<Rightarrow> (read_result \<times> bool) list \<Rightarrow> svc_event list \<times> svc_end" where
  "service_backup strerror ip port [] = ([], Blocks)"
| "service_backup strerror ip port ((Chunk d, open) # rs) =
     (if length d < SERVICE_SIZE then
        (let buffer = d @ [nul];
             out = [Printed (service_line ip port buffer)] in
         if open then
           (let (es, e) = service_backup strerror ip port rs in (out @ Wrote (c_str buffer) # es, e))
         else (out, Killed))
      else ([], Overrun))"
| "service_backup strerror ip port ((Eof, open) # rs) =
     ([Logged NORMAL (c_str ip @ '': '' @ show_nat (unat port) @ '' shutdown, me too!'')], Returns)"
| "service_backup strerror ip port ((Rerr errno, open) # rs) =
     ([Logged ERROR (''read socket error, '' @ show_int errno @ '': '' @ strerror errno)], Returns)"

text \<open>The child's descriptors while it serves, and after it has ended.\<close>

definition backup_child ::
  "(int \<Rightarrow> string) \<Rightarrow> int set \<times> tcp_task \<Rightarrow> (read_result \<times> bool) list \<Rightarrow> svc_event list \<times> int set" where
  "backup_child strerror child rs =
     (case child of (fds, tsk) \<Rightarrow>
        let (es, e) = service_backup strerror (tt_ip tsk) (tt_port tsk) rs
        in (es, if e \<in> {Returns, Killed} then {} else fds))"

text \<open>
  Both services do the same but for the \<open>close\<close> at the end, and a child that has ended holds no
  descriptor, whether its client went away, \<open>read\<close> failed, or \<open>write\<close> killed it.
\<close>

lemma service_versions_agree:
  "service strerror sock ip port rs =
     (let (es, e) = service_backup strerror ip port rs in (es @ (if e = Returns then [Closed sock] else []), e))"
  by (induction strerror ip port rs rule: service_backup.induct) (auto simp: Let_def case_prod_beta)

lemma backup_child_closes:
  "snd (backup_child strerror (fds, tsk) rs) \<noteq> {} \<Longrightarrow>
   snd (service strerror (tt_sock tsk) (tt_ip tsk) (tt_port tsk) rs) \<in> {Blocks, Overrun}"
  by (cases "snd (service_backup strerror (tt_ip tsk) (tt_port tsk) rs)")
    (auto simp: backup_child_def service_versions_agree case_prod_beta Let_def split: if_splits)

end
