(* ===== verification/Process_Pool.thy ===== *)
theory Process_Pool
  imports Prelude
begin

text \<open>
  The process pool of 1119/processPool: a parent that creates five children, each reading
  4-byte commands from a pipe of its own, and sends random commands to random children.
  The table of tasks, the command bytes, the child's loop, the creation loop with its file
  descriptors and the shutdown are modelled; a process is its descriptor table and its
  place in its loop. Writes of 4 bytes to a pipe are atomic (POSIX), so a read of 4 bytes
  gives a whole command.
\<close>

section \<open>Task.hpp\<close>

datatype handler = ReadMySQL | ExeculeUrl | Cal | Save

text \<open>The texts are UTF-8, as they lie in the source.\<close>

definition task_text :: "handler \<Rightarrow> string" where
  "task_text h =
     (case h of
        ReadMySQL \<Rightarrow> map char_of
          [0xE8, 0xAE, 0xBF, 0xE9, 0x97, 0xAE, 0xE6, 0x95, 0xB0, 0xE6, 0x8D, 0xAE, 0xE5, 0xBA, 0x93,
           0xE7, 0x9A, 0x84, 0xE4, 0xBB, 0xBB, 0xE5, 0x8A, 0xA1 :: nat]
      | ExeculeUrl \<Rightarrow> map char_of [0xE6, 0x89, 0xA7, 0xE8, 0xA1, 0x8C :: nat] @ ''Url'' @
          map char_of [0xE8, 0xA7, 0xA3, 0xE6, 0x9E, 0x90 :: nat]
      | Cal \<Rightarrow> map char_of
          [0xE6, 0x89, 0xA7, 0xE8, 0xA1, 0x8C, 0xE5, 0x8A, 0xA0, 0xE5, 0xAF, 0x86, 0xE4, 0xBB, 0xBB,
           0xE5, 0x8A, 0xA1 :: nat]
      | Save \<Rightarrow> map char_of
          [0xE6, 0x89, 0xA7, 0xE8, 0xA1, 0x8C, 0xE6, 0x95, 0xB0, 0xE6, 0x8D, 0xAE, 0xE6, 0x8C, 0x81,
           0xE4, 0xB9, 0x85, 0xE5, 0x8C, 0x96, 0xE4, 0xBB, 0xBB, 0xE5, 0x8A, 0xA1 :: nat])"

text \<open>What a handler prints in the process \<open>pid\<close>.\<close>

definition handler_output :: "handler \<Rightarrow> int \<Rightarrow> string" where
  "handler_output h pid =
     ''process[ '' @ show_int pid @ '' ] '' @ task_text h @ [CHR 0x0A, CHR 0x0A]"

record task_table =
  callbacks :: "handler list"
  desc :: "nat \<Rightarrow> string option"

text \<open>\<open>desc.insert\<close> keeps an entry that is already there.\<close>

definition desc_insert :: "nat \<Rightarrow> string \<Rightarrow> task_table \<Rightarrow> task_table" where
  "desc_insert k d t =
     (if desc t k = None then t\<lparr>desc := (desc t)(k \<mapsto> d)\<rparr> else t)"

definition add_handler :: "string \<Rightarrow> handler \<Rightarrow> task_table \<Rightarrow> task_table" where
  "add_handler d h t =
     (let t' = desc_insert (length (callbacks t)) d t in t'\<lparr>callbacks := callbacks t' @ [h]\<rparr>)"

definition load :: "task_table \<Rightarrow> task_table" where
  "load t =
     add_handler (''save: '' @ task_text Save) Save
      (add_handler (''cal: '' @ task_text Cal) Cal
       (add_handler (''execuleUrl: '' @ task_text ExeculeUrl) ExeculeUrl
        (add_handler (''readMySQL: '' @ task_text ReadMySQL) ReadMySQL t)))"

definition handlerSize :: "task_table \<Rightarrow> int" where
  "handlerSize t = int (length (callbacks t))"

text \<open>
  \<open>desc\<close> is an \<open>unordered_map\<close>: \<open>ord\<close> is the order in which it goes through its keys, which the
  language leaves open.
\<close>

definition showHandler :: "nat list \<Rightarrow> task_table \<Rightarrow> (nat \<times> string) list" where
  "showHandler ord t = List.map_filter (\<lambda>k. map_option (\<lambda>d. (k, d)) (desc t k)) ord"

definition empty_table :: task_table where
  "empty_table = \<lparr>callbacks = [], desc = (\<lambda>_. None)\<rparr>"

lemma load_callbacks [simp]: "callbacks (load t) = callbacks t @ [ReadMySQL, ExeculeUrl, Cal, Save]"
  by (simp add: load_def add_handler_def desc_insert_def Let_def)

lemma callbacks_add_handler [simp]: "callbacks (add_handler d h t) = callbacks t @ [h]"
  by (simp add: add_handler_def desc_insert_def Let_def)

section \<open>Commands on a pipe\<close>

text \<open>A \<open>uint32_t\<close> as it lies in memory, least significant byte first.\<close>

definition command_bytes :: "32 word \<Rightarrow> byte list" where
  "command_bytes w =
     [char_of (unat w mod 256), char_of (unat w div 256 mod 256),
      char_of (unat w div 65536 mod 256), char_of (unat w div 16777216 mod 256)]"

definition bytes_command :: "byte list \<Rightarrow> 32 word" where
  "bytes_command bs =
     of_nat (of_char (bs ! 0) + 256 * of_char (bs ! 1) + 65536 * of_char (bs ! 2) +
             16777216 * of_char (bs ! 3))"

lemma length_command_bytes [simp]: "length (command_bytes w) = 4"
  by (simp add: command_bytes_def)

lemma bytes_command_inverse [simp]: "bytes_command (command_bytes w) = w"
proof -
  define n where "n = unat w"
  have n: "n < 4294967296" using unsigned_less [of w, where 'a = nat] by (simp add: n_def)
  have "bytes_command (command_bytes w) = of_nat (n mod 256 + 256 * (n div 256 mod 256) +
      65536 * (n div 65536 mod 256) + 16777216 * (n div 16777216 mod 256))"
    unfolding bytes_command_def command_bytes_def n_def [symmetric]
    by (simp del: of_nat_add of_nat_mult)
  also have "\<dots> = of_nat n" using base256_split [OF n] by (rule arg_cong [OF sym])
  also have "\<dots> = w" by (simp add: n_def)
  finally show ?thesis .
qed

text \<open>
  \<open>__waitCommand\<close> on a pipe with the bytes \<open>bs\<close> in it, \<open>open\<close> when some process still has
  its write end: the command and the bytes left, the end of the file, a read that blocks, or
  the failing \<open>assert\<close> on a short read.
\<close>

datatype wait_result = Command int "byte list" | Quit | Wait_blocks | Assert_fails

definition waitCommand :: "byte list \<Rightarrow> bool \<Rightarrow> wait_result" where
  "waitCommand bs open =
     (if bs = [] then (if open then Wait_blocks else Quit)
      else if length bs < 4 then Assert_fails
      else Command (sint (bytes_command (take 4 bs))) (drop 4 bs))"

text \<open>The loop of a child.\<close>

datatype child_event = Called handler | Illegal int

datatype child_end = Waits | Exits nat | Aborts

function child_loop :: "task_table \<Rightarrow> byte list \<Rightarrow> bool \<Rightarrow> child_event list \<times> child_end" where
  "child_loop t bs open =
     (case waitCommand bs open of
        Quit \<Rightarrow> ([], Exits 1)
      | Wait_blocks \<Rightarrow> ([], Waits)
      | Assert_fails \<Rightarrow> ([], Aborts)
      | Command command bs' \<Rightarrow>
          (let e = (if 0 \<le> command \<and> command < handlerSize t
                    then Called (callbacks t ! nat command) else Illegal command);
               (es, end) = child_loop t bs' open
           in (e # es, end)))"
  by pat_completeness auto
termination
  by (relation "measure (\<lambda>(t, bs, open). length bs)") (auto simp: waitCommand_def split: if_splits)

declare child_loop.simps [simp del]

lemma child_loop_Nil [simp]: "child_loop t [] open = ([], if open then Waits else Exits 1)"
  by (simp add: child_loop.simps waitCommand_def)

lemma child_loop_command:
  "child_loop t (command_bytes w @ bs) open =
     ((if 0 \<le> sint w \<and> sint w < handlerSize t then Called (callbacks t ! nat (sint w))
       else Illegal (sint w)) # fst (child_loop t bs open),
      snd (child_loop t bs open))"
proof -
  have "command_bytes w \<noteq> []" by (metis length_command_bytes list.size(3) zero_neq_numeral)
  then show ?thesis
    by (subst child_loop.simps) (simp add: waitCommand_def case_prod_beta Let_def)
qed

section \<open>Dispatching\<close>

definition PROCESS_NUM :: nat where "PROCESS_NUM = 5"

text \<open>
  The parent's round from two results of \<open>rand()\<close>: a command and a child. A pipe is the
  bytes in it.
\<close>

definition sendAndWakeUp :: "nat \<Rightarrow> 32 word \<Rightarrow> (nat \<Rightarrow> byte list) \<Rightarrow> nat \<Rightarrow> byte list" where
  "sendAndWakeUp choice command pipes = pipes(choice := pipes choice @ command_bytes command)"

definition dispatch ::
  "task_table \<Rightarrow> nat \<Rightarrow> nat \<times> nat \<Rightarrow> (nat \<Rightarrow> byte list) \<Rightarrow> nat \<Rightarrow> byte list" where
  "dispatch t slots = (\<lambda>(r1, r2) pipes.
     (let command = int r1 mod handlerSize t; choice = r2 mod slots
      in sendAndWakeUp choice (word_of_int command) pipes))"

definition dispatch_all :: "task_table \<Rightarrow> nat \<Rightarrow> (nat \<times> nat) list \<Rightarrow> nat \<Rightarrow> byte list" where
  "dispatch_all t slots rs = foldl (\<lambda>p r. dispatch t slots r p) (\<lambda>_. []) rs"

text \<open>The handlers sent to child \<open>k\<close>, in order.\<close>

definition sent_to :: "task_table \<Rightarrow> nat \<Rightarrow> nat \<Rightarrow> (nat \<times> nat) list \<Rightarrow> handler list" where
  "sent_to t slots k rs =
     map (\<lambda>(r1, r2). callbacks t ! (r1 mod length (callbacks t)))
       (filter (\<lambda>(r1, r2). r2 mod slots = k) rs)"

lemma dispatch_pipe:
  "dispatch_all t slots rs k =
     concat (map (\<lambda>(r1, r2). command_bytes (word_of_int (int r1 mod handlerSize t)))
       (filter (\<lambda>(r1, r2). r2 mod slots = k) rs))"
proof (induction rs rule: rev_induct)
  case Nil
  then show ?case by (simp add: dispatch_all_def)
next
  case (snoc r rs)
  then show ?case
    by (cases r) (auto simp: dispatch_all_def dispatch_def sendAndWakeUp_def Let_def)
qed

lemma sint_small: "0 \<le> i \<Longrightarrow> i < 2 ^ 31 \<Longrightarrow> sint (word_of_int i :: 32 word) = i"
  by (simp add: signed_of_int signed_take_bit_int_eq_self)

lemma child_runs_legal:
  assumes "0 < length (callbacks t)" and "length (callbacks t) < 2 ^ 31"
  shows "child_loop t (concat (map (\<lambda>(r1, r2). command_bytes (word_of_int (int r1 mod handlerSize t))) rs)) open =
     (map (\<lambda>(r1, r2). Called (callbacks t ! (r1 mod length (callbacks t)))) rs,
      if open then Waits else Exits 1)"
proof (induction rs)
  case Nil
  then show ?case by simp
next
  case (Cons r rs)
  obtain r1 r2 where r: "r = (r1, r2)" by (cases r)
  have m: "0 \<le> int r1 mod handlerSize t" "int r1 mod handlerSize t < handlerSize t"
    using assms(1) by (simp_all add: handlerSize_def)
  then have s: "sint (word_of_int (int r1 mod handlerSize t) :: 32 word) = int r1 mod handlerSize t"
    using assms(2) by (intro sint_small) (simp_all add: handlerSize_def)
  have n: "nat (int r1 mod handlerSize t) = r1 mod length (callbacks t)"
    by (simp add: handlerSize_def nat_mod_distrib)
  show ?case using Cons.IH m s n by (simp add: r child_loop_command)
qed

text \<open>
  Whatever the random numbers, each child executes exactly the commands sent to it, in
  the order sent, all of them legal, and then waits for the next one, or exits with status 1
  once the write end is closed.
\<close>

theorem process_pool_executes_what_was_sent:
  "child_loop (load empty_table) (dispatch_all (load empty_table) PROCESS_NUM rs k) open =
     (map Called (sent_to (load empty_table) PROCESS_NUM k rs), if open then Waits else Exits 1)"
  unfolding dispatch_pipe
  by (subst child_runs_legal) (auto simp: empty_table_def sent_to_def case_prod_beta)

text \<open>
  The child's test protects the table: a command word outside the table, as a signed
  number negative or too large, calls nothing and is reported; a command that arrives in
  less than 4 bytes stops the child at its \<open>assert\<close>.
\<close>

theorem process_pool_rejects_illegal_command:
  "(fst (child_loop t (command_bytes w) open) = [Illegal (sint w)] \<longleftrightarrow>
      sint w < 0 \<or> int (length (callbacks t)) \<le> sint w) \<and>
   (0 < length bs \<and> length bs < 4 \<longrightarrow> child_loop t bs open = ([], Aborts))"
proof -
  have "child_loop t (command_bytes w @ []) open =
      ([if 0 \<le> sint w \<and> sint w < handlerSize t then Called (callbacks t ! nat (sint w))
        else Illegal (sint w)], if open then Waits else Exits 1)"
    by (subst child_loop_command) simp
  then have "fst (child_loop t (command_bytes w) open) =
      [if 0 \<le> sint w \<and> sint w < handlerSize t then Called (callbacks t ! nat (sint w))
        else Illegal (sint w)]" by simp
  moreover have "0 < length bs \<and> length bs < 4 \<longrightarrow> child_loop t bs open = ([], Aborts)"
    by (subst child_loop.simps) (auto simp: waitCommand_def)
  ultimately show ?thesis by (auto simp: handlerSize_def)
qed

theorem process_pool_rejects_illegal_command_witness:
  "child_loop (load empty_table) [CHR ''x''] True = ([], Aborts)"
  using process_pool_rejects_illegal_command [of "load empty_table" 0 True "[CHR ''x'']"] by simp

section \<open>Creating the children\<close>

text \<open>
  A descriptor table lists descriptors with what they refer to: the terminal, or an end of
  the pipe of child \<open>i\<close>. \<open>pipe\<close> takes the two lowest free numbers, \<open>fork\<close> copies the table.
\<close>

datatype pipe_end = Tty | Rd nat | Wr nat

type_synonym fd_table = "(nat \<times> pipe_end) list"

definition lowest_free :: "fd_table \<Rightarrow> nat" where
  "lowest_free t = hd (filter (\<lambda>i. i \<notin> set (map fst t)) [0..<Suc (length t)])"

definition fd_alloc :: "pipe_end \<Rightarrow> fd_table \<Rightarrow> nat \<times> fd_table" where
  "fd_alloc e t = (lowest_free t, (lowest_free t, e) # t)"

definition fd_close :: "nat \<Rightarrow> fd_table \<Rightarrow> fd_table" where
  "fd_close fd t = filter (\<lambda>p. fst p \<noteq> fd) t"

text \<open>One round of the creation loop: the child's table when it starts its command loop with
  the descriptor it reads, the parent's table and the descriptor of its slot.\<close>

definition create_child :: "nat \<Rightarrow> fd_table \<Rightarrow> (nat \<times> fd_table) \<times> (nat \<times> fd_table)" where
  "create_child i parent =
     (let (r, t1) = fd_alloc (Rd i) parent;
          (w, t2) = fd_alloc (Wr i) t1
      in ((r, fd_close w t2), (w, fd_close r t2)))"

fun create_children :: "nat \<Rightarrow> fd_table \<Rightarrow> (nat \<times> fd_table) list \<times> nat list \<times> fd_table" where
  "create_children 0 t = ([], [], t)"
| "create_children (Suc n) t =
     (let (children, slots, t') = create_children n t;
          (child, w, t'') = create_child n t'
      in (children @ [child], slots @ [w], t''))"

definition tty_table :: fd_table where
  "tty_table = [(2, Tty), (1, Tty), (0, Tty)]"

text \<open>The parent's table after \<open>n\<close> rounds: the write end of pipe \<open>j\<close> is descriptor \<open>4 + j\<close>.\<close>

definition parent_table :: "nat \<Rightarrow> fd_table" where
  "parent_table n = rev (map (\<lambda>j. (4 + j, Wr j)) [0..<n]) @ tty_table"

lemma lowest_free_eq:
  assumes "m \<notin> set (map fst t)" and "\<forall>k < m. k \<in> set (map fst t)" and "m \<le> length t"
  shows "lowest_free t = m"
proof -
  have "[0..<Suc (length t)] = [0..<m] @ [m..<Suc (length t)]"
    using assms(3) upt_add_eq_append [of 0 m "Suc (length t) - m"] by simp
  moreover have "[m..<Suc (length t)] = m # [Suc m..<Suc (length t)]"
    using assms(3) by (simp add: upt_conv_Cons)
  moreover have "filter (\<lambda>i. i \<notin> set (map fst t)) [0..<m] = []"
    using assms(2) by (auto simp: filter_empty_conv)
  ultimately show ?thesis using assms(1) by (simp add: lowest_free_def)
qed

lemma set_parent_table:
  "set (map fst (parent_table n)) = {0, 1, 2} \<union> {4..<4 + n}"
proof -
  have "(\<lambda>j. 4 + j) ` {0..<n} = {4..<4 + n}"
    using image_add_atLeastLessThan [of 4 0 n] by (simp add: add.commute)
  then show ?thesis by (auto simp: parent_table_def tty_table_def image_comp comp_def)
qed

lemma length_parent_table [simp]: "length (parent_table n) = n + 3"
  by (simp add: parent_table_def tty_table_def)

lemma create_child_parent:
  "create_child n (parent_table n) = ((3, (3, Rd n) # parent_table n), (4 + n, parent_table (Suc n)))"
proof -
  have r: "lowest_free (parent_table n) = 3"
    by (rule lowest_free_eq) (auto simp del: set_map simp: set_parent_table)
  have w: "lowest_free ((3, Rd n) # parent_table n) = 4 + n"
    by (rule lowest_free_eq) (auto simp del: set_map simp: set_parent_table)
  have keep: "filter (\<lambda>p. fst p \<noteq> fd) (parent_table n) = parent_table n" if "fd = 3 \<or> fd = 4 + n" for fd
  proof (rule filter_True, rule ballI)
    fix p assume "p \<in> set (parent_table n)"
    then have "fst p \<in> set (map fst (parent_table n))" by simp
    with that show "fst p \<noteq> fd" by (auto simp del: set_map simp: set_parent_table)
  qed
  have k1: "fd_close (4 + n) ((4 + n, Wr n) # (3, Rd n) # parent_table n) = (3, Rd n) # parent_table n"
    using keep [of "4 + n"] by (simp add: fd_close_def)
  have k2: "fd_close 3 ((4 + n, Wr n) # (3, Rd n) # parent_table n) = (4 + n, Wr n) # parent_table n"
    using keep [of 3] by (simp add: fd_close_def)
  show ?thesis
    unfolding create_child_def fd_alloc_def r Let_def case_prod_conv w k1 k2
    by (simp add: parent_table_def)
qed

lemma create_children_tables:
  "create_children n tty_table =
     (map (\<lambda>i. (3, (3, Rd i) # parent_table i)) [0..<n], map (\<lambda>i. 4 + i) [0..<n], parent_table n)"
proof (induction n)
  case 0
  then show ?case by (simp add: parent_table_def)
next
  case (Suc n)
  then show ?case by (simp add: create_child_parent)
qed

lemma writes_parent_table: "(\<exists>fd. (fd, Wr j) \<in> set (parent_table i)) \<longleftrightarrow> j < i"
  by (auto simp: parent_table_def tty_table_def image_iff)

text \<open>
  C26. The creation loop: every child reads its commands from descriptor 3, which is its own
  pipe; the parent keeps one write end per child, in the slots 4, 5, ..., and no read end;
  and child \<open>i\<close> still holds the write ends of all pipes created before its own, which it
  inherited and does not close.
\<close>

theorem process_pool_descriptors:
  "create_children n tty_table = (children, slots, parent) \<Longrightarrow>
   length children = n \<and> slots = [4..<4 + n] \<and>
   (\<forall>i < n. fst (children ! i) = 3 \<and> map_of (snd (children ! i)) 3 = Some (Rd i)) \<and>
   (\<forall>i < n. \<forall>j. (\<exists>fd. (fd, Wr j) \<in> set (snd (children ! i))) \<longleftrightarrow> j < i) \<and>
   (\<forall>j. (\<exists>fd. (fd, Wr j) \<in> set parent) \<longleftrightarrow> j < n) \<and> (\<forall>fd j. (fd, Rd j) \<notin> set parent)"
proof -
  assume c: "create_children n tty_table = (children, slots, parent)"
  have s: "map (\<lambda>i. 4 + i) [0..<n] = [4..<4 + n]"
    using map_add_upt [of 4 n] by (simp add: add.commute)
  have r: "(fd, Rd j) \<notin> set (parent_table n)" for fd j
    by (auto simp: parent_table_def tty_table_def)
  from c have eq: "children = map (\<lambda>i. (3, (3, Rd i) # parent_table i)) [0..<n]"
    "slots = [4..<4 + n]" "parent = parent_table n"
    by (simp_all add: create_children_tables s)
  then show ?thesis using writes_parent_table r by simp
qed

theorem process_pool_descriptors_witness:
  "\<exists>children parent. create_children 5 tty_table = (children, [4..<9], parent) \<and>
     (\<exists>fd. (fd, Wr 0) \<in> set (snd (children ! 4)))"
proof -
  obtain children slots parent where c: "create_children 5 tty_table = (children, slots, parent)"
    by (metis prod_cases3)
  from process_pool_descriptors [OF c] have "slots = [4..<9]" "\<exists>fd. (fd, Wr 0) \<in> set (snd (children ! 4))"
    by auto
  with c show ?thesis by blast
qed

section \<open>Shutting down\<close>

text \<open>
  The children alive and the pipes whose write end the parent still has. A child with an
  empty pipe ends when no process has the write end of its pipe any more.
\<close>

definition write_open :: "(nat \<times> fd_table) list \<Rightarrow> nat set \<Rightarrow> nat set \<Rightarrow> nat \<Rightarrow> bool" where
  "write_open children alive parent_open j \<longleftrightarrow>
     j \<in> parent_open \<or> (\<exists>k \<in> alive. \<exists>fd. (fd, Wr j) \<in> set (snd (children ! k)))"

inductive child_exits :: "(nat \<times> fd_table) list \<Rightarrow> nat set \<Rightarrow> nat set \<Rightarrow> nat set \<Rightarrow> bool"
  for children :: "(nat \<times> fd_table) list" and parent_open :: "nat set" where
  "j \<in> alive \<Longrightarrow> \<not> write_open children alive parent_open j \<Longrightarrow>
   child_exits children parent_open alive (alive - {j})"

inductive exits_star :: "(nat \<times> fd_table) list \<Rightarrow> nat set \<Rightarrow> nat set \<Rightarrow> nat set \<Rightarrow> bool"
  for children :: "(nat \<times> fd_table) list" and parent_open :: "nat set" where
  refl: "exits_star children parent_open alive alive"
| step: "child_exits children parent_open alive alive' \<Longrightarrow>
    exits_star children parent_open alive' alive'' \<Longrightarrow> exits_star children parent_open alive alive''"

lemma write_open_pool:
  assumes c: "create_children n tty_table = (children, slots, parent)" and "alive \<subseteq> {..<n}"
  shows "write_open children alive parent_open j \<longleftrightarrow> j \<in> parent_open \<or> (\<exists>k \<in> alive. j < k)"
proof -
  have "(\<exists>fd. (fd, Wr j) \<in> set (snd (children ! k))) \<longleftrightarrow> j < k" if "k \<in> alive" for k
  proof -
    have "k < n" using that assms(2) by auto
    then have "snd (children ! k) = (3, Rd k) # parent_table k"
      using c by (auto simp: create_children_tables)
    then show ?thesis using writes_parent_table [of j k] by simp
  qed
  then show ?thesis by (auto simp: write_open_def)
qed

lemma exits_subset: "exits_star children parent_open alive alive' \<Longrightarrow> alive' \<subseteq> alive"
  by (induction rule: exits_star.induct) (auto elim: child_exits.cases)

text \<open>
  Closing all write ends and then waiting, as the end of \<open>StartThePool\<close> does, ends: as
  long as a child is alive one can exit, so every way the children exit goes on until none
  is left. Closing one pipe and waiting for its child at once would not: with two or more
  children none could exit, because of the inherited write ends.
\<close>

theorem process_pool_shutdown:
  assumes c: "create_children n tty_table = (children, slots, parent)"
    and ex: "exits_star children {} {..<n} alive"
  shows "(alive \<noteq> {} \<longrightarrow> (\<exists>alive'. child_exits children {} alive alive' \<and> card alive' < card alive)) \<and>
     (2 \<le> n \<longrightarrow> \<not> child_exits children {1..<n} {..<n} (({..<n}) - {0}))"
proof (intro conjI impI)
  have sub: "alive \<subseteq> {..<n}" by (rule exits_subset [OF ex])
  assume ne: "alive \<noteq> {}"
  have fin: "finite alive" using sub finite_subset by blast
  let ?j = "Max alive"
  have j: "?j \<in> alive" using fin ne by simp
  have "\<not> (\<exists>k \<in> alive. ?j < k)" using fin by (metis Max_ge not_le)
  then have "\<not> write_open children alive {} ?j" by (simp add: write_open_pool [OF c sub])
  from child_exits.intros [OF j this] card_Diff1_less [OF fin j]
  show "\<exists>alive'. child_exits children {} alive alive' \<and> card alive' < card alive" by blast
next
  assume n: "2 \<le> n"
  show "\<not> child_exits children {1..<n} {..<n} ({..<n} - {0})"
  proof
    assume "child_exits children {1..<n} {..<n} ({..<n} - {0})"
    then obtain j where "j \<in> {..<n}" and "{..<n} - {0} = {..<n} - {j}"
      and no: "\<not> write_open children {..<n} {1..<n} j"
      by (auto elim: child_exits.cases)
    then have "j = 0" by blast
    moreover have "1 \<in> {..<n}" using n by simp
    ultimately show False using no by (auto simp: write_open_pool [OF c order_refl])
  qed
qed

theorem process_pool_shutdown_witness:
  "\<exists>children slots parent alive'. create_children 5 tty_table = (children, slots, parent) \<and>
     child_exits children {} {..<5} alive'"
proof -
  obtain children slots parent where c: "create_children 5 tty_table = (children, slots, parent)"
    by (metis prod_cases3)
  have "0 \<in> {..<(5::nat)}" by simp
  then have "{..<(5::nat)} \<noteq> {}" by blast
  with process_pool_shutdown [OF c exits_star.refl] c show ?thesis by blast
qed

end
