(* ===== verification/Pool_Menu.thy ===== *)
theory Pool_Menu
  imports Process_Pool "HOL-Library.Multiset"
begin

text \<open>
  The parent of 1119/processPool at its menu (\<open>ProcessPool.cc\<close>, and the same loop in
  \<open>ProcessPool.hpp\<close>): it shows the menu and reads a number; 1 lists the handlers, 2 starts the
  endless dispatching, anything else shows the menu again. A run is observed for a number of
  rounds, since neither loop has an exit.
\<close>

section \<open>The parent's loop\<close>

datatype menu_event = Menu | Listing "(nat \<times> string) list" | Sent string




text \<open>What the events print; the menu is followed by a newline once the number has been read.\<close>

definition menu_text :: string where
  "menu_text =
     ''-------------------------------'' @ [CHR 0x0A] @
     ''-   1. show funcitons     -----'' @ [CHR 0x0A] @
     ''-   2. send funcitons(auto)  --'' @ [CHR 0x0A] @
     ''-------------------------------'' @ [CHR 0x0A] @
     ''please select>: '' @ [CHR 0x0A]"

fun menu_output :: "menu_event \<Rightarrow> string" where
  "menu_output Menu = menu_text @ [CHR 0x0A]"
| "menu_output (Listing hs) = concat (map (\<lambda>(k, d). show_nat k @ [CHR 0x09] @ d @ [CHR 0x0A]) hs)"
| "menu_output (Sent s) = s"

section \<open>What the menu does\<close>










end
