(* ===== verification/Pipe_Ipc.thy ===== *)
theory Pipe_Ipc
  imports Net Lts
begin

text \<open>
  One-way pipes: 1119/pipe/mypipe.cc (a parent that sends ten messages to its child) and
  1126/fifo (a client that sends lines through a named pipe, a server whose three children
  read it). Both are instances of one step relation: a writer with the messages it has still
  to write, the bytes in the pipe, and readers that read in chunks until the end of the file.
  The capacity of the pipe is not modelled; a full pipe only delays the writer.
\<close>

section \<open>A writer and its readers\<close>

record pipe_sys =
  pw_todo :: "byte list list"
  pw_open :: bool
  pw_buf :: "byte list"
  pw_reading :: "bool list"

datatype pipe_event = Got nat "byte list"

definition pipe_start :: "byte list list \<Rightarrow> nat \<Rightarrow> pipe_sys" where
  "pipe_start msgs readers =
     \<lparr>pw_todo = msgs, pw_open = True, pw_buf = [], pw_reading = replicate readers True\<rparr>"

text \<open>\<open>chunk\<close> is the size the readers pass to \<open>read\<close>.\<close>

inductive pipe_step :: "nat \<Rightarrow> pipe_sys \<Rightarrow> pipe_event option \<Rightarrow> pipe_sys \<Rightarrow> bool" for chunk :: nat where
  pwrite:
    "pw_open s \<Longrightarrow> pw_todo s = m # ms \<Longrightarrow>
     pipe_step chunk s None (s\<lparr>pw_todo := ms, pw_buf := pw_buf s @ m\<rparr>)"
| pclose:
    "pw_open s \<Longrightarrow> pw_todo s = [] \<Longrightarrow> pipe_step chunk s None (s\<lparr>pw_open := False\<rparr>)"
| pread:
    "r < length (pw_reading s) \<Longrightarrow> pw_reading s ! r \<Longrightarrow> pw_buf s \<noteq> [] \<Longrightarrow>
     pipe_step chunk s (Some (Got r (take chunk (pw_buf s)))) (s\<lparr>pw_buf := drop chunk (pw_buf s)\<rparr>)"
| peof:
    "r < length (pw_reading s) \<Longrightarrow> pw_reading s ! r \<Longrightarrow> pw_buf s = [] \<Longrightarrow> \<not> pw_open s \<Longrightarrow>
     pipe_step chunk s None (s\<lparr>pw_reading := (pw_reading s)[r := False]\<rparr>)"

fun pipe_exec :: "nat \<Rightarrow> nat option \<Rightarrow> pipe_sys \<Rightarrow> (pipe_event option \<times> pipe_sys) option" where
  "pipe_exec chunk None s =
     (if \<not> pw_open s then None
      else (case pw_todo s of
              [] \<Rightarrow> Some (None, s\<lparr>pw_open := False\<rparr>)
            | m # ms \<Rightarrow> Some (None, s\<lparr>pw_todo := ms, pw_buf := pw_buf s @ m\<rparr>)))"
| "pipe_exec chunk (Some r) s =
     (if r < length (pw_reading s) \<and> pw_reading s ! r then
        (if pw_buf s \<noteq> []
         then Some (Some (Got r (take chunk (pw_buf s))), s\<lparr>pw_buf := drop chunk (pw_buf s)\<rparr>)
         else if pw_open s then None
         else Some (None, s\<lparr>pw_reading := (pw_reading s)[r := False]\<rparr>))
      else None)"

lemma pipe_exec_sound: "pipe_exec chunk c s = Some (l, s') \<Longrightarrow> pipe_step chunk s l s'"
  by (cases "(chunk, c, s)" rule: pipe_exec.cases)
    (auto split: if_splits list.splits intro: pipe_step.intros)

lemma pipe_schedule_run:
  "schedule (pipe_exec chunk) s cs = Some (es, s') \<Longrightarrow> Lts.run (pipe_step chunk) s es s'"
  by (erule schedule_run) (rule pipe_exec_sound)

fun got :: "pipe_event \<Rightarrow> byte list" where "got (Got r d) = d"

text \<open>The pipe as a byte stream: what has been read, then what is in the pipe, then what is
  still to be written, is always the whole message text.\<close>

definition pipe_rest :: "pipe_sys \<Rightarrow> byte list" where
  "pipe_rest s = pw_buf s @ concat (pw_todo s)"

fun stream_step :: "byte list \<Rightarrow> pipe_event \<Rightarrow> byte list option" where
  "stream_step bs (Got r d) =
     (if d \<noteq> [] \<and> take (length d) bs = d then Some (drop (length d) bs) else None)"

lemma stream_run:
  "abs_run stream_step bs es = Some bs' \<Longrightarrow> bs = concat (map got es) @ bs' \<and> [] \<notin> set (map got es)"
proof (induction es arbitrary: bs)
  case Nil
  then show ?case by simp
next
  case (Cons e es)
  obtain r d where e: "e = Got r d" by (cases e)
  with Cons.prems have d: "d \<noteq> []" "take (length d) bs = d"
    and rest: "abs_run stream_step (drop (length d) bs) es = Some bs'"
    by (auto split: if_splits)
  have "bs = d @ drop (length d) bs" using d(2) append_take_drop_id [of "length d" bs] by simp
  with Cons.IH [OF rest] d(1) e show ?case by simp
qed

definition pipe_inv :: "pipe_sys \<Rightarrow> bool" where
  "pipe_inv s \<longleftrightarrow> (\<not> pw_open s \<longrightarrow> pw_todo s = []) \<and>
     ((\<exists>r < length (pw_reading s). \<not> pw_reading s ! r) \<longrightarrow> \<not> pw_open s \<and> pw_buf s = [])"

lemma pipe_step_inv: "pipe_step chunk s l s' \<Longrightarrow> pipe_inv s \<Longrightarrow> pipe_inv s'"
  by (induction rule: pipe_step.induct) (auto simp: pipe_inv_def nth_list_update)

lemma pipe_tau: "pipe_step chunk s None s' \<Longrightarrow> pipe_rest s' = pipe_rest s"
  by (auto simp: pipe_rest_def elim: pipe_step.cases)

lemma pipe_vis:
  "0 < chunk \<Longrightarrow> pipe_step chunk s (Some e) s' \<Longrightarrow> stream_step (pipe_rest s) e = Some (pipe_rest s')"
  by (auto simp: pipe_rest_def min_def elim!: pipe_step.cases)

interpretation pipe: trace_refinement "\<lambda>s. s = pipe_start msgs n" "pipe_step (Suc c)" pipe_inv
  pipe_rest stream_step
  for msgs :: "byte list list" and n c :: nat
  by unfold_locales
    (simp add: pipe_start_def pipe_inv_def, erule (1) pipe_step_inv [rotated], erule pipe_tau,
      rule pipe_vis [OF zero_less_Suc])

text \<open>Every step brings the end nearer.\<close>

definition pipe_measure :: "pipe_sys \<Rightarrow> nat" where
  "pipe_measure s = length (pw_todo s) + length (pipe_rest s) + (if pw_open s then 1 else 0) +
     count_pc (\<lambda>b. b) (pw_reading s)"

lemma pipe_step_decreases:
  assumes "0 < chunk" and "pipe_step chunk s l s'"
  shows "pipe_measure s' < pipe_measure s"
  using assms(2)
proof cases
  case (peof r)
  then show ?thesis
    using count_pc_leave [of r "pw_reading s" "\<lambda>b. b" False] by (simp add: pipe_measure_def pipe_rest_def)
next
  case (pread r)
  then show ?thesis using assms(1) by (cases "pw_buf s") (simp_all add: pipe_measure_def pipe_rest_def)
qed (auto simp: pipe_measure_def pipe_rest_def)

lemma pipe_progress:
  assumes "pipe_inv s" and "r < length (pw_reading s)" and "pw_reading s ! r"
  shows "\<exists>l s'. pipe_step chunk s l s'"
proof (cases "pw_open s")
  case True
  then show ?thesis
    using pipe_step.pwrite [of s] pipe_step.pclose [of s] by (cases "pw_todo s") blast+
next
  case False
  then show ?thesis
    using assms pipe_step.pread [of r s] pipe_step.peof [of r s] by (cases "pw_buf s = []") blast+
qed

lemma pipe_run_stream:
  assumes "Lts.run (pipe_step (Suc c)) (pipe_start msgs n) es s"
  shows "concat msgs = concat (map got es) @ pipe_rest s \<and> [] \<notin> set (map got es)"
proof -
  have "abs_run stream_step (pipe_rest (pipe_start msgs n)) es = Some (pipe_rest s)"
    by (rule pipe.trace_refines [OF refl assms])
  from stream_run [OF this] show ?thesis by (simp add: pipe_rest_def pipe_start_def)
qed

lemma pipe_run_done:
  assumes "Lts.run (pipe_step (Suc c)) (pipe_start msgs n) es s"
    and "r < length (pw_reading s)" and "\<not> pw_reading s ! r"
  shows "concat (map got es) = concat msgs"
proof -
  have "pipe_inv s"
    by (rule pipe.inv_run [OF assms(1)]) (simp add: pipe_start_def pipe_inv_def)
  then have "pipe_rest s = []" using assms(2,3) by (auto simp: pipe_inv_def pipe_rest_def)
  with pipe_run_stream [OF assms(1)] show ?thesis by simp
qed

interpretation pipeb: event_budget "pipe_step (Suc c)" "\<lambda>_. True" pipe_measure for c :: nat
  by unfold_locales (auto intro: pipe_step_decreases less_imp_le)

text \<open>Every run can be brought to its end, where no reader reads any more.\<close>

lemma pipe_step_readers: "pipe_step chunk s l s' \<Longrightarrow> length (pw_reading s') = length (pw_reading s)"
  by (auto elim: pipe_step.cases)

lemma pipe_run_readers: "Lts.run (pipe_step chunk) s es s' \<Longrightarrow> length (pw_reading s') = length (pw_reading s)"
  by (induction rule: run.induct) (auto dest: pipe_step_readers)

lemma pipe_completes:
  assumes "pipe_inv s"
  shows "\<exists>es s'. Lts.run (pipe_step (Suc c)) s es s' \<and> (\<forall>r < length (pw_reading s'). \<not> pw_reading s' ! r)"
  using assms
proof (induction "pipe_measure s" arbitrary: s rule: less_induct)
  case less
  show ?case
  proof (cases "\<exists>r < length (pw_reading s). pw_reading s ! r")
    case False
    then show ?thesis using run_nil [of "pipe_step (Suc c)" s] by blast
  next
    case True
    then obtain l u where st: "pipe_step (Suc c) s l u" using pipe_progress [OF less.prems] by blast
    then have "pipe_measure u < pipe_measure s" by (rule pipe_step_decreases [OF zero_less_Suc])
    from less.hyps [OF this pipe_step_inv [OF st less.prems]] obtain es s' where
      r: "Lts.run (pipe_step (Suc c)) u es s'" "\<forall>r < length (pw_reading s'). \<not> pw_reading s' ! r" by blast
    show ?thesis
    proof (cases l)
      case None
      then show ?thesis using run_trans [OF r(1) run_one_tau] st r(2) by blast
    next
      case (Some e)
      then show ?thesis using run_trans [OF r(1) run_one_vis] st r(2) by blast
    qed
  qed
qed

section \<open>mypipe\<close>

definition mypipe_message :: string where
  "mypipe_message = map char_of
     [0xE6, 0x88, 0x91, 0xE6, 0x98, 0xAF, 0xE7, 0x88, 0xB6, 0xE8, 0xBF, 0x9B, 0xE7, 0xA8, 0x8B,
      0xEF, 0xBC, 0x8C, 0xE6, 0x88, 0x91, 0xE6, 0xAD, 0xA3, 0xE5, 0x9C, 0xA8, 0xE7, 0xBB, 0x99,
      0xE4, 0xBD, 0xA0, 0xE5, 0x8F, 0x91, 0xE6, 0xB6, 0x88, 0xE6, 0x81, 0xAF :: nat]"

text \<open>\<open>snprintf(send_buffer, sizeof(send_buffer), "%s[%d] : %d", ...)\<close>.\<close>

definition father_text :: "int \<Rightarrow> nat \<Rightarrow> string" where
  "father_text pid count =
     c_str (snprintf_buf 1024 (mypipe_message @ ''['' @ show_int pid @ ''] : '' @ show_nat count))"

text \<open>The loop of the parent, which leaves after the tenth message.\<close>

partial_function (option) father_loop :: "int \<Rightarrow> nat \<Rightarrow> byte list list option" where
  "father_loop pid count =
     (if count + 1 = 10 then Some [father_text pid count]
      else Option.bind (father_loop pid (count + 1)) (\<lambda>ms. Some (father_text pid count # ms)))"

text \<open>What the child prints for a chunk, and the chunk size.\<close>

definition child_line :: "int \<Rightarrow> byte list \<Rightarrow> string" where
  "child_line pid d =
     ''child get a message ['' @ show_int pid @ ''] Father# '' @ c_str (d @ [nul]) @ [CHR 0x0A]"

definition mypipe_step :: "pipe_sys \<Rightarrow> pipe_event option \<Rightarrow> pipe_sys \<Rightarrow> bool" where
  "mypipe_step = pipe_step 1023"

definition mypipe_start :: "int \<Rightarrow> pipe_sys" where
  "mypipe_start pid = pipe_start (the (father_loop pid 0)) 1"

lemma father_loop_ten:
  "father_loop pid 0 = Some (map (father_text pid) [0, 1, 2, 3, 4, 5, 6, 7, 8, 9])"
  by (simp add: father_loop.simps numeral_eq_Suc)

lemma father_text_exact:
  assumes "0 < pid" and "pid < 2 ^ 31" and "count < 10"
  shows "father_text pid count = mypipe_message @ ''['' @ show_nat (nat pid) @ ''] : '' @ show_nat count"
proof -
  let ?t = "mypipe_message @ ''['' @ show_nat (nat pid) @ ''] : '' @ show_nat count"
  have "nat pid < 10 ^ Suc 9" using assms by simp
  then have "length (show_nat (nat pid)) \<le> Suc 9" by (rule length_show_nat_le)
  moreover have "length (show_nat count) \<le> Suc 0"
    by (rule length_show_nat_le) (use assms(3) in simp)
  ultimately have "length ?t < 1024" by (simp add: mypipe_message_def)
  then have "snprintf_buf 1024 ?t = ?t" by (rule snprintf_buf_fits)
  moreover have "nul \<notin> set mypipe_message" "nul \<notin> set ''[''" "nul \<notin> set ''] : ''" by code_simp+
  then have "nul \<notin> set ?t" by (simp only: set_append Un_iff nul_notin_show_nat simp_thms)
  ultimately show ?thesis using assms(1) by (simp add: father_text_def show_int_def)
qed

text \<open>
  The parent sends exactly ten messages, none cut off, and then closes the pipe. However
  parent and child interleave, the child has read exactly the bytes of the ten messages, in
  order, when it stops; until then one of the two can go on, and no run is longer than the
  text and the calls allow, so parent and child both end.
\<close>

theorem mypipe_delivers_all:
  assumes "0 < pid" and "pid < 2 ^ 31" and "Lts.run mypipe_step (mypipe_start pid) es s"
  shows "pw_todo (mypipe_start pid) =
       map (\<lambda>count. mypipe_message @ ''['' @ show_nat (nat pid) @ ''] : '' @ show_nat count)
         [0, 1, 2, 3, 4, 5, 6, 7, 8, 9] \<and>
     (pw_reading s = [False] \<longrightarrow> concat (map got es) = concat (pw_todo (mypipe_start pid))) \<and>
     (pw_reading s = [True] \<longrightarrow> (\<exists>l s'. mypipe_step s l s')) \<and>
     length es \<le> 12 + length (concat (pw_todo (mypipe_start pid)))"
proof -
  have todo: "pw_todo (mypipe_start pid) =
       map (\<lambda>count. mypipe_message @ ''['' @ show_nat (nat pid) @ ''] : '' @ show_nat count)
         [0, 1, 2, 3, 4, 5, 6, 7, 8, 9]"
    using assms(1,2) by (simp add: mypipe_start_def pipe_start_def father_loop_ten father_text_exact)
  have r: "Lts.run (pipe_step (Suc 1022)) (pipe_start (the (father_loop pid 0)) 1) es s"
    using assms(3) by (simp add: mypipe_step_def mypipe_start_def)
  have inv: "pipe_inv s"
    by (rule pipe.inv_run [OF r]) (simp add: pipe_start_def pipe_inv_def)
  have "pw_reading s = [False] \<longrightarrow> concat (map got es) = concat (pw_todo (mypipe_start pid))"
    using pipe_run_done [OF r, of 0] by (simp add: mypipe_start_def pipe_start_def)
  moreover have "pw_reading s = [True] \<longrightarrow> (\<exists>l s'. mypipe_step s l s')"
    using pipe_progress [OF inv, of 0] by (simp add: mypipe_step_def)
  moreover have "length es \<le> 12 + length (concat (pw_todo (mypipe_start pid)))"
    using pipeb.run_budget [OF r TrueI]
    by (simp add: pipe_measure_def pipe_start_def pipe_rest_def mypipe_start_def count_pc_def
        father_loop_ten)
  ultimately show ?thesis using todo by blast
qed

theorem mypipe_delivers_all_witness:
  "\<exists>es s. Lts.run mypipe_step (mypipe_start 77) es s \<and> pw_reading s = [False] \<and>
     concat (map got es) = concat (pw_todo (mypipe_start 77))"
proof -
  have "pipe_inv (mypipe_start 77)" by (simp add: mypipe_start_def pipe_start_def pipe_inv_def)
  from pipe_completes [OF this, of 1022] obtain es s where
    r: "Lts.run mypipe_step (mypipe_start 77) es s" and d: "\<forall>r < length (pw_reading s). \<not> pw_reading s ! r"
    by (auto simp: mypipe_step_def)
  have "length (pw_reading s) = 1"
    using pipe_run_readers [OF r [unfolded mypipe_step_def]] by (simp add: mypipe_start_def pipe_start_def)
  with d have "pw_reading s = [False]" by (auto simp: length_Suc_conv)
  moreover have "(0::int) < 77" "(77::int) < 2 ^ 31" by simp_all
  note mypipe_delivers_all [OF this r]
  ultimately show ?thesis using r by blast
qed

section \<open>The named pipe: 1126/fifo\<close>

definition fifo_SIZE :: nat where "fifo_SIZE = 128"

text \<open>
  \<open>getMessage\<close> reads chunks of 127 bytes into a zeroed buffer; what a child prints for a
  result of \<open>read\<close>, and whether it goes on.
\<close>

datatype fifo_read = Fifo_data "byte list" | Fifo_eof | Fifo_error

definition getMessage_round :: "int \<Rightarrow> fifo_read \<Rightarrow> string \<times> bool" where
  "getMessage_round pid r =
     (case r of
        Fifo_data d \<Rightarrow>
          (''['' @ show_int pid @ '']'' @ ''client say: > '' @
             c_str (d @ replicate (fifo_SIZE - length d) nul) @ [CHR 0x0A], True)
      | Fifo_eof \<Rightarrow>
          (''['' @ show_int pid @ '']'' @
             ''read end of file, client quit, server quit too!'' @ [CHR 0x0A], False)
      | Fifo_error \<Rightarrow> (''read'', False))"

text \<open>
  The client: \<open>fuel\<close> rounds of its loop, which has no exit; the string keeps its last value
  when the input has ended.
\<close>

fun fifo_client_loop :: "nat \<Rightarrow> string \<Rightarrow> cin \<Rightarrow> byte list list" where
  "fifo_client_loop 0 m c = []"
| "fifo_client_loop (Suc fuel) m c =
     (let (m', c') = getline m c in m' # fifo_client_loop fuel m' c')"

definition fifo_ipc_step :: "pipe_sys \<Rightarrow> pipe_event option \<Rightarrow> pipe_sys \<Rightarrow> bool" where
  "fifo_ipc_step = pipe_step (fifo_SIZE - 1)"

definition fifo_ipc_start :: "nat \<Rightarrow> cin \<Rightarrow> pipe_sys" where
  "fifo_ipc_start fuel c = pipe_start (fifo_client_loop fuel [] c) 3"

text \<open>
  \<open>main\<close> of the server, given whether the file exists already and what \<open>open\<close> returns: its
  exit status and whether the file exists afterwards. The code that would remove the file is
  compiled out.
\<close>

definition fifo_server_main :: "bool \<Rightarrow> int \<Rightarrow> nat \<times> bool" where
  "fifo_server_main exists fd =
     (let mkfifo = (if exists then -1 else 0 :: int) in
      if mkfifo < 0 then (1, exists)
      else if fd < 0 then (2, True)
      else (0, True))"

lemma getline_all:
  "fifo_client_loop (length ls + n) m \<lparr>cin_lines = ls, cin_rest = r, cin_eof = False\<rparr> = ls @ replicate n r"
proof (induction ls arbitrary: m)
  case Nil
  have e: "fifo_client_loop k r \<lparr>cin_lines = [], cin_rest = r, cin_eof = True\<rparr> = replicate k r" for k
    by (induction k) (simp_all add: getline_def)
  show ?case using e by (cases n) (simp_all add: getline_def)
next
  case (Cons l ls)
  then show ?case by (simp add: getline_def)
qed

text \<open>
  C27. The lines the client read from its input arrive at the three children of the server
  unchanged as one stream: put together in the order of their reads, the chunks are the
  client's lines, each byte read by exactly one child, every chunk at most 127 bytes; when a
  child has seen the end of the file, nothing is missing.
\<close>

theorem fifo_delivers_lines:
  assumes "Lts.run fifo_ipc_step
     (fifo_ipc_start (length ls) \<lparr>cin_lines = ls, cin_rest = r, cin_eof = False\<rparr>) es s"
  shows "(\<exists>rest. concat ls = concat (map got es) @ rest) \<and>
     ((\<exists>i < length (pw_reading s). \<not> pw_reading s ! i) \<longrightarrow> concat (map got es) = concat ls)"
proof -
  have r: "Lts.run (pipe_step (Suc 126)) (pipe_start ls 3) es s"
    using assms getline_all [of ls 0 "[]" r]
    by (simp add: fifo_ipc_step_def fifo_ipc_start_def fifo_SIZE_def)
  show ?thesis using pipe_run_stream [OF r] pipe_run_done [OF r] by blast
qed

lemma fifo_demo_run:
  "\<exists>s. Lts.run fifo_ipc_step (fifo_ipc_start 1 \<lparr>cin_lines = [''hello''], cin_rest = [], cin_eof = False\<rparr>)
     [Got 2 ''hello''] s \<and> pw_reading s = [False, True, True]"
proof -
  define s0 where "s0 = fifo_ipc_start 1 \<lparr>cin_lines = [''hello''], cin_rest = [], cin_eof = False\<rparr>"
  have "\<exists>s. schedule (pipe_exec 127) s0 [None, None, Some 2, Some 0] = Some ([Got 2 ''hello''], s) \<and>
     pw_reading s = [False, True, True]"
    by (simp add: s0_def fifo_ipc_start_def pipe_start_def getline_def numeral_3_eq_3)
  then show ?thesis
    unfolding s0_def fifo_ipc_step_def fifo_SIZE_def using pipe_schedule_run [of 127] by fastforce
qed

theorem fifo_delivers_lines_witness:
  "concat (map got [Got 2 ''hello'']) = concat [''hello'']"
proof -
  obtain s where "Lts.run fifo_ipc_step
      (fifo_ipc_start (length [''hello'']) \<lparr>cin_lines = [''hello''], cin_rest = [], cin_eof = False\<rparr>)
      [Got 2 ''hello''] s" and "pw_reading s = [False, True, True]"
    using fifo_demo_run by auto
  from fifo_delivers_lines [OF this(1)] this(2) show ?thesis by auto
qed

text \<open>
  The server never removes its pipe file: after one start that got as far as the pipe,
  every further start ends with status 1 at \<open>mkfifo\<close>.
\<close>

theorem fifo_server_starts_once:
  "snd (fifo_server_main False fd) = True \<and>
   (\<forall>fd'. fst (fifo_server_main (snd (fifo_server_main False fd)) fd') = 1)"
  by (simp add: fifo_server_main_def)

end
