(* ===== verification/Shm_Ipc.thy ===== *)
theory Shm_Ipc
  imports Logging Lts
begin

text \<open>
  Shared memory: the start of client and server (1126/shm, 1201/shm, 1201/shm_pipe), the
  polling server of 1201/shm and the protocol of 1201/shm_pipe, where the client writes a
  line into the segment and then a 4-byte token into a named pipe, and the server waits for a
  token and prints the segment. The segment is its first bytes, zero after the last one
  written; client and server interleave at every access to it.
\<close>

section \<open>Keys and exit statuses\<close>

definition SHM_SIZE :: nat where "SHM_SIZE = 4096"

text \<open>\<open>snprintf(buffer, sizeof buffer, "0x%x", k)\<close> with a 32-bit key.\<close>

definition TransToHex :: "int \<Rightarrow> string" where
  "TransToHex k = c_str (snprintf_buf 32 (''0x'' @ show_hex (nat (k mod 2 ^ 32))))"

lemma nul_notin_show_hex [simp]: "nul \<notin> set (show_hex n)"
proof
  assume "nul \<in> set (show_hex n)"
  then have "nul \<in> digit_char ` {d. d < 16}" using set_show_base [of 16 n] by (auto simp: show_hex_def)
  then obtain d where d: "d < 16" "nul = digit_char d" by auto
  have "(of_char (digit_char d) :: nat) \<noteq> 0" using d(1) by (auto simp: digit_char_def)
  moreover have "(of_char nul :: nat) = 0" by (simp add: nul_def)
  ultimately show False using d(2) by simp
qed

text \<open>
  The key is printed whole, and different 32-bit keys print differently.
\<close>

theorem TransToHex_faithful:
  assumes "-(2 ^ 31) \<le> k" and "k < 2 ^ 31"
  shows "TransToHex k = ''0x'' @ show_hex (nat (k mod 2 ^ 32)) \<and>
     (\<forall>k'. -(2 ^ 31) \<le> k' \<and> k' < 2 ^ 31 \<and> TransToHex k' = TransToHex k \<longrightarrow> k' = k)"
proof -
  have exact: "TransToHex i = ''0x'' @ show_hex (nat (i mod 2 ^ 32))" for i
  proof -
    have "i mod 2 ^ 32 < 2 ^ 32" by simp
    then have "nat (i mod 2 ^ 32) < 2 ^ 32" by (simp add: nat_less_iff)
    then have "nat (i mod 2 ^ 32) < 16 ^ Suc 7" by simp
    then have "length (show_hex (nat (i mod 2 ^ 32))) \<le> Suc 7"
      unfolding show_hex_def by (intro length_show_base) simp_all
    then have "snprintf_buf 32 (''0x'' @ show_hex (nat (i mod 2 ^ 32))) = ''0x'' @ show_hex (nat (i mod 2 ^ 32))"
      by (intro snprintf_buf_fits) simp
    moreover have "nul \<notin> set ''0x''" by (simp add: nul_def)
    then have "nul \<notin> set (''0x'' @ show_hex (nat (i mod 2 ^ 32)))"
      by (simp only: set_append Un_iff nul_notin_show_hex simp_thms)
    ultimately show ?thesis unfolding TransToHex_def by simp
  qed
  have "k' = k" if "-(2 ^ 31) \<le> k'" "k' < 2 ^ 31" "TransToHex k' = TransToHex k" for k'
  proof -
    have "show_hex (nat (k' mod 2 ^ 32)) = show_hex (nat (k mod 2 ^ 32))"
      using that(3) by (simp add: exact)
    then have "nat (k' mod 2 ^ 32) = nat (k mod 2 ^ 32)"
      unfolding show_hex_def by (rule show_base_inj [rotated 2]) simp_all
    then have "k' mod 2 ^ 32 = k mod 2 ^ 32" by (simp add: eq_nat_nat_iff)
    then have "2 ^ 32 dvd k' - k" by (simp add: mod_eq_dvd_iff)
    moreover have "\<bar>k' - k\<bar> < 2 ^ 32" using that(1,2) assms by simp
    ultimately show ?thesis using dvd_imp_le_int [of "k' - k" "2 ^ 32"] by auto
  qed
  with exact show ?thesis by blast
qed

theorem TransToHex_faithful_witness: "TransToHex (- 1) = ''0x'' @ show_hex 4294967295"
  using TransToHex_faithful [of "- 1"] by simp

text \<open>
  The client's start: the results of \<open>ftok\<close>, \<open>shmget\<close> and \<open>shmat\<close> (an address as a number;
  a failing \<open>shmat\<close> returns \<open>(void * )-1\<close>), and the messages with their levels. \<open>None\<close> for the
  exit status is a client that goes on.
\<close>

definition shm_client_start :: "int \<Rightarrow> int \<Rightarrow> int \<Rightarrow> (string \<times> int) list \<times> nat option" where
  "shm_client_start k shmid shmaddr =
     (if k < 0 then ([(''create key failed'', 3)], Some 1)
      else if shmid < 0 then ([(''create key done'', 0), (''create shm success'', 3)], Some 2)
      else if shmaddr = 0
      then ([(''create key done'', 0), (''create shm failed'', 0), (''attach shm failed'', 3)], Some 3)
      else ([(''create key done'', 0), (''create shm failed'', 0), (''attach shm success'', 0)], None))"

text \<open>The server's start: the assertion on the key, \<open>shmget\<close>, and no test of \<open>shmat\<close>.\<close>

datatype shm_start = Shm_exit nat | Shm_abort | Shm_attached int

definition shm_server_start :: "int \<Rightarrow> int \<Rightarrow> int \<Rightarrow> shm_start" where
  "shm_server_start k shmid shmaddr =
     (if k = -1 then Shm_abort else if shmid = -1 then Shm_exit 1 else Shm_attached shmaddr)"

text \<open>
  A failed \<open>shmat\<close> goes unnoticed: the client logs success and both sides go on with the
  address \<open>-1\<close>. The texts about the segment are swapped: "success" is logged exactly when
  \<open>shmget\<close> failed, "failed" exactly when it succeeded.
\<close>

theorem shm_start_mistakes:
  "(0 \<le> k \<and> 0 \<le> shmid \<longrightarrow>
     snd (shm_client_start k shmid (-1)) = None \<and>
     (''attach shm success'', 0) \<in> set (fst (shm_client_start k shmid (-1))) \<and>
     shm_server_start k shmid (-1) = Shm_attached (-1)) \<and>
   (0 \<le> k \<longrightarrow>
     ((''create shm success'', 3) \<in> set (fst (shm_client_start k shmid a)) \<longleftrightarrow> shmid < 0) \<and>
     ((''create shm failed'', 0) \<in> set (fst (shm_client_start k shmid a)) \<longleftrightarrow> 0 \<le> shmid))"
  by (auto simp: shm_client_start_def shm_server_start_def)

theorem shm_start_mistakes_witness:
  "snd (shm_client_start 102 7 (-1)) = None \<and> shm_server_start 102 7 (-1) = Shm_attached (-1)"
  using shm_start_mistakes [of 102 7 0] by simp

section \<open>One line from the keyboard\<close>

text \<open>
  \<open>read(0, shmaddr, SHM_SIZE - 1)\<close> stores a line over the segment; \<open>shmaddr[s - 1] = 0\<close> then
  replaces its last byte, normally the newline.
\<close>

definition shm_read :: "byte list \<Rightarrow> byte list \<Rightarrow> byte list" where
  "shm_read line seg =
     (let s = min (SHM_SIZE - 1) (length line) in take s line @ drop s seg)"

definition shm_cut :: "nat \<Rightarrow> byte list \<Rightarrow> byte list" where
  "shm_cut s seg = seg[s - 1 := nul]"

definition shm_is_quit :: "byte list \<Rightarrow> bool" where
  "shm_is_quit seg \<longleftrightarrow> c_str seg = ''quit''"

lemma c_str_cut:
  assumes "nul \<notin> set l" and "length l < SHM_SIZE - 1"
  shows "c_str (shm_cut (Suc (length l)) (shm_read (l @ [c]) seg)) = l"
proof -
  have "min (SHM_SIZE - 1) (length (l @ [c])) = Suc (length l)" using assms(2) by simp
  then have "shm_cut (Suc (length l)) (shm_read (l @ [c]) seg) = l @ nul # drop (Suc (length l)) seg"
    by (simp add: shm_cut_def shm_read_def list_update_append)
  then show ?thesis using assms(1) by simp
qed

section \<open>The protocols\<close>

datatype shm_client_pc = Cl_Read | Cl_Cut nat | Cl_Signal | Cl_Test | Cl_Closed

datatype shm_server_pc = Sv_Wait | Sv_Print | Sv_Test | Sv_Done | Sv_Abort

text \<open>The tokens are the 4-byte words in the named pipe.\<close>

record shm_sys =
  sh_input :: "byte list list"
  sh_seg :: "byte list"
  sh_tokens :: nat
  sh_client :: shm_client_pc
  sh_server :: shm_server_pc

datatype shm_event = Line_printed string

text \<open>
  The client. A line longer than the read leaves its rest for the next read; at the end of
  the input \<open>read\<close> returns 0 and the loop spins without effect. \<open>signals\<close> tells 1201/shm_pipe
  from 1201/shm, whose client has no call of \<open>Signal\<close>.
\<close>

inductive shm_client_step :: "bool \<Rightarrow> shm_sys \<Rightarrow> shm_sys \<Rightarrow> bool" for signals :: bool where
  client_read:
    "sh_client s = Cl_Read \<Longrightarrow> sh_input s = l # ls \<Longrightarrow> l \<noteq> [] \<Longrightarrow>
     shm_client_step signals s
       (s\<lparr>sh_input := (if SHM_SIZE - 1 < length l then drop (SHM_SIZE - 1) l # ls else ls),
          sh_seg := shm_read l (sh_seg s), sh_client := Cl_Cut (min (SHM_SIZE - 1) (length l))\<rparr>)"
| client_cut:
    "sh_client s = Cl_Cut n \<Longrightarrow>
     shm_client_step signals s
       (s\<lparr>sh_seg := shm_cut n (sh_seg s), sh_client := (if signals then Cl_Signal else Cl_Test)\<rparr>)"
| client_signal:
    "sh_client s = Cl_Signal \<Longrightarrow>
     shm_client_step signals s (s\<lparr>sh_tokens := Suc (sh_tokens s), sh_client := Cl_Test\<rparr>)"
| client_quit:
    "sh_client s = Cl_Test \<Longrightarrow> shm_is_quit (sh_seg s) \<Longrightarrow>
     shm_client_step signals s (s\<lparr>sh_client := Cl_Closed\<rparr>)"
| client_again:
    "sh_client s = Cl_Test \<Longrightarrow> \<not> shm_is_quit (sh_seg s) \<Longrightarrow>
     shm_client_step signals s (s\<lparr>sh_client := Cl_Read\<rparr>)"

text \<open>The server of 1201/shm_pipe: \<open>Wait\<close> reads one token; at the end of the pipe its
  assertion fails.\<close>

inductive shm_server_step :: "shm_sys \<Rightarrow> shm_event option \<Rightarrow> shm_sys \<Rightarrow> bool" where
  server_wait:
    "sh_server s = Sv_Wait \<Longrightarrow> sh_tokens s = Suc n \<Longrightarrow>
     shm_server_step s None (s\<lparr>sh_tokens := n, sh_server := Sv_Print\<rparr>)"
| server_abort:
    "sh_server s = Sv_Wait \<Longrightarrow> sh_tokens s = 0 \<Longrightarrow> sh_client s = Cl_Closed \<Longrightarrow>
     shm_server_step s None (s\<lparr>sh_server := Sv_Abort\<rparr>)"
| server_print:
    "sh_server s = Sv_Print \<Longrightarrow>
     shm_server_step s (Some (Line_printed (c_str (sh_seg s)))) (s\<lparr>sh_server := Sv_Test\<rparr>)"
| server_quit:
    "sh_server s = Sv_Test \<Longrightarrow> shm_is_quit (sh_seg s) \<Longrightarrow>
     shm_server_step s None (s\<lparr>sh_server := Sv_Done\<rparr>)"
| server_again:
    "sh_server s = Sv_Test \<Longrightarrow> \<not> shm_is_quit (sh_seg s) \<Longrightarrow>
     shm_server_step s None (s\<lparr>sh_server := Sv_Wait\<rparr>)"

text \<open>The server of 1201/shm prints the segment once a second until it is \<open>quit\<close>.\<close>

inductive shm_poll_step :: "shm_sys \<Rightarrow> shm_event option \<Rightarrow> shm_sys \<Rightarrow> bool" where
  poll_print:
    "sh_server s = Sv_Print \<Longrightarrow>
     shm_poll_step s (Some (Line_printed (c_str (sh_seg s)))) (s\<lparr>sh_server := Sv_Test\<rparr>)"
| poll_quit:
    "sh_server s = Sv_Test \<Longrightarrow> shm_is_quit (sh_seg s) \<Longrightarrow>
     shm_poll_step s None (s\<lparr>sh_server := Sv_Done\<rparr>)"
| poll_again:
    "sh_server s = Sv_Test \<Longrightarrow> \<not> shm_is_quit (sh_seg s) \<Longrightarrow>
     shm_poll_step s None (s\<lparr>sh_server := Sv_Print\<rparr>)"

definition shm_pipe_step :: "shm_sys \<Rightarrow> shm_event option \<Rightarrow> shm_sys \<Rightarrow> bool" where
  "shm_pipe_step s l s' \<longleftrightarrow> (l = None \<and> shm_client_step True s s') \<or> shm_server_step s l s'"

definition shm_step :: "shm_sys \<Rightarrow> shm_event option \<Rightarrow> shm_sys \<Rightarrow> bool" where
  "shm_step s l s' \<longleftrightarrow> (l = None \<and> shm_client_step False s s') \<or> shm_poll_step s l s'"

definition shm_pipe_init :: "byte list list \<Rightarrow> shm_sys \<Rightarrow> bool" where
  "shm_pipe_init lines s \<longleftrightarrow>
     s = \<lparr>sh_input = lines, sh_seg = replicate SHM_SIZE nul, sh_tokens = 0,
          sh_client = Cl_Read, sh_server = Sv_Wait\<rparr>"

definition shm_init :: "byte list list \<Rightarrow> shm_sys \<Rightarrow> bool" where
  "shm_init lines s \<longleftrightarrow>
     s = \<lparr>sh_input = lines, sh_seg = replicate SHM_SIZE nul, sh_tokens = 0,
          sh_client = Cl_Read, sh_server = Sv_Print\<rparr>"

section \<open>Ending with quit\<close>

text \<open>Once the client has signalled \<open>quit\<close>, a token is left or the server is past its wait.\<close>

definition shm_pipe_inv :: "shm_sys \<Rightarrow> bool" where
  "shm_pipe_inv s \<longleftrightarrow> sh_server s \<noteq> Sv_Abort \<and>
     (sh_client s = Cl_Closed \<longrightarrow> shm_is_quit (sh_seg s)) \<and>
     ((sh_client s = Cl_Closed \<or> sh_client s = Cl_Test \<and> shm_is_quit (sh_seg s)) \<longrightarrow>
        0 < sh_tokens s \<or> sh_server s \<in> {Sv_Print, Sv_Test, Sv_Done})"

lemma shm_client_inv: "shm_client_step True s s' \<Longrightarrow> shm_pipe_inv s \<Longrightarrow> shm_pipe_inv s'"
  by (induction rule: shm_client_step.induct) (auto simp: shm_pipe_inv_def)

lemma shm_server_inv: "shm_server_step s l s' \<Longrightarrow> shm_pipe_inv s \<Longrightarrow> shm_pipe_inv s'"
  by (induction rule: shm_server_step.induct) (auto simp: shm_pipe_inv_def)

interpretation shmp: inductive_invariant "shm_pipe_init lines" shm_pipe_step shm_pipe_inv
  for lines :: "byte list list"
proof unfold_locales
  fix s assume "shm_pipe_init lines s"
  then show "shm_pipe_inv s" by (simp add: shm_pipe_init_def shm_pipe_inv_def)
next
  fix s l s' assume "shm_pipe_inv s" and "shm_pipe_step s l s'"
  then show "shm_pipe_inv s'" using shm_client_inv shm_server_inv by (auto simp: shm_pipe_step_def)
qed

text \<open>What the server still has to do: every one of its steps after the client has closed
  makes it smaller.\<close>

definition shm_server_work :: "shm_sys \<Rightarrow> nat" where
  "shm_server_work s = 3 * sh_tokens s +
     (case sh_server s of Sv_Print \<Rightarrow> 3 | Sv_Test \<Rightarrow> 2 | Sv_Wait \<Rightarrow> 1 | _ \<Rightarrow> 0)"

text \<open>
  C28. The server of 1201/shm_pipe never runs into the end of the pipe, so its assertion
  holds. After the client has typed \<open>quit\<close> and closed the pipe, the server still has a step
  until it is done, and every step brings it nearer.
\<close>

theorem shm_pipe_quit_ends_server:
  assumes "reachable (shm_pipe_init lines) shm_pipe_step s"
  shows "sh_server s \<noteq> Sv_Abort \<and>
     (sh_client s = Cl_Closed \<longrightarrow>
        (sh_server s \<noteq> Sv_Done \<longrightarrow> (\<exists>l s'. shm_server_step s l s')) \<and>
        (\<forall>l s'. shm_pipe_step s l s' \<longrightarrow> shm_server_work s' < shm_server_work s))"
proof -
  have inv: "shm_pipe_inv s" by (rule shmp.inv_reachable [OF assms])
  have st: "\<exists>l s'. shm_server_step s l s'" if cl: "sh_client s = Cl_Closed" and nd: "sh_server s \<noteq> Sv_Done"
  proof (cases "sh_server s")
    case Sv_Wait
    then obtain n where "sh_tokens s = Suc n"
      using inv cl by (cases "sh_tokens s") (auto simp: shm_pipe_inv_def)
    with Sv_Wait show ?thesis using shm_server_step.server_wait by blast
  next
    case Sv_Test
    moreover have "shm_is_quit (sh_seg s)" using inv cl by (simp add: shm_pipe_inv_def)
    ultimately show ?thesis using shm_server_step.server_quit by blast
  qed (use nd inv shm_server_step.server_print in \<open>auto simp: shm_pipe_inv_def\<close>)
  have de: "shm_server_work s' < shm_server_work s"
    if "sh_client s = Cl_Closed" and step: "shm_pipe_step s l s'" for l s'
  proof -
    have "\<not> shm_client_step True s s'" using that(1) by (auto elim: shm_client_step.cases)
    then have "shm_server_step s l s'" using step by (simp add: shm_pipe_step_def)
    then show ?thesis by cases (auto simp: shm_server_work_def)
  qed
  from inv st de show ?thesis by (auto simp: shm_pipe_inv_def)
qed

text \<open>The protocol of 1201/shm_pipe as a function: \<open>True\<close> moves the client.\<close>

definition shm_pipe_exec :: "bool \<Rightarrow> shm_sys \<Rightarrow> (shm_event option \<times> shm_sys) option" where
  "shm_pipe_exec c s =
     (if c then
        (case sh_client s of
           Cl_Read \<Rightarrow>
             (case sh_input s of
                [] \<Rightarrow> None
              | l # ls \<Rightarrow>
                  if l = [] then None
                  else Some (None, s\<lparr>sh_input := (if SHM_SIZE - 1 < length l then drop (SHM_SIZE - 1) l # ls else ls),
                      sh_seg := shm_read l (sh_seg s), sh_client := Cl_Cut (min (SHM_SIZE - 1) (length l))\<rparr>))
         | Cl_Cut n \<Rightarrow> Some (None, s\<lparr>sh_seg := shm_cut n (sh_seg s), sh_client := Cl_Signal\<rparr>)
         | Cl_Signal \<Rightarrow> Some (None, s\<lparr>sh_tokens := Suc (sh_tokens s), sh_client := Cl_Test\<rparr>)
         | Cl_Test \<Rightarrow>
             Some (None, s\<lparr>sh_client := (if shm_is_quit (sh_seg s) then Cl_Closed else Cl_Read)\<rparr>)
         | Cl_Closed \<Rightarrow> None)
      else
        (case sh_server s of
           Sv_Wait \<Rightarrow>
             (case sh_tokens s of
                0 \<Rightarrow> if sh_client s = Cl_Closed then Some (None, s\<lparr>sh_server := Sv_Abort\<rparr>) else None
              | Suc n \<Rightarrow> Some (None, s\<lparr>sh_tokens := n, sh_server := Sv_Print\<rparr>))
         | Sv_Print \<Rightarrow> Some (Some (Line_printed (c_str (sh_seg s))), s\<lparr>sh_server := Sv_Test\<rparr>)
         | Sv_Test \<Rightarrow>
             Some (None, s\<lparr>sh_server := (if shm_is_quit (sh_seg s) then Sv_Done else Sv_Wait)\<rparr>)
         | _ \<Rightarrow> None))"

lemma shm_pipe_exec_sound: "shm_pipe_exec c s = Some (l, s') \<Longrightarrow> shm_pipe_step s l s'"
  using shm_client_step.intros [where signals = True and s = s] shm_server_step.intros [where s = s]
  by (auto simp: shm_pipe_exec_def shm_pipe_step_def
      split: if_splits shm_client_pc.splits shm_server_pc.splits list.splits nat.splits)

lemma shm_pipe_schedule_run:
  "schedule shm_pipe_exec s cs = Some (es, s') \<Longrightarrow> Lts.run shm_pipe_step s es s'"
  by (erule schedule_run) (rule shm_pipe_exec_sound)

text \<open>The client's four steps for a short line, taken together.\<close>

lemma shm_client_line:
  assumes "nul \<notin> set l" and "length l < SHM_SIZE - 1" and "sh_client s = Cl_Read"
    and "sh_input s = (l @ [c]) # ls"
  shows "\<exists>s'. schedule shm_pipe_exec s [True, True, True, True] = Some ([], s') \<and>
     c_str (sh_seg s') = l \<and> sh_tokens s' = Suc (sh_tokens s) \<and> sh_server s' = sh_server s \<and>
     sh_input s' = ls \<and> sh_client s' = (if l = ''quit'' then Cl_Closed else Cl_Read)"
proof -
  have m: "min (SHM_SIZE - 1) (Suc (length l)) = Suc (length l)" using assms(2) by simp
  show ?thesis
    using assms m c_str_cut [OF assms(1,2), of c]
    by (simp add: shm_pipe_exec_def shm_is_quit_def del: c_str_append_nul)
qed

lemma shm_pipe_init_fields:
  "shm_pipe_init lines s \<Longrightarrow> sh_client s = Cl_Read \<and> sh_server s = Sv_Wait \<and> sh_tokens s = 0 \<and>
   sh_input s = lines"
  by (simp add: shm_pipe_init_def)

text \<open>The server's three steps with a token there, taken together.\<close>

lemma shm_server_line:
  assumes "sh_server s = Sv_Wait" and "sh_tokens s = Suc n"
  shows "\<exists>s'. schedule shm_pipe_exec s [False, False, False] =
       Some ([Line_printed (c_str (sh_seg s))], s') \<and>
     sh_seg s' = sh_seg s \<and> sh_tokens s' = n \<and> sh_client s' = sh_client s \<and>
     sh_server s' = (if shm_is_quit (sh_seg s) then Sv_Done else Sv_Wait)"
  using assms by (simp add: shm_pipe_exec_def)

lemma no_nul: "nul \<notin> set ''one''" "nul \<notin> set ''two''" "nul \<notin> set ''quit''"
  by (simp_all add: nul_def)

text \<open>
  The token says that a line has been written, not that it is still there: the client can
  type a second line before the server has printed the first, and then the server prints the
  second one twice and the first one never.
\<close>

theorem shm_pipe_loses_line:
  "\<exists>s0 s. shm_pipe_init [''one'' @ [CHR 0x0A], ''two'' @ [CHR 0x0A]] s0 \<and>
     Lts.run shm_pipe_step s0 [Line_printed ''two'', Line_printed ''two''] s"
proof -
  define s0 where "s0 = \<lparr>sh_input = [''one'' @ [CHR 0x0A], ''two'' @ [CHR 0x0A]],
    sh_seg = replicate SHM_SIZE nul, sh_tokens = 0, sh_client = Cl_Read, sh_server = Sv_Wait\<rparr>"
  have i: "shm_pipe_init [''one'' @ [CHR 0x0A], ''two'' @ [CHR 0x0A]] s0"
    by (simp add: shm_pipe_init_def s0_def)
  obtain s1 where s1: "schedule shm_pipe_exec s0 [True, True, True, True] = Some ([], s1)"
    "sh_tokens s1 = 1" "sh_server s1 = Sv_Wait" "sh_input s1 = [''two'' @ [CHR 0x0A]]" "sh_client s1 = Cl_Read"
    using shm_client_line [of "''one''" s0 "CHR 0x0A" "[''two'' @ [CHR 0x0A]]"] no_nul
      shm_pipe_init_fields [OF i] by (auto simp: SHM_SIZE_def)
  obtain s2 where s2: "schedule shm_pipe_exec s1 [True, True, True, True] = Some ([], s2)"
    "sh_tokens s2 = 2" "sh_server s2 = Sv_Wait" "c_str (sh_seg s2) = ''two''"
    using shm_client_line [of "''two''" s1 "CHR 0x0A" "[]"] no_nul s1 by (auto simp: SHM_SIZE_def)
  obtain s3 where s3: "schedule shm_pipe_exec s2 [False, False, False] = Some ([Line_printed ''two''], s3)"
    "sh_tokens s3 = 1" "sh_server s3 = Sv_Wait" "c_str (sh_seg s3) = ''two''"
    using shm_server_line [of s2 1] s2 by (auto simp: shm_is_quit_def)
  obtain s4 where s4: "schedule shm_pipe_exec s3 [False, False, False] = Some ([Line_printed ''two''], s4)"
    using shm_server_line [of s3 0] s3 by auto
  have "schedule shm_pipe_exec s0 ([True, True, True, True] @ [True, True, True, True] @
      [False, False, False] @ [False, False, False]) =
      Some ([] @ [] @ [Line_printed ''two''] @ [Line_printed ''two''], s4)"
    by (intro schedule_append [OF s1(1)] schedule_append [OF s2(1)] schedule_append [OF s3(1)] s4)
  from shm_pipe_schedule_run [OF this] i show ?thesis by auto
qed

theorem shm_pipe_quit_ends_server_witness:
  "\<exists>s. reachable (shm_pipe_init [''quit'' @ [CHR 0x0A]]) shm_pipe_step s \<and> sh_client s = Cl_Closed \<and>
     sh_server s = Sv_Wait \<and> (\<exists>l s'. shm_server_step s l s')"
proof -
  define s0 where "s0 = \<lparr>sh_input = [''quit'' @ [CHR 0x0A]],
    sh_seg = replicate SHM_SIZE nul, sh_tokens = 0, sh_client = Cl_Read, sh_server = Sv_Wait\<rparr>"
  have i: "shm_pipe_init [''quit'' @ [CHR 0x0A]] s0" by (simp add: shm_pipe_init_def s0_def)
  obtain s where r: "schedule shm_pipe_exec s0 [True, True, True, True] = Some ([], s)"
    and p: "sh_client s = Cl_Closed" "sh_server s = Sv_Wait"
    using shm_client_line [of "''quit''" s0 "CHR 0x0A" "[]"] no_nul shm_pipe_init_fields [OF i]
    by (auto simp: SHM_SIZE_def)
  have "reachable (shm_pipe_init [''quit'' @ [CHR 0x0A]]) shm_pipe_step s"
    by (rule reachable_run [where I = "shm_pipe_init [''quit'' @ [CHR 0x0A]]", OF i shm_pipe_schedule_run [OF r]])
  with shm_pipe_quit_ends_server [OF this] p show ?thesis by auto
qed

section \<open>Polling\<close>

text \<open>In 1201/shm too the last thing the server prints is \<open>quit\<close>, once the client typed it.\<close>

definition shm_poll_inv :: "shm_sys \<Rightarrow> bool" where
  "shm_poll_inv s \<longleftrightarrow> sh_server s \<in> {Sv_Print, Sv_Test, Sv_Done} \<and> sh_client s \<noteq> Cl_Signal \<and>
     sh_tokens s = 0 \<and> (sh_client s = Cl_Closed \<longrightarrow> shm_is_quit (sh_seg s))"

lemma shm_poll_client_inv: "shm_client_step False s s' \<Longrightarrow> shm_poll_inv s \<Longrightarrow> shm_poll_inv s'"
  by (induction rule: shm_client_step.induct) (auto simp: shm_poll_inv_def)

lemma shm_poll_server_inv: "shm_poll_step s l s' \<Longrightarrow> shm_poll_inv s \<Longrightarrow> shm_poll_inv s'"
  by (induction rule: shm_poll_step.induct) (auto simp: shm_poll_inv_def)

interpretation shmq: inductive_invariant "shm_init lines" shm_step shm_poll_inv
  for lines :: "byte list list"
proof unfold_locales
  fix s assume "shm_init lines s"
  then show "shm_poll_inv s" by (simp add: shm_init_def shm_poll_inv_def)
next
  fix s l s' assume "shm_poll_inv s" and "shm_step s l s'"
  then show "shm_poll_inv s'" using shm_poll_client_inv shm_poll_server_inv by (auto simp: shm_step_def)
qed

text \<open>
  When the client of 1201/shm has ended, the polling server prints \<open>quit\<close> and ends
  within three steps; until then it can always go on.
\<close>

theorem shm_poll_quit_ends_server:
  assumes "reachable (shm_init lines) shm_step s" and "sh_client s = Cl_Closed"
  shows "(sh_server s \<noteq> Sv_Done \<longrightarrow> (\<exists>l s'. shm_step s l s')) \<and>
     (\<forall>l s'. shm_step s l s' \<longrightarrow> sh_client s' = Cl_Closed \<and>
        (l = None \<or> l = Some (Line_printed ''quit'')) \<and> shm_server_work s' < shm_server_work s)"
proof -
  have inv: "shm_poll_inv s" by (rule shmq.inv_reachable [OF assms(1)])
  have nc: "\<not> shm_client_step False s s'" for s' using assms(2) by (auto elim: shm_client_step.cases)
  have "\<exists>l s'. shm_step s l s'" if "sh_server s \<noteq> Sv_Done"
    using inv that shm_poll_step.poll_print [of s] shm_poll_step.poll_quit [of s]
      shm_poll_step.poll_again [of s]
    by (auto simp: shm_poll_inv_def shm_step_def)
  moreover have "sh_client s' = Cl_Closed \<and> (l = None \<or> l = Some (Line_printed ''quit'')) \<and>
      shm_server_work s' < shm_server_work s" if "shm_step s l s'" for l s'
  proof -
    have "shm_poll_step s l s'" using that nc by (auto simp: shm_step_def)
    then show ?thesis
      using inv assms(2)
      by cases (auto simp: shm_poll_inv_def shm_server_work_def shm_is_quit_def)
  qed
  ultimately show ?thesis by blast
qed

theorem shm_poll_quit_ends_server_witness:
  "\<exists>s. sh_client s = Cl_Closed \<and> (\<exists>l s'. shm_step s l s')"
proof -
  define s0 where "s0 = \<lparr>sh_input = [''quit'' @ [CHR 0x0A]],
    sh_seg = replicate SHM_SIZE nul, sh_tokens = 0, sh_client = Cl_Read, sh_server = Sv_Print\<rparr>"
  have i: "shm_init [''quit'' @ [CHR 0x0A]] s0" by (simp add: shm_init_def s0_def)
  let ?l = "''quit'' @ [CHR 0x0A]"
  define s1 where "s1 = s0\<lparr>sh_input := [], sh_seg := shm_read ?l (sh_seg s0), sh_client := Cl_Cut (Suc (Suc (Suc (Suc (Suc 0)))))\<rparr>"
  define s2 where "s2 = s1\<lparr>sh_seg := shm_cut (Suc (Suc (Suc (Suc (Suc 0))))) (sh_seg s1), sh_client := Cl_Test\<rparr>"
  have 1: "shm_step s0 None s1"
    using shm_client_step.client_read [of s0 ?l "[]" False]
    by (simp add: shm_step_def s1_def s0_def SHM_SIZE_def)
  have 2: "shm_step s1 None s2"
    using shm_client_step.client_cut [of s1 "(Suc (Suc (Suc (Suc (Suc 0)))))" False] by (simp add: shm_step_def s2_def s1_def)
  have "c_str (shm_cut (Suc (length ''quit'')) (shm_read ?l (sh_seg s0))) = ''quit''"
    by (rule c_str_cut) (simp_all add: no_nul(3) [simplified] SHM_SIZE_def)
  then have "shm_is_quit (sh_seg s2)" by (simp add: shm_is_quit_def s2_def s1_def)
  then have 3: "shm_step s2 None (s2\<lparr>sh_client := Cl_Closed\<rparr>)"
    using shm_client_step.client_quit [of s2 False] by (simp add: shm_step_def s2_def)
  have "reachable (shm_init [?l]) shm_step (s2\<lparr>sh_client := Cl_Closed\<rparr>)"
    using i 1 2 3 by (meson reachable_init reachable_step)
  from shm_poll_quit_ends_server [OF this] have "\<exists>l s'. shm_step (s2\<lparr>sh_client := Cl_Closed\<rparr>) l s'"
    by (simp add: s2_def s1_def s0_def)
  then show ?thesis by (intro exI [of _ "s2\<lparr>sh_client := Cl_Closed\<rparr>"]) simp
qed

end
