(* ===== verification/Shm_Life.thy ===== *)
theory Shm_Life
  imports Shm_Ipc
begin

text \<open>
  The life of the kernel objects of 1201/shm_pipe: the named pipe the server's global
  \<open>Init init\<close> makes and removes, and the shared memory segment the server creates and removes.
  Both outlive the processes. A run of the server or the client is a function on what exists;
  what the system calls and the communication in between give is an argument.
\<close>

section \<open>What exists\<close>

record ipc =
  ipc_fifo :: bool
  ipc_shm :: bool

text \<open>\<open>Init::Init\<close>: \<open>mkfifo\<close> fails when the file exists, and the assertion stops the program.\<close>

definition Init_ctor :: "ipc \<Rightarrow> ipc option" where
  "Init_ctor w = (if ipc_fifo w then None else Some (w\<lparr>ipc_fifo := True\<rparr>))"

definition Init_dtor :: "ipc \<Rightarrow> ipc" where
  "Init_dtor w = w\<lparr>ipc_fifo := False\<rparr>"

text \<open>
  \<open>OpenFIFO\<close> asserts that \<open>open\<close> gives a positive descriptor; \<open>open\<close> fails on a missing file,
  otherwise it gives \<open>fd\<close>.
\<close>

definition OpenFIFO :: "int \<Rightarrow> ipc \<Rightarrow> int option" where
  "OpenFIFO fd w = (let r = (if ipc_fifo w then fd else -1) in if 0 < r then Some r else None)"

text \<open>
  The arguments of a run: the key, whether \<open>shmget\<close> works where it may, the address of
  \<open>shmat\<close>, the descriptor of the pipe, and how the communication ends.
\<close>

datatype talk = Talk_quit | Talk_assert | Talk_killed

record shm_env =
  se_key :: int
  se_get :: bool
  se_addr :: int
  se_fd :: int
  se_talk :: talk

datatype run_end = Returned | Exited nat | Aborted | Killed_by_signal

text \<open>
  \<open>main\<close> of the server with the global object around it: \<open>exit\<close> and \<open>return\<close> run its
  destructor, a failed assertion and a signal do not. \<open>shmdt\<close> fails on an address that is not
  attached.
\<close>

definition shm_server_run :: "shm_env \<Rightarrow> ipc \<Rightarrow> run_end \<times> ipc" where
  "shm_server_run e w =
     (case Init_ctor w of
        None \<Rightarrow> (Aborted, w)
      | Some w1 \<Rightarrow>
          if se_key e = -1 then (Aborted, w1)
          else if ipc_shm w1 \<or> \<not> se_get e then (Exited 1, Init_dtor w1)
          else
            (let w2 = w1\<lparr>ipc_shm := True\<rparr> in
             case OpenFIFO (se_fd e) w2 of
               None \<Rightarrow> (Aborted, w2)
             | Some fd \<Rightarrow>
                 (case se_talk e of
                    Talk_killed \<Rightarrow> (Killed_by_signal, w2)
                  | Talk_assert \<Rightarrow> (Aborted, w2)
                  | Talk_quit \<Rightarrow>
                      if se_addr e = -1 then (Aborted, w2)
                      else (Returned, Init_dtor (w2\<lparr>ipc_shm := False\<rparr>)))))"

text \<open>
  \<open>main\<close> of the client: \<open>shmget\<close> with \<open>IPC_CREAT\<close> only makes the segment when there is none.
\<close>

definition shm_client_run :: "shm_env \<Rightarrow> ipc \<Rightarrow> run_end \<times> ipc" where
  "shm_client_run e w =
     (if se_key e < 0 then (Exited 1, w)
      else if \<not> se_get e then (Exited 2, w)
      else
        (let w1 = w\<lparr>ipc_shm := True\<rparr> in
         if se_addr e = 0 then (Exited 3, w1)
         else
           (case OpenFIFO (se_fd e) w1 of
              None \<Rightarrow> (Aborted, w1)
            | Some fd \<Rightarrow>
                (case se_talk e of
                   Talk_killed \<Rightarrow> (Killed_by_signal, w1)
                 | Talk_assert \<Rightarrow> (Aborted, w1)
                 | Talk_quit \<Rightarrow> if se_addr e = -1 then (Aborted, w1) else (Returned, w1)))))"

datatype shm_run = Server shm_env | Client shm_env

fun shm_runs :: "shm_run list \<Rightarrow> ipc \<Rightarrow> run_end list \<times> ipc" where
  "shm_runs [] w = ([], w)"
| "shm_runs (Server e # rs) w =
     (let (o1, w1) = shm_server_run e w; (os, w2) = shm_runs rs w1 in (o1 # os, w2))"
| "shm_runs (Client e # rs) w =
     (let (o1, w1) = shm_client_run e w; (os, w2) = shm_runs rs w1 in (o1 # os, w2))"

section \<open>Starting again\<close>

definition shm_clean :: ipc where
  "shm_clean = \<lparr>ipc_fifo = False, ipc_shm = False\<rparr>"

text \<open>A run in which nothing goes wrong.\<close>

definition good_env :: "shm_env \<Rightarrow> bool" where
  "good_env e \<longleftrightarrow> 0 \<le> se_key e \<and> se_get e \<and> 0 < se_addr e \<and> 0 < se_fd e \<and> se_talk e = Talk_quit"

lemma server_good: "good_env e \<Longrightarrow> shm_server_run e shm_clean = (Returned, shm_clean)"
  by (simp add: good_env_def shm_server_run_def Init_ctor_def Init_dtor_def OpenFIFO_def shm_clean_def)

text \<open>Nothing removes a pipe that is left: the server is stopped at its start.\<close>

lemma fifo_left:
  "ipc_fifo w \<Longrightarrow> fst (shm_server_run e w) = Aborted \<and> snd (shm_server_run e w) = w"
  "ipc_fifo w \<Longrightarrow> ipc_fifo (snd (shm_client_run e w))"
  by (auto simp: shm_server_run_def shm_client_run_def Init_ctor_def OpenFIFO_def Let_def split: talk.splits)

lemma segment_left:
  "ipc_shm w \<Longrightarrow> fst (shm_server_run e w) \<in> {Aborted, Exited 1} \<and> ipc_shm (snd (shm_server_run e w))"
  "ipc_shm w \<Longrightarrow> ipc_shm (snd (shm_client_run e w))"
  by (auto simp: shm_server_run_def shm_client_run_def Init_ctor_def Init_dtor_def OpenFIFO_def Let_def
      split: talk.splits)

definition server_ends :: "shm_run list \<Rightarrow> run_end list \<Rightarrow> run_end list" where
  "server_ends rs os = map snd (filter (\<lambda>(r, out). case r of Server e \<Rightarrow> True | Client e \<Rightarrow> False) (zip rs os))"

lemma runs_segment_left:
  "ipc_shm w \<Longrightarrow> set (server_ends rs (fst (shm_runs rs w))) \<subseteq> {Aborted, Exited 1} \<and>
     ipc_shm (snd (shm_runs rs w))"
proof (induction rs arbitrary: w)
  case Nil
  then show ?case by (simp add: server_ends_def)
next
  case (Cons r rs)
  show ?case
  proof (cases r)
    case (Server e)
    then show ?thesis using Cons.IH [of "snd (shm_server_run e w)"] segment_left(1) [OF Cons.prems, of e]
      by (auto simp: case_prod_beta Let_def server_ends_def)
  next
    case (Client e)
    then show ?thesis using Cons.IH [of "snd (shm_client_run e w)"] segment_left(2) [OF Cons.prems, of e]
      by (auto simp: case_prod_beta Let_def server_ends_def)
  qed
qed

lemma runs_fifo_left:
  "ipc_fifo w \<Longrightarrow> set (server_ends rs (fst (shm_runs rs w))) \<subseteq> {Aborted}"
proof (induction rs arbitrary: w)
  case Nil
  then show ?case by (simp add: server_ends_def)
next
  case (Cons r rs)
  show ?case
  proof (cases r)
    case (Server e)
    then show ?thesis using Cons.IH [of w] fifo_left(1) [OF Cons.prems, of e] Cons.prems
      by (auto simp: case_prod_beta Let_def server_ends_def)
  next
    case (Client e)
    then show ?thesis using Cons.IH [of "snd (shm_client_run e w)"] fifo_left(2) [OF Cons.prems, of e]
      by (auto simp: case_prod_beta Let_def server_ends_def)
  qed
qed

text \<open>
  C37. The server can be started again and again as long as it ends by \<open>quit\<close>: it leaves
  nothing behind. After a server that was killed while it talked, every later server is stopped
  by the assertion in \<open>Init\<close>, and after a client that was started before any server, which
  leaves the segment it made, no server ever starts, whatever runs in between.
\<close>

theorem shm_server_restarts:
  assumes "good_env e" and "\<forall>f \<in> set es. good_env f" and "c = e" and "k = e\<lparr>se_talk := Talk_killed\<rparr>"
  shows "shm_runs (map Server es) shm_clean = (replicate (length es) Returned, shm_clean) \<and>
     set (server_ends rs (fst (shm_runs rs (snd (shm_server_run k shm_clean))))) \<subseteq> {Aborted} \<and>
     fst (shm_client_run c shm_clean) = Aborted \<and>
     set (server_ends rs (fst (shm_runs rs (snd (shm_client_run c shm_clean))))) \<subseteq> {Aborted, Exited 1}"
proof (intro conjI)
  show "shm_runs (map Server es) shm_clean = (replicate (length es) Returned, shm_clean)"
    using assms(2) by (induction es) (simp_all add: server_good)
  have "ipc_fifo (snd (shm_server_run k shm_clean))"
    using assms(1,4) by (simp add: good_env_def shm_server_run_def Init_ctor_def OpenFIFO_def shm_clean_def)
  then show "set (server_ends rs (fst (shm_runs rs (snd (shm_server_run k shm_clean))))) \<subseteq> {Aborted}"
    by (rule runs_fifo_left)
  have c: "shm_client_run c shm_clean = (Aborted, shm_clean\<lparr>ipc_shm := True\<rparr>)"
    using assms(1,3) by (simp add: good_env_def shm_client_run_def OpenFIFO_def shm_clean_def)
  then show "fst (shm_client_run c shm_clean) = Aborted" by simp
  show "set (server_ends rs (fst (shm_runs rs (snd (shm_client_run c shm_clean))))) \<subseteq> {Aborted, Exited 1}"
    unfolding c using runs_segment_left [of "shm_clean\<lparr>ipc_shm := True\<rparr>" rs] by simp
qed

theorem shm_server_restarts_witness:
  "let e = \<lparr>se_key = 102, se_get = True, se_addr = 4096, se_fd = 3, se_talk = Talk_quit\<rparr> in
   shm_runs [Server e, Server e] shm_clean = ([Returned, Returned], shm_clean) \<and>
   set (server_ends [Server e, Client e, Server e] (fst (shm_runs [Server e, Client e, Server e]
     (snd (shm_client_run e shm_clean))))) \<subseteq> {Aborted, Exited 1}"
proof -
  let ?e = "\<lparr>se_key = 102, se_get = True, se_addr = 4096, se_fd = 3, se_talk = Talk_quit\<rparr>"
  have g: "good_env ?e" by (simp add: good_env_def)
  then have "\<forall>f \<in> set [?e, ?e]. good_env f" by simp
  from shm_server_restarts [OF g this refl refl, of "[Server ?e, Client ?e, Server ?e]"]
  show ?thesis by (simp add: numeral_2_eq_2 del: shm_runs.simps)
qed

end
