(* ===== verification/Tickets.thy ===== *)
theory Tickets
  imports Pthread
begin

text \<open>
  The ticket sale of 0110/mythread.cc, without a lock, and of 0112/mythread1.cc, where a
  mutex protects the test, the sale and the decrement. A step is one access to the shared
  counter; \<open>tickets--\<close> without the lock is a load and a store.
\<close>

datatype sale = Sold tid int

fun sold_ticket :: "sale \<Rightarrow> int" where "sold_ticket (Sold t v) = v"

section \<open>Without a lock\<close>

datatype race_pc = Rc_Test | Rc_Print | Rc_Load | Rc_Store int | Rc_End

record race_sys =
  rc_tickets :: int
  rc_pcs :: "race_pc list"

definition race_init :: "race_sys \<Rightarrow> bool" where
  "race_init s \<longleftrightarrow> s = \<lparr>rc_tickets = 10000, rc_pcs = [Rc_Test, Rc_Test, Rc_Test]\<rparr>"

inductive race_step :: "race_sys \<Rightarrow> sale option \<Rightarrow> race_sys \<Rightarrow> bool" where
  test_yes:
    "t < length (rc_pcs s) \<Longrightarrow> rc_pcs s ! t = Rc_Test \<Longrightarrow> 0 < rc_tickets s \<Longrightarrow>
     race_step s None (s\<lparr>rc_pcs := (rc_pcs s)[t := Rc_Print]\<rparr>)"
| test_no:
    "t < length (rc_pcs s) \<Longrightarrow> rc_pcs s ! t = Rc_Test \<Longrightarrow> rc_tickets s \<le> 0 \<Longrightarrow>
     race_step s None (s\<lparr>rc_pcs := (rc_pcs s)[t := Rc_End]\<rparr>)"
| print:
    "t < length (rc_pcs s) \<Longrightarrow> rc_pcs s ! t = Rc_Print \<Longrightarrow>
     race_step s (Some (Sold t (rc_tickets s))) (s\<lparr>rc_pcs := (rc_pcs s)[t := Rc_Load]\<rparr>)"
| load:
    "t < length (rc_pcs s) \<Longrightarrow> rc_pcs s ! t = Rc_Load \<Longrightarrow>
     race_step s None (s\<lparr>rc_pcs := (rc_pcs s)[t := Rc_Store (rc_tickets s)]\<rparr>)"
| store:
    "t < length (rc_pcs s) \<Longrightarrow> rc_pcs s ! t = Rc_Store v \<Longrightarrow>
     race_step s None (s\<lparr>rc_tickets := v - 1, rc_pcs := (rc_pcs s)[t := Rc_Test]\<rparr>)"

definition race_exec :: "tid \<Rightarrow> race_sys \<Rightarrow> (sale option \<times> race_sys) option" where
  "race_exec t s =
     (if length (rc_pcs s) \<le> t then None
      else
        let go = (\<lambda>p s'. s'\<lparr>rc_pcs := (rc_pcs s)[t := p]\<rparr>) in
        case rc_pcs s ! t of
          Rc_Test \<Rightarrow> Some (None, go (if 0 < rc_tickets s then Rc_Print else Rc_End) s)
        | Rc_Print \<Rightarrow> Some (Some (Sold t (rc_tickets s)), go Rc_Load s)
        | Rc_Load \<Rightarrow> Some (None, go (Rc_Store (rc_tickets s)) s)
        | Rc_Store v \<Rightarrow> Some (None, go Rc_Test (s\<lparr>rc_tickets := v - 1\<rparr>))
        | Rc_End \<Rightarrow> None)"

lemma race_exec_sound: "race_exec t s = Some (l, s') \<Longrightarrow> race_step s l s'"
  by (auto simp: race_exec_def Let_def split: race_pc.splits if_splits intro: race_step.intros)

lemma race_schedule_run: "schedule race_exec s cs = Some (es, s') \<Longrightarrow> Lts.run race_step s es s'"
  by (erule schedule_run) (rule race_exec_sound)

text \<open>One thread alone sells one ticket after the other.\<close>

definition race_at :: "int \<Rightarrow> race_sys" where
  "race_at n = \<lparr>rc_tickets = n, rc_pcs = [Rc_Test, Rc_Test, Rc_Test]\<rparr>"

lemma race_sell_one: "0 < n \<Longrightarrow> Lts.run race_step (race_at n) [Sold 0 n] (race_at (n - 1))"
  by (rule race_schedule_run [of _ "[0, 0, 0, 0]"]) (simp add: race_at_def race_exec_def)

lemma race_sell_down: "\<exists>es. Lts.run race_step (race_at (int (Suc k))) es (race_at 1)"
proof (induction k)
  case 0
  then show ?case using run_nil [of race_step "race_at 1"] by auto
next
  case (Suc k)
  then obtain es where r: "Lts.run race_step (race_at (int (Suc k))) es (race_at 1)" by blast
  have "int (Suc (Suc k)) - 1 = int (Suc k)" by simp
  then have "Lts.run race_step (race_at (int (Suc (Suc k)))) [Sold 0 (int (Suc (Suc k)))]
      (race_at (int (Suc k)))"
    using race_sell_one [of "int (Suc (Suc k))"] by (simp only:)
  from run_trans [OF r this] show ?case ..
qed

text \<open>
  Without the lock the program of 0110 oversells: from its 10000 tickets and three
  threads a run reaches \<open>tickets = -2\<close>, printing a ticket 0 and a ticket -1 on the way; and
  another run prints the same ticket three times.
\<close>

theorem unlocked_tickets_oversold:
  "(\<exists>s0 es s. race_init s0 \<and> Lts.run race_step s0 es s \<and> rc_tickets s = -2 \<and>
      Sold 1 0 \<in> set es \<and> Sold 2 (-1) \<in> set es) \<and>
   (\<exists>s0 s. race_init s0 \<and>
      Lts.run race_step s0 [Sold 0 10000, Sold 1 10000, Sold 2 10000] s)"
proof
  obtain es where "Lts.run race_step (race_at (int (Suc 9999))) es (race_at 1)"
    using race_sell_down by blast
  then have r1: "Lts.run race_step (race_at 10000) es (race_at 1)" by simp
  have i: "race_init (race_at 10000)" by (simp add: race_init_def race_at_def)
  let ?s = "\<lparr>rc_tickets = - 2, rc_pcs = [Rc_Test, Rc_Test, Rc_Test]\<rparr>"
  have "Lts.run race_step (race_at 1) [Sold 0 1, Sold 1 0, Sold 2 (-1)] ?s"
    by (rule race_schedule_run [of _ "[0, 1, 2, 0, 0, 0, 1, 1, 1, 2, 2, 2]"])
      (simp add: race_at_def race_exec_def)
  from run_trans [OF this r1] i
  show "\<exists>s0 es s. race_init s0 \<and> Lts.run race_step s0 es s \<and> rc_tickets s = -2 \<and>
      Sold 1 0 \<in> set es \<and> Sold 2 (-1) \<in> set es"
    by (intro exI [of _ "race_at 10000"] exI [of _ "es @ [Sold 0 1, Sold 1 0, Sold 2 (-1)]"]
        exI [of _ ?s]) simp
  let ?u = "\<lparr>rc_tickets = 10000, rc_pcs = [Rc_Load, Rc_Load, Rc_Load]\<rparr>"
  have "Lts.run race_step (race_at 10000) [Sold 0 10000, Sold 1 10000, Sold 2 10000] ?u"
    by (rule race_schedule_run [of _ "[0, 1, 2, 0, 1, 2]"]) (simp add: race_at_def race_exec_def)
  with i show "\<exists>s0 s. race_init s0 \<and>
      Lts.run race_step s0 [Sold 0 10000, Sold 1 10000, Sold 2 10000] s" by blast
qed

section \<open>With a lock\<close>

definition THREAD_NUM :: nat where "THREAD_NUM = 5"

datatype sell_pc = Sl_Lock | Sl_Test | Sl_Print | Sl_Dec | Sl_Unlock | Sl_Leave | Sl_End

record sell_sys =
  sl_tickets :: int
  sl_mtx :: mutex
  sl_pcs :: "sell_pc list"

definition sell_init :: "sell_sys \<Rightarrow> bool" where
  "sell_init s \<longleftrightarrow>
     s = \<lparr>sl_tickets = 10000, sl_mtx = None, sl_pcs = replicate THREAD_NUM Sl_Lock\<rparr>"

inductive sell_step :: "sell_sys \<Rightarrow> sale option \<Rightarrow> sell_sys \<Rightarrow> bool" where
  lock:
    "t < length (sl_pcs s) \<Longrightarrow> sl_pcs s ! t = Sl_Lock \<Longrightarrow> pthread_mutex_lock t (sl_mtx s) = Some m \<Longrightarrow>
     sell_step s None (s\<lparr>sl_mtx := m, sl_pcs := (sl_pcs s)[t := Sl_Test]\<rparr>)"
| test_yes:
    "t < length (sl_pcs s) \<Longrightarrow> sl_pcs s ! t = Sl_Test \<Longrightarrow> 0 < sl_tickets s \<Longrightarrow>
     sell_step s None (s\<lparr>sl_pcs := (sl_pcs s)[t := Sl_Print]\<rparr>)"
| test_no:
    "t < length (sl_pcs s) \<Longrightarrow> sl_pcs s ! t = Sl_Test \<Longrightarrow> sl_tickets s \<le> 0 \<Longrightarrow>
     sell_step s None (s\<lparr>sl_pcs := (sl_pcs s)[t := Sl_Leave]\<rparr>)"
| print:
    "t < length (sl_pcs s) \<Longrightarrow> sl_pcs s ! t = Sl_Print \<Longrightarrow>
     sell_step s (Some (Sold t (sl_tickets s))) (s\<lparr>sl_pcs := (sl_pcs s)[t := Sl_Dec]\<rparr>)"
| dec:
    "t < length (sl_pcs s) \<Longrightarrow> sl_pcs s ! t = Sl_Dec \<Longrightarrow>
     sell_step s None (s\<lparr>sl_tickets := sl_tickets s - 1, sl_pcs := (sl_pcs s)[t := Sl_Unlock]\<rparr>)"
| unlock:
    "t < length (sl_pcs s) \<Longrightarrow> sl_pcs s ! t = Sl_Unlock \<Longrightarrow> pthread_mutex_unlock t (sl_mtx s) = Some m \<Longrightarrow>
     sell_step s None (s\<lparr>sl_mtx := m, sl_pcs := (sl_pcs s)[t := Sl_Lock]\<rparr>)"
| leave:
    "t < length (sl_pcs s) \<Longrightarrow> sl_pcs s ! t = Sl_Leave \<Longrightarrow> pthread_mutex_unlock t (sl_mtx s) = Some m \<Longrightarrow>
     sell_step s None (s\<lparr>sl_mtx := m, sl_pcs := (sl_pcs s)[t := Sl_End]\<rparr>)"

text \<open>The abstract sale: the next ticket is always the counter's value, then one less.\<close>

fun sale_spec :: "int \<Rightarrow> sale \<Rightarrow> int option" where
  "sale_spec n (Sold t v) = (if v = n \<and> 0 < n then Some (n - 1) else None)"

lemma sale_spec_run:
  "abs_run sale_spec n es = Some m \<Longrightarrow>
   m = n - int (length es) \<and> (0 \<le> n \<longrightarrow> 0 \<le> m) \<and>
   (\<forall>i < length es. sold_ticket (es ! i) = n - int i)"
proof (induction es arbitrary: n)
  case Nil
  then show ?case by simp
next
  case (Cons e es)
  obtain t v where e: "e = Sold t v" by (cases e)
  with Cons.prems have v: "v = n" "0 < n" and r: "abs_run sale_spec (n - 1) es = Some m"
    by (auto split: if_splits)
  have "sold_ticket ((e # es) ! i) = n - int i" if "i < Suc (length es)" for i
    using Cons.IH [OF r] v e that by (cases i) auto
  with Cons.IH [OF r] v show ?case by simp
qed

section \<open>The invariant of the locked sale\<close>

fun sell_in_cs :: "sell_pc \<Rightarrow> bool" where
  "sell_in_cs Sl_Lock = False"
| "sell_in_cs Sl_End = False"
| "sell_in_cs _ = True"

definition sell_inv :: "sell_sys \<Rightarrow> bool" where
  "sell_inv s \<longleftrightarrow> mutex_inv sell_in_cs (sl_mtx s) (sl_pcs s) \<and> 0 \<le> sl_tickets s \<and>
     (\<forall>t < length (sl_pcs s). sl_pcs s ! t \<in> {Sl_Print, Sl_Dec} \<longrightarrow> 0 < sl_tickets s) \<and>
     (\<forall>t < length (sl_pcs s). sl_pcs s ! t \<in> {Sl_Leave, Sl_End} \<longrightarrow> sl_tickets s = 0)"

text \<open>The ticket that is printed but not yet taken off the counter counts as sold.\<close>

definition sell_abs :: "sell_sys \<Rightarrow> int" where
  "sell_abs s = sl_tickets s - (if \<exists>t < length (sl_pcs s). sl_pcs s ! t = Sl_Dec then 1 else 0)"

lemma dec_update:
  "t < length ps \<Longrightarrow> (\<exists>u < length ps. ps[t := p] ! u = Sl_Dec) \<longleftrightarrow>
     p = Sl_Dec \<or> (\<exists>u < length ps. u \<noteq> t \<and> ps ! u = Sl_Dec)"
  by (cases "p = Sl_Dec") (metis nth_list_update_eq, metis nth_list_update_eq nth_list_update_neq)

lemma sell_only:
  assumes "sell_inv s" and "t < length (sl_pcs s)" and "sell_in_cs (sl_pcs s ! t)"
    and "u < length (sl_pcs s)" and "u \<noteq> t"
  shows "\<not> sell_in_cs (sl_pcs s ! u)"
  using assms mutex_inv_unique [of sell_in_cs "sl_mtx s" "sl_pcs s" u t] by (auto simp: sell_inv_def)

lemma sell_step_inv: "sell_step s l s' \<Longrightarrow> sell_inv s \<Longrightarrow> sell_inv s'"
proof (induction rule: sell_step.induct)
  case (dec t s)
  have pos: "0 < sl_tickets s" using dec by (auto simp: sell_inv_def)
  have out: "sl_pcs s ! u \<notin> {Sl_Print, Sl_Dec, Sl_Leave}" if "u < length (sl_pcs s)" "u \<noteq> t" for u
    using sell_only [OF dec.prems dec.hyps(1) _ that] dec.hyps(2) by auto
  have noend: "sl_pcs s ! u \<noteq> Sl_End" if "u < length (sl_pcs s)" for u
    using dec.prems pos that by (auto simp: sell_inv_def)
  show ?case
    using dec pos out noend by (auto simp: sell_inv_def nth_list_update mutex_inv_stay)
qed (auto simp: sell_inv_def nth_list_update mutex_inv_acquire mutex_inv_release mutex_inv_stay)

lemma sell_tau_abs: "sell_inv s \<Longrightarrow> sell_step s None s' \<Longrightarrow> sell_abs s' = sell_abs s"
proof (erule sell_step.cases)
  fix t u
  assume inv: "sell_inv s" and eqs: "s = u" "None = None" "s' = u\<lparr>sl_tickets := sl_tickets u - 1, sl_pcs := (sl_pcs u)[t := Sl_Unlock]\<rparr>"
    and t: "t < length (sl_pcs u)" "sl_pcs u ! t = Sl_Dec"
  have "\<not> (\<exists>v < length (sl_pcs s). v \<noteq> t \<and> sl_pcs s ! v = Sl_Dec)"
    using sell_only [OF inv] t eqs(1) by fastforce
  with eqs t show "sell_abs s' = sell_abs s" by (auto simp: sell_abs_def dec_update)
qed (auto simp: sell_abs_def dec_update)

lemma sell_vis_abs:
  assumes inv: "sell_inv s" and step: "sell_step s (Some e) s'"
  shows "sale_spec (sell_abs s) e = Some (sell_abs s')"
  using step
proof cases
  case (print t)
  have "sl_pcs s ! v \<noteq> Sl_Dec" if "v < length (sl_pcs s)" for v
    using sell_only [OF inv, of t v] print that by (cases "v = t") auto
  then have "\<not> (\<exists>v < length (sl_pcs s). sl_pcs s ! v = Sl_Dec)" by blast
  moreover have "0 < sl_tickets s" using inv print by (auto simp: sell_inv_def)
  ultimately show ?thesis using print by (auto simp: sell_abs_def dec_update)
qed

lemma sell_init_inv: "sell_init s \<Longrightarrow> sell_inv s"
  by (auto simp: sell_init_def sell_inv_def mutex_inv_def)

interpretation sell: trace_refinement sell_init sell_step sell_inv sell_abs sale_spec
  by unfold_locales (auto intro: sell_init_inv sell_step_inv sell_tau_abs sell_vis_abs)

text \<open>Every step makes this smaller, so the sale ends.\<close>

fun sell_weight :: "sell_pc \<Rightarrow> nat" where
  "sell_weight Sl_Unlock = 6"
| "sell_weight Sl_Lock = 5"
| "sell_weight Sl_Test = 4"
| "sell_weight Sl_Print = 3"
| "sell_weight Sl_Dec = 2"
| "sell_weight Sl_Leave = 1"
| "sell_weight Sl_End = 0"

definition sell_measure :: "sell_sys \<Rightarrow> nat" where
  "sell_measure s = 5 * nat (sl_tickets s) + sum_list (map sell_weight (sl_pcs s))"

lemma weight_less:
  "t < length ps \<Longrightarrow> sell_weight p < sell_weight (ps ! t) \<Longrightarrow>
   sum_list (map sell_weight (ps[t := p])) < sum_list (map sell_weight ps)"
  using sum_list_nth_update [of t ps sell_weight p] by linarith

lemma sell_step_decreases: "sell_step s l s' \<Longrightarrow> sell_inv s \<Longrightarrow> sell_measure s' < sell_measure s"
proof (induction rule: sell_step.induct)
  case (dec t s)
  then have "0 < sl_tickets s" by (auto simp: sell_inv_def)
  then have "nat (sl_tickets s) = Suc (nat (sl_tickets s - 1))" by simp
  with sum_list_nth_update [of t "sl_pcs s" sell_weight Sl_Unlock] dec show ?case by (simp add: sell_measure_def)
qed (simp_all add: sell_measure_def weight_less)

lemma sell_progress:
  assumes "sell_inv s" and "t < length (sl_pcs s)" and "sl_pcs s ! t \<noteq> Sl_End"
  shows "\<exists>l s'. sell_step s l s'"
proof (cases "sl_mtx s")
  case None
  then have "sl_pcs s ! t = Sl_Lock"
    using assms mutex_inv_free [of sell_in_cs "sl_pcs s" t]
    by (cases "sl_pcs s ! t") (auto simp: sell_inv_def)
  with None assms(2) show ?thesis using sell_step.lock [of t s "Some t"] by auto
next
  case (Some u)
  then have u: "u < length (sl_pcs s)" "sell_in_cs (sl_pcs s ! u)"
    using assms(1) mutex_inv_held [of sell_in_cs u "sl_pcs s"] by (auto simp: sell_inv_def)
  with Some show ?thesis
    using sell_step.test_yes [of u s] sell_step.test_no [of u s] sell_step.print [of u s]
      sell_step.dec [of u s] sell_step.unlock [of u s None] sell_step.leave [of u s None]
    by (cases "sl_pcs s ! u"; cases "0 < sl_tickets s") auto
qed

text \<open>
  C29. With the lock the program of 0112 sells its 10000 tickets one by one, from 10000
  downwards, whatever the interleaving of its five threads: the \<open>i\<close>-th sale is ticket
  \<open>10000 - i\<close> and the counter never goes below 0. Some thread can go on until all have
  ended, every run is finite, and when the threads have ended all tickets are sold.
\<close>

theorem locked_tickets_sold_once:
  assumes "sell_init s0" and "Lts.run sell_step s0 es s"
  shows "(\<forall>i < length es. sold_ticket (es ! i) = 10000 - int i) \<and> 0 \<le> sl_tickets s \<and>
     ((\<exists>t < length (sl_pcs s). sl_pcs s ! t \<noteq> Sl_End) \<longrightarrow> (\<exists>l s'. sell_step s l s')) \<and>
     (\<forall>l s'. sell_step s l s' \<longrightarrow> sell_measure s' < sell_measure s) \<and>
     (sl_pcs s = replicate THREAD_NUM Sl_End \<longrightarrow> length es = 10000)"
proof -
  have inv: "sell_inv s" by (rule sell.inv_run [OF assms(2) sell_init_inv [OF assms(1)]])
  have "sell_abs s0 = 10000" using assms(1) by (auto simp: sell_init_def sell_abs_def)
  with sell.trace_refines [OF assms] have "abs_run sale_spec 10000 es = Some (sell_abs s)" by simp
  from sale_spec_run [OF this] have a: "sell_abs s = 10000 - int (length es)"
    and sold: "\<forall>i < length es. sold_ticket (es ! i) = 10000 - int i" by simp_all
  have "length es = 10000" if e: "sl_pcs s = replicate THREAD_NUM Sl_End"
  proof -
    have "0 < length (sl_pcs s) \<and> sl_pcs s ! 0 = Sl_End" using e by (simp add: THREAD_NUM_def)
    then have "sl_tickets s = 0" using inv by (metis insertCI sell_inv_def)
    moreover have "sell_abs s = sl_tickets s" using e by (auto simp: sell_abs_def)
    ultimately show ?thesis using a by simp
  qed
  with sold inv sell_progress [OF inv] sell_step_decreases [OF _ inv] show ?thesis
    by (auto simp: sell_inv_def)
qed

text \<open>The first sale of the first thread.\<close>

theorem locked_tickets_sold_once_witness:
  "\<exists>s. 0 \<le> sl_tickets s \<and> sl_tickets s = 9999 \<and> (\<exists>l s'. sell_step s l s')"
proof -
  define s0 where "s0 = \<lparr>sl_tickets = 10000, sl_mtx = None, sl_pcs = replicate THREAD_NUM Sl_Lock\<rparr>"
  have i: "sell_init s0" by (simp add: sell_init_def s0_def)
  have st: "sell_step s0 None (s0\<lparr>sl_mtx := Some 0, sl_pcs := (sl_pcs s0)[0 := Sl_Test]\<rparr>)"
    (is "sell_step _ _ ?s1")
    by (rule sell_step.lock) (simp_all add: s0_def THREAD_NUM_def)
  have 2: "sell_step ?s1 None (?s1\<lparr>sl_pcs := (sl_pcs ?s1)[0 := Sl_Print]\<rparr>)" (is "sell_step _ _ ?s2")
    by (rule sell_step.test_yes) (simp_all add: s0_def THREAD_NUM_def)
  have 3: "sell_step ?s2 (Some (Sold 0 (sl_tickets ?s2))) (?s2\<lparr>sl_pcs := (sl_pcs ?s2)[0 := Sl_Dec]\<rparr>)"
    (is "sell_step _ _ ?s3")
    by (rule sell_step.print) (simp_all add: s0_def THREAD_NUM_def)
  have 4: "sell_step ?s3 None (?s3\<lparr>sl_tickets := sl_tickets ?s3 - 1, sl_pcs := (sl_pcs ?s3)[0 := Sl_Unlock]\<rparr>)"
    (is "sell_step _ _ ?s4")
    by (rule sell_step.dec) (simp_all add: s0_def THREAD_NUM_def)
  have r: "Lts.run sell_step s0 ([] @ [Sold 0 (sl_tickets ?s2)]) ?s4"
    by (rule run_tau [where S = sell_step, OF run_vis [where S = sell_step,
          OF run_tau [where S = sell_step, OF run_tau [where S = sell_step, OF run_nil st] 2] 3] 4])
  have "\<exists>t < length (sl_pcs ?s4). sl_pcs ?s4 ! t \<noteq> Sl_End"
    by (rule exI [of _ 0]) (simp add: s0_def THREAD_NUM_def)
  with locked_tickets_sold_once [OF i r] have "\<exists>l s'. sell_step ?s4 l s'" by blast
  then show ?thesis by (intro exI [of _ ?s4]) (simp add: s0_def)
qed

end
