(* ===== verification/Cond_Control.thy ===== *)
theory Cond_Control
  imports Pthread
begin

text \<open>
  0113/demo/mycond.cc: four threads that wait on one condition variable and print when they
  are woken, and a main thread that signals ten times, sets \<open>quit\<close>, broadcasts once and
  joins them. The four functions differ in the letter they print. A step is one access to
  the shared state; \<open>quit\<close> is read without the lock, as in the code.
\<close>

section \<open>The threads\<close>

datatype cc_pc = Cc_Check | Cc_Lock | Cc_Enter | Cc_Wait | Cc_Wake | Cc_Print | Cc_Unlock | Cc_End

datatype cc_main = Mc_Signal nat | Mc_Quit | Mc_Broadcast | Mc_Join nat | Mc_Done

definition TNUM :: nat where "TNUM = 4"

record cc_sys =
  cc_quit :: bool
  cc_mtx :: mutex
  cc_pcs :: "cc_pc list"
  cc_main :: cc_main

datatype cc_event = Running tid

definition cc_waits :: "cc_pc \<Rightarrow> bool" where
  "cc_waits p \<longleftrightarrow> p = Cc_Wait"

definition cc_wake :: "cc_pc \<Rightarrow> cc_pc" where
  "cc_wake p = (if p = Cc_Wait then Cc_Wake else p)"

definition cc_init :: "cc_sys \<Rightarrow> bool" where
  "cc_init s \<longleftrightarrow>
     s = \<lparr>cc_quit = False, cc_mtx = None, cc_pcs = replicate TNUM Cc_Check, cc_main = Mc_Signal 10\<rparr>"

text \<open>\<open>func1\<close> to \<open>func4\<close>. \<open>Cc_Enter\<close> is about to call \<open>pthread_cond_wait\<close> with the lock held.\<close>

inductive func_step :: "cc_sys \<Rightarrow> cc_event option \<Rightarrow> cc_sys \<Rightarrow> bool" where
  check_run:
    "t < length (cc_pcs s) \<Longrightarrow> cc_pcs s ! t = Cc_Check \<Longrightarrow> \<not> cc_quit s \<Longrightarrow>
     func_step s None (s\<lparr>cc_pcs := (cc_pcs s)[t := Cc_Lock]\<rparr>)"
| check_quit:
    "t < length (cc_pcs s) \<Longrightarrow> cc_pcs s ! t = Cc_Check \<Longrightarrow> cc_quit s \<Longrightarrow>
     func_step s None (s\<lparr>cc_pcs := (cc_pcs s)[t := Cc_End]\<rparr>)"
| lock:
    "t < length (cc_pcs s) \<Longrightarrow> cc_pcs s ! t = Cc_Lock \<Longrightarrow> pthread_mutex_lock t (cc_mtx s) = Some m \<Longrightarrow>
     func_step s None (s\<lparr>cc_mtx := m, cc_pcs := (cc_pcs s)[t := Cc_Enter]\<rparr>)"
| wait:
    "t < length (cc_pcs s) \<Longrightarrow> cc_pcs s ! t = Cc_Enter \<Longrightarrow> pthread_mutex_unlock t (cc_mtx s) = Some m \<Longrightarrow>
     func_step s None (s\<lparr>cc_mtx := m, cc_pcs := (cc_pcs s)[t := Cc_Wait]\<rparr>)"
| woken:
    "t < length (cc_pcs s) \<Longrightarrow> cc_pcs s ! t = Cc_Wake \<Longrightarrow> pthread_mutex_lock t (cc_mtx s) = Some m \<Longrightarrow>
     func_step s None (s\<lparr>cc_mtx := m, cc_pcs := (cc_pcs s)[t := Cc_Print]\<rparr>)"
| print:
    "t < length (cc_pcs s) \<Longrightarrow> cc_pcs s ! t = Cc_Print \<Longrightarrow>
     func_step s (Some (Running t)) (s\<lparr>cc_pcs := (cc_pcs s)[t := Cc_Unlock]\<rparr>)"
| unlock:
    "t < length (cc_pcs s) \<Longrightarrow> cc_pcs s ! t = Cc_Unlock \<Longrightarrow> pthread_mutex_unlock t (cc_mtx s) = Some m \<Longrightarrow>
     func_step s None (s\<lparr>cc_mtx := m, cc_pcs := (cc_pcs s)[t := Cc_Check]\<rparr>)"

text \<open>\<open>main\<close> after it has created the threads.\<close>

inductive cc_main_step :: "cc_sys \<Rightarrow> cc_sys \<Rightarrow> bool" where
  signal:
    "cc_main s = Mc_Signal (Suc k) \<Longrightarrow> pthread_cond_signal cc_waits cc_wake (cc_pcs s) ps \<Longrightarrow>
     cc_main_step s (s\<lparr>cc_pcs := ps, cc_main := Mc_Signal k\<rparr>)"
| signals_done:
    "cc_main s = Mc_Signal 0 \<Longrightarrow> cc_main_step s (s\<lparr>cc_main := Mc_Quit\<rparr>)"
| quit:
    "cc_main s = Mc_Quit \<Longrightarrow> cc_main_step s (s\<lparr>cc_quit := True, cc_main := Mc_Broadcast\<rparr>)"
| broadcast:
    "cc_main s = Mc_Broadcast \<Longrightarrow>
     cc_main_step s (s\<lparr>cc_pcs := pthread_cond_broadcast cc_waits cc_wake (cc_pcs s), cc_main := Mc_Join 0\<rparr>)"
| join:
    "cc_main s = Mc_Join i \<Longrightarrow> i < length (cc_pcs s) \<Longrightarrow> cc_pcs s ! i = Cc_End \<Longrightarrow>
     cc_main_step s (s\<lparr>cc_main := Mc_Join (Suc i)\<rparr>)"
| joined:
    "cc_main s = Mc_Join (length (cc_pcs s)) \<Longrightarrow> cc_main_step s (s\<lparr>cc_main := Mc_Done\<rparr>)"

definition cc_step :: "cc_sys \<Rightarrow> cc_event option \<Rightarrow> cc_sys \<Rightarrow> bool" where
  "cc_step s l s' \<longleftrightarrow> func_step s l s' \<or> (l = None \<and> cc_main_step s s')"

text \<open>The same as a function: thread \<open>t\<close>, or main when \<open>t\<close> is no thread, waking \<open>u\<close>.\<close>

definition cc_exec :: "tid \<times> tid \<Rightarrow> cc_sys \<Rightarrow> (cc_event option \<times> cc_sys) option" where
  "cc_exec = (\<lambda>(t, u) s.
     if t < length (cc_pcs s) then
       (let go = (\<lambda>p s'. s'\<lparr>cc_pcs := (cc_pcs s)[t := p]\<rparr>) in
        case cc_pcs s ! t of
          Cc_Check \<Rightarrow> Some (None, go (if cc_quit s then Cc_End else Cc_Lock) s)
        | Cc_Lock \<Rightarrow> map_option (\<lambda>m. (None, go Cc_Enter (s\<lparr>cc_mtx := m\<rparr>))) (pthread_mutex_lock t (cc_mtx s))
        | Cc_Enter \<Rightarrow> map_option (\<lambda>m. (None, go Cc_Wait (s\<lparr>cc_mtx := m\<rparr>))) (pthread_mutex_unlock t (cc_mtx s))
        | Cc_Wait \<Rightarrow> None
        | Cc_Wake \<Rightarrow> map_option (\<lambda>m. (None, go Cc_Print (s\<lparr>cc_mtx := m\<rparr>))) (pthread_mutex_lock t (cc_mtx s))
        | Cc_Print \<Rightarrow> Some (Some (Running t), go Cc_Unlock s)
        | Cc_Unlock \<Rightarrow> map_option (\<lambda>m. (None, go Cc_Check (s\<lparr>cc_mtx := m\<rparr>))) (pthread_mutex_unlock t (cc_mtx s))
        | Cc_End \<Rightarrow> None)
     else
       (case cc_main s of
          Mc_Signal 0 \<Rightarrow> Some (None, s\<lparr>cc_main := Mc_Quit\<rparr>)
        | Mc_Signal (Suc k) \<Rightarrow>
            map_option (\<lambda>ps. (None, s\<lparr>cc_pcs := ps, cc_main := Mc_Signal k\<rparr>))
              (signal_choice cc_waits cc_wake (cc_pcs s) u)
        | Mc_Quit \<Rightarrow> Some (None, s\<lparr>cc_quit := True, cc_main := Mc_Broadcast\<rparr>)
        | Mc_Broadcast \<Rightarrow>
            Some (None, s\<lparr>cc_pcs := pthread_cond_broadcast cc_waits cc_wake (cc_pcs s), cc_main := Mc_Join 0\<rparr>)
        | Mc_Join i \<Rightarrow>
            if i = length (cc_pcs s) then Some (None, s\<lparr>cc_main := Mc_Done\<rparr>)
            else if i < length (cc_pcs s) \<and> cc_pcs s ! i = Cc_End
            then Some (None, s\<lparr>cc_main := Mc_Join (Suc i)\<rparr>) else None
        | Mc_Done \<Rightarrow> None))"

lemma cc_exec_sound: "cc_exec c s = Some (l, s') \<Longrightarrow> cc_step s l s'"
  using func_step.intros [of "fst c" s] cc_main_step.intros [where s = s]
  by (auto simp: cc_exec_def Let_def cc_step_def
      split: cc_pc.splits cc_main.splits nat.splits if_splits prod.splits dest!: signal_choice_sound)

lemma cc_schedule_run: "schedule cc_exec s cs = Some (es, s') \<Longrightarrow> Lts.run cc_step s es s'"
  by (erule schedule_run) (rule cc_exec_sound)

section \<open>The join that hangs\<close>

text \<open>Thread 0 has seen \<open>quit\<close> unset and goes to sleep after the last broadcast.\<close>

definition cc_stuck :: cc_sys where
  "cc_stuck = \<lparr>cc_quit = True, cc_mtx = None, cc_pcs = [Cc_Wait, Cc_End, Cc_End, Cc_End],
              cc_main = Mc_Join 0\<rparr>"

definition cc_bad_schedule :: "(tid \<times> tid) list" where
  "cc_bad_schedule = (0, 0) # replicate 13 (4, 0) @
     [(0, 0), (0, 0), (1, 0), (2, 0), (3, 0)]"

text \<open>
  The program can hang: a run without spurious wake-ups leads to a state where main
  waits in its first \<open>pthread_join\<close> for a thread that sleeps for ever, and no step is left.
\<close>

theorem mycond_join_hangs:
  "\<exists>s0. cc_init s0 \<and> Lts.run cc_step s0 [] cc_stuck \<and> (\<forall>l s'. \<not> cc_step cc_stuck l s')"
proof -
  define s0 where "s0 = \<lparr>cc_quit = False, cc_mtx = None, cc_pcs = [Cc_Check, Cc_Check, Cc_Check, Cc_Check],
    cc_main = Mc_Signal 10\<rparr>"
  have i: "cc_init s0" by (simp add: cc_init_def s0_def TNUM_def numeral_eq_Suc)
  have "schedule cc_exec s0 cc_bad_schedule = Some ([], cc_stuck)"
    by (simp add: s0_def cc_bad_schedule_def cc_stuck_def cc_exec_def Let_def numeral_eq_Suc
        signal_choice_def cc_waits_def cc_wake_def pthread_cond_broadcast_def
        pthread_mutex_lock_def pthread_mutex_unlock_def)
  then have r: "Lts.run cc_step s0 [] cc_stuck" by (rule cc_schedule_run)
  have "\<not> func_step cc_stuck l s'" for l s'
    by (auto simp: cc_stuck_def nth_Cons less_Suc_eq elim!: func_step.cases split: nat.splits)
  moreover have "\<not> cc_main_step cc_stuck s'" for s'
    by (auto simp: cc_stuck_def elim!: cc_main_step.cases)
  ultimately show ?thesis using i r by (auto simp: cc_step_def)
qed

section \<open>How often the threads run\<close>

fun cc_in_cs :: "cc_pc \<Rightarrow> bool" where
  "cc_in_cs Cc_Enter = True"
| "cc_in_cs Cc_Print = True"
| "cc_in_cs Cc_Unlock = True"
| "cc_in_cs _ = False"

fun cc_woken :: "cc_pc \<Rightarrow> bool" where
  "cc_woken Cc_Wake = True"
| "cc_woken Cc_Print = True"
| "cc_woken _ = False"

definition cc_budget :: "cc_sys \<Rightarrow> nat" where
  "cc_budget s = count_pc cc_woken (cc_pcs s) +
     (case cc_main s of
        Mc_Signal k \<Rightarrow> k + length (cc_pcs s)
      | Mc_Quit \<Rightarrow> length (cc_pcs s)
      | Mc_Broadcast \<Rightarrow> length (cc_pcs s)
      | _ \<Rightarrow> 0)"

definition cc_inv :: "cc_sys \<Rightarrow> bool" where
  "cc_inv s \<longleftrightarrow> mutex_inv cc_in_cs (cc_mtx s) (cc_pcs s)"

lemma cc_main_inv: "cc_main_step s s' \<Longrightarrow> cc_inv s \<Longrightarrow> cc_inv s'"
proof (induction rule: cc_main_step.induct)
  case (signal s k ps)
  then show ?case
    using mutex_inv_signal [OF signal.hyps(2), of cc_in_cs "cc_mtx s"]
    by (auto simp: cc_inv_def cc_waits_def cc_wake_def)
next
  case (broadcast s)
  then show ?case
    by (auto simp: cc_inv_def mutex_inv_def pthread_cond_broadcast_def cc_waits_def cc_wake_def)
qed (simp_all add: cc_inv_def)

lemma cc_func_inv: "func_step s l s' \<Longrightarrow> cc_inv s \<Longrightarrow> cc_inv s'"
  by (induction rule: func_step.induct)
    (auto simp: cc_inv_def mutex_inv_acquire mutex_inv_release mutex_inv_stay)

lemma cc_step_inv: "cc_inv s \<Longrightarrow> cc_step s l s' \<Longrightarrow> cc_inv s'"
  using cc_main_inv cc_func_inv by (auto simp: cc_step_def)

lemma func_budget: "func_step s l s' \<Longrightarrow> cc_budget s' + (if l = None then 0 else 1) = cc_budget s"
proof (induction rule: func_step.induct)
  case (print t s)
  then show ?case
    using count_pc_leave [of t "cc_pcs s" cc_woken Cc_Unlock] by (simp add: cc_budget_def split: cc_main.splits)
qed (auto simp: cc_budget_def count_pc_simps split: cc_main.splits)

lemma main_budget: "cc_main_step s s' \<Longrightarrow> cc_budget s' \<le> cc_budget s"
proof (induction rule: cc_main_step.induct)
  case (signal s k ps)
  from signal.hyps(2) have "count_pc cc_woken ps \<le> Suc (count_pc cc_woken (cc_pcs s))"
    by cases (auto simp: cc_waits_def cc_wake_def count_pc_simps)
  with signal signal_length [OF signal.hyps(2)] show ?case by (simp add: cc_budget_def)
next
  case (broadcast s)
  have "count_pc cc_woken (pthread_cond_broadcast cc_waits cc_wake ps) \<le> count_pc cc_woken ps + length ps" for ps
    using length_filter_le [of cc_woken "pthread_cond_broadcast cc_waits cc_wake ps"]
    by (simp add: count_pc_def pthread_cond_broadcast_def trans_le_add2)
  with broadcast show ?case by (simp add: cc_budget_def)
qed (auto simp: cc_budget_def)

interpretation ccb: event_budget cc_step cc_inv cc_budget
proof unfold_locales
  fix s l s' assume "cc_inv s" and "cc_step s l s'"
  then show "cc_inv s'" by (rule cc_step_inv)
next
  fix s s' assume "cc_step s None s'"
  then show "cc_budget s' \<le> cc_budget s"
    using func_budget [of s None s'] main_budget by (auto simp: cc_step_def)
next
  fix s e s' assume "cc_step s (Some e) s'"
  then show "cc_budget s' < cc_budget s"
    using func_budget [of s "Some e" s'] by (auto simp: cc_step_def)
qed

text \<open>
  Main controls its threads: without spurious wake-ups they run at most 14 times
  together, once per signal and once each after the broadcast, and one at a time: a thread
  that prints holds the lock.
\<close>

theorem mycond_runs_bounded:
  assumes "cc_init s0" and "Lts.run cc_step s0 es s"
  shows "length es \<le> 14 \<and>
     (\<forall>t u. t < length (cc_pcs s) \<and> u < length (cc_pcs s) \<and>
        cc_pcs s ! t = Cc_Print \<and> cc_pcs s ! u = Cc_Print \<longrightarrow> t = u)"
proof -
  have i: "cc_inv s0" using assms(1) by (auto simp: cc_init_def cc_inv_def mutex_inv_def)
  have inv: "cc_inv s" by (rule ccb.run_budget_ok [OF assms(2) i])
  have "t = u" if "t < length (cc_pcs s)" "u < length (cc_pcs s)" "cc_pcs s ! t = Cc_Print"
    "cc_pcs s ! u = Cc_Print" for t u
    using mutex_inv_unique [OF inv [unfolded cc_inv_def] that(1,2)] that(3,4) by simp
  moreover have "cc_budget s0 = 14"
    using assms(1) by (simp add: cc_init_def cc_budget_def TNUM_def count_pc_def)
  ultimately show ?thesis
    using ccb.run_budget [OF assms(2) i] by fastforce
qed

lemma cc_demo_run:
  "\<exists>s0 s. cc_init s0 \<and> Lts.run cc_step s0 [Running 0] s"
proof -
  define s0 where "s0 = \<lparr>cc_quit = False, cc_mtx = None, cc_pcs = [Cc_Check, Cc_Check, Cc_Check, Cc_Check],
    cc_main = Mc_Signal 10\<rparr>"
  have i: "cc_init s0" by (simp add: cc_init_def s0_def TNUM_def numeral_eq_Suc)
  have "\<exists>s. schedule cc_exec s0 [(0, 0), (0, 0), (0, 0), (4, 0), (0, 0), (0, 0)] = Some ([Running 0], s)"
    by (simp add: s0_def cc_exec_def Let_def numeral_eq_Suc signal_choice_def cc_waits_def cc_wake_def
        pthread_mutex_lock_def pthread_mutex_unlock_def)
  with i show ?thesis using cc_schedule_run by blast
qed

theorem mycond_runs_bounded_witness:
  "\<exists>s0 s. Lts.run cc_step s0 [Running 0] s \<and> length [Running 0] \<le> 14"
  using cc_demo_run mycond_runs_bounded by blast

section \<open>When it ends\<close>

text \<open>After the broadcast, with every thread waiting for the lock, running or ended.\<close>

definition cc_released :: "cc_sys \<Rightarrow> bool" where
  "cc_released s \<longleftrightarrow> cc_inv s \<and> cc_quit s \<and>
     (\<forall>t < length (cc_pcs s). cc_pcs s ! t \<in> {Cc_Wake, Cc_Print, Cc_Unlock, Cc_Check, Cc_End}) \<and>
     (cc_main s = Mc_Done \<or>
      (\<exists>i \<le> length (cc_pcs s). cc_main s = Mc_Join i \<and> (\<forall>t < i. cc_pcs s ! t = Cc_End)))"

fun cc_left :: "cc_pc \<Rightarrow> nat" where
  "cc_left Cc_Wake = 4"
| "cc_left Cc_Print = 3"
| "cc_left Cc_Unlock = 2"
| "cc_left Cc_Check = 1"
| "cc_left _ = 0"

definition mc_left :: "nat \<Rightarrow> cc_main \<Rightarrow> nat" where
  "mc_left n m = (case m of Mc_Join i \<Rightarrow> Suc n - i | _ \<Rightarrow> 0)"

definition cc_work :: "cc_sys \<Rightarrow> nat" where
  "cc_work s = sum_list (map cc_left (cc_pcs s)) + mc_left (length (cc_pcs s)) (cc_main s)"

lemma left_update:
  assumes "t < length ps" and "cc_left p < cc_left (ps ! t)"
  shows "sum_list (map cc_left (ps[t := p])) < sum_list (map cc_left ps)"
  using assms
proof (induction ps arbitrary: t)
  case (Cons q ps)
  then show ?case by (cases t) simp_all
qed simp

lemma released_func:
  "func_step s l s' \<Longrightarrow> cc_released s \<Longrightarrow> cc_released s' \<and> cc_work s' < cc_work s"
proof (induction rule: func_step.induct)
  case (woken t s m)
  then show ?case using cc_func_inv [OF func_step.woken [OF woken.hyps]]
    by (auto simp: cc_released_def cc_work_def left_update nth_list_update)
next
  case (print t s)
  then show ?case using cc_func_inv [OF func_step.print [OF print.hyps]]
    by (auto simp: cc_released_def cc_work_def left_update nth_list_update)
next
  case (unlock t s m)
  then show ?case using cc_func_inv [OF func_step.unlock [OF unlock.hyps]]
    by (auto simp: cc_released_def cc_work_def left_update nth_list_update)
next
  case (check_quit t s)
  then show ?case using cc_func_inv [OF func_step.check_quit [OF check_quit.hyps]]
    by (auto simp: cc_released_def cc_work_def left_update nth_list_update)
qed (auto simp: cc_released_def)

lemma released_main:
  "cc_main_step s s' \<Longrightarrow> cc_released s \<Longrightarrow> cc_released s' \<and> cc_work s' < cc_work s"
  by (induction rule: cc_main_step.induct)
    (auto simp: cc_released_def cc_work_def mc_left_def cc_inv_def less_Suc_eq)

lemma released_progress:
  assumes r: "cc_released s" and nd: "cc_main s \<noteq> Mc_Done"
  shows "\<exists>l s'. cc_step s l s'"
proof -
  obtain i where i: "i \<le> length (cc_pcs s)" "cc_main s = Mc_Join i"
    using r nd by (auto simp: cc_released_def)
  show ?thesis
  proof (cases "i < length (cc_pcs s) \<and> cc_pcs s ! i \<noteq> Cc_End")
    case False
    then show ?thesis
      using i cc_main_step.join [of s i] cc_main_step.joined [of s] by (cases "i = length (cc_pcs s)") (auto simp: cc_step_def)
  next
    case True
    then have pc: "cc_pcs s ! i \<in> {Cc_Wake, Cc_Print, Cc_Unlock, Cc_Check}"
      using r by (auto simp: cc_released_def)
    have mi: "mutex_inv cc_in_cs (cc_mtx s) (cc_pcs s)" using r by (simp add: cc_released_def cc_inv_def)
    have q: "cc_quit s" using r by (simp add: cc_released_def)
    show ?thesis
    proof (cases "cc_mtx s")
      case None
      with pc True q mi show ?thesis
        using func_step.woken [of i s "Some i"] func_step.check_quit [of i s] mutex_inv_free [of cc_in_cs "cc_pcs s" i]
        by (auto simp: cc_step_def)
    next
      case (Some u)
      then have u: "u < length (cc_pcs s)" "cc_in_cs (cc_pcs s ! u)" using mi mutex_inv_held by auto
      then have "cc_pcs s ! u \<in> {Cc_Print, Cc_Unlock}" using r by (auto simp: cc_released_def)
      then show ?thesis
        using u Some func_step.print [of u s] func_step.unlock [of u s None] by (auto simp: cc_step_def)
    qed
  qed
qed

text \<open>
  When every thread is in its wait (or woken, or past it) at the moment of the broadcast,
  the program ends: after the broadcast some step is always possible until main has joined
  all threads, and every step brings the end nearer.
\<close>

theorem mycond_ends_when_all_wait:
  assumes "cc_inv s" and "cc_quit s" and "cc_main s = Mc_Broadcast"
    and "\<forall>t < length (cc_pcs s).
      cc_pcs s ! t \<in> {Cc_Wait, Cc_Wake, Cc_Print, Cc_Unlock, Cc_Check, Cc_End}"
    and "cc_main_step s s1" and "Lts.run cc_step s1 es s'"
  shows "(cc_main s' \<noteq> Mc_Done \<longrightarrow> (\<exists>l u. cc_step s' l u)) \<and>
     (\<forall>l u. cc_step s' l u \<longrightarrow> cc_work u < cc_work s')"
proof -
  have "s1 = s\<lparr>cc_pcs := pthread_cond_broadcast cc_waits cc_wake (cc_pcs s), cc_main := Mc_Join 0\<rparr>"
    using assms(5,3) by (auto elim: cc_main_step.cases)
  moreover have "cc_inv s1" by (rule cc_main_inv [OF assms(5,1)])
  ultimately have "cc_released s1"
    using assms(2,4) by (auto simp: cc_released_def pthread_cond_broadcast_def cc_waits_def cc_wake_def)
  with assms(6) have "cc_released s'"
    by (induction rule: run.induct) (auto simp: cc_step_def dest: released_func released_main)
  then show ?thesis
    using released_progress released_func released_main by (auto simp: cc_step_def)
qed

theorem mycond_ends_when_all_wait_witness:
  "\<exists>s s1. cc_main_step s s1 \<and> cc_pcs s = [Cc_Wait, Cc_Wait, Cc_Wait, Cc_Wait] \<and>
     (\<exists>l u. cc_step s1 l u)"
proof -
  let ?s = "\<lparr>cc_quit = True, cc_mtx = None, cc_pcs = [Cc_Wait, Cc_Wait, Cc_Wait, Cc_Wait],
    cc_main = Mc_Broadcast\<rparr>"
  let ?s1 = "?s\<lparr>cc_pcs := pthread_cond_broadcast cc_waits cc_wake (cc_pcs ?s), cc_main := Mc_Join 0\<rparr>"
  have inv: "cc_inv ?s" by (auto simp: cc_inv_def mutex_inv_def nth_Cons split: nat.splits)
  have st: "cc_main_step ?s ?s1" by (rule cc_main_step.broadcast) simp
  have "\<forall>t < length (cc_pcs ?s). cc_pcs ?s ! t \<in> {Cc_Wait, Cc_Wake, Cc_Print, Cc_Unlock, Cc_Check, Cc_End}"
    by (auto simp: nth_Cons split: nat.splits)
  from mycond_ends_when_all_wait [OF inv _ _ this st run_nil] have "\<exists>l u. cc_step ?s1 l u" by simp
  with st show ?thesis by (intro exI [of _ ?s] exI [of _ ?s1]) simp
qed

end
