(* ===== verification/Signals.thy ===== *)
theory Signals
  imports Prelude
begin

text \<open>
  Signals and waiting: 0105/mysignal.cc (block signals 1 to 32 and show the pending set),
  0108/mysignal1.cc (a handler with a mask), the status word of 0104/signal2.cc, 0104/mykill.cc
  and the waiting parent of 0919/myproc.cc. What the kernel does with a signal is the
  documented behaviour: a blocked signal is remembered once, \<open>SIGKILL\<close> and \<open>SIGSTOP\<close> cannot
  be blocked.
\<close>

section \<open>Signal sets and a process\<close>

type_synonym sigset = "nat set"

definition SIGKILL :: nat where "SIGKILL = 9"

definition SIGSTOP :: nat where "SIGSTOP = 19"

text \<open>The sets are of signals 1 to 64; \<open>sigaddset\<close> refuses any other number.\<close>

definition sigemptyset :: sigset where "sigemptyset = {}"

definition sigaddset :: "nat \<Rightarrow> sigset \<Rightarrow> sigset" where
  "sigaddset sig b = (if 1 \<le> sig \<and> sig \<le> 64 then insert sig b else b)"

record sig_proc =
  sp_blocked :: sigset
  sp_pending :: sigset

definition sig_block :: "sigset \<Rightarrow> sig_proc \<Rightarrow> sig_proc" where
  "sig_block b p = p\<lparr>sp_blocked := sp_blocked p \<union> (b - {SIGKILL, SIGSTOP})\<rparr>"

text \<open>A signal that arrives: remembered when it is blocked, otherwise delivered.\<close>

definition sig_arrive :: "nat \<Rightarrow> sig_proc \<Rightarrow> sig_proc \<times> bool" where
  "sig_arrive sig p =
     (if sig \<in> sp_blocked p then (p\<lparr>sp_pending := insert sig (sp_pending p)\<rparr>, False) else (p, True))"

section \<open>0105/mysignal.cc\<close>

text \<open>\<open>for (int sig = 1; sig <= 31; sig++)\<close> prints a 1 or a 0 for each signal.\<close>

definition showPending :: "sigset \<Rightarrow> string" where
  "showPending pending =
     map (\<lambda>sig. if sig \<in> pending then CHR ''1'' else CHR ''0'') [1..<32] @ [CHR 0x0A]"

definition blockSig :: "nat \<Rightarrow> sig_proc \<Rightarrow> sig_proc" where
  "blockSig sig p = sig_block (sigaddset sig sigemptyset) p"

definition block_all :: "sig_proc \<Rightarrow> sig_proc" where
  "block_all p = foldl (\<lambda>p sig. blockSig sig p) p [1..<33]"

text \<open>
  The loop of \<open>main\<close>: before each line some signals have arrived. The lines printed, and
  whether the process has been stopped or killed by a signal it does not block.
\<close>

fun arrive_all :: "nat list \<Rightarrow> sig_proc \<Rightarrow> sig_proc \<times> bool" where
  "arrive_all [] p = (p, False)"
| "arrive_all (sig # sigs) p =
     (let (p', delivered) = sig_arrive sig p in
      if delivered then (p', True) else arrive_all sigs p')"

fun show_loop :: "nat list list \<Rightarrow> sig_proc \<Rightarrow> string list \<times> bool" where
  "show_loop [] p = ([], False)"
| "show_loop (sigs # rest) p =
     (let (p', dead) = arrive_all sigs p in
      if dead then ([], True)
      else (let (out, d) = show_loop rest p' in (showPending (sp_pending p') # out, d)))"

lemma blockSig_fields [simp]:
  "sp_pending (blockSig sig p) = sp_pending p"
  "1 \<le> sig \<Longrightarrow> sig \<le> 64 \<Longrightarrow> sp_blocked (blockSig sig p) = sp_blocked p \<union> ({sig} - {SIGKILL, SIGSTOP})"
  by (simp_all add: blockSig_def sig_block_def sigaddset_def sigemptyset_def)

lemma block_list:
  "\<forall>sig \<in> set sigs. 1 \<le> sig \<and> sig \<le> 64 \<Longrightarrow>
   sp_blocked (foldl (\<lambda>p sig. blockSig sig p) p sigs) = sp_blocked p \<union> (set sigs - {SIGKILL, SIGSTOP}) \<and>
   sp_pending (foldl (\<lambda>p sig. blockSig sig p) p sigs) = sp_pending p"
  by (induction sigs arbitrary: p) auto

lemma block_all_fields:
  "sp_blocked (block_all p) = sp_blocked p \<union> ({1..32} - {SIGKILL, SIGSTOP})"
  "sp_pending (block_all p) = sp_pending p"
proof -
  have "{1..<33} = {1..32 :: nat}" by auto
  then show "sp_blocked (block_all p) = sp_blocked p \<union> ({1..32} - {SIGKILL, SIGSTOP})"
    "sp_pending (block_all p) = sp_pending p"
    using block_list [of "[1..<33]" p] by (simp_all add: block_all_def)
qed

lemma arrive_blocked:
  "set sigs \<subseteq> sp_blocked p \<Longrightarrow>
   arrive_all sigs p = (p\<lparr>sp_pending := sp_pending p \<union> set sigs\<rparr>, False)"
proof (induction sigs arbitrary: p)
  case (Cons sig sigs)
  then show ?case by (simp add: sig_arrive_def)
qed simp

lemma show_loop_blocked:
  "\<forall>sigs \<in> set rounds. set sigs \<subseteq> sp_blocked p \<Longrightarrow>
   show_loop rounds p =
     (map (\<lambda>i. showPending (sp_pending p \<union> set (concat (take (Suc i) rounds)))) [0..<length rounds], False)"
proof (induction rounds arbitrary: p)
  case Nil
  then show ?case by simp
next
  case (Cons sigs rounds)
  have a: "arrive_all sigs p = (p\<lparr>sp_pending := sp_pending p \<union> set sigs\<rparr>, False)"
    using Cons.prems by (intro arrive_blocked) simp
  let ?p = "p\<lparr>sp_pending := sp_pending p \<union> set sigs\<rparr>"
  have IH: "show_loop rounds ?p = (map (\<lambda>i. showPending (sp_pending p \<union> set sigs \<union>
      set (concat (take (Suc i) rounds)))) [0..<length rounds], False)"
    using Cons.IH [of ?p] Cons.prems by simp
  have "map f [0..<Suc n] = f 0 # map (\<lambda>i. f (Suc i)) [0..<n]" for f :: "nat \<Rightarrow> string" and n
    by (simp add: upt_conv_Cons map_Suc_upt [symmetric] comp_def del: upt_Suc)
  from this [of "\<lambda>i. showPending (sp_pending p \<union> set (concat (take (Suc i) (sigs # rounds))))" "length rounds"]
  show ?case using a IH by (simp add: Un_assoc del: upt_Suc)
qed

lemma showPending_char:
  "length (showPending b) = 32 \<and>
   (\<forall>sig. 1 \<le> sig \<and> sig \<le> 31 \<longrightarrow> (showPending b ! (sig - 1) = CHR ''1'' \<longleftrightarrow> sig \<in> b))"
proof -
  have "showPending b ! (sig - 1) = (if sig \<in> b then CHR ''1'' else CHR ''0'')"
    if "1 \<le> sig" "sig \<le> 31" for sig
    using that by (simp add: showPending_def nth_append)
  then show ?thesis by (auto simp: showPending_def)
qed

text \<open>
  As long as only signals 1 to 32 other than \<open>SIGKILL\<close> and \<open>SIGSTOP\<close> arrive, the program
  keeps running and its \<open>i\<close>-th line has a 1 exactly at the signals that have arrived so far,
  once set always set; \<open>SIGKILL\<close> ends it at once.
\<close>

theorem pending_signals_shown:
  assumes "\<forall>sigs \<in> set rounds. set sigs \<subseteq> {1..32} - {SIGKILL, SIGSTOP}"
  defines "p \<equiv> block_all \<lparr>sp_blocked = {}, sp_pending = {}\<rparr>"
  shows "length (fst (show_loop rounds p)) = length rounds \<and> \<not> snd (show_loop rounds p) \<and>
     (\<forall>i < length rounds. \<forall>sig. 1 \<le> sig \<and> sig \<le> 31 \<longrightarrow>
        (fst (show_loop rounds p) ! i ! (sig - 1) = CHR ''1'' \<longleftrightarrow> sig \<in> set (concat (take (Suc i) rounds)))) \<and>
     show_loop ((SIGKILL # sigs) # rest) p = ([], True)"
proof -
  have b: "sp_blocked p = {1..32} - {SIGKILL, SIGSTOP}" "sp_pending p = {}"
    by (simp_all add: p_def block_all_fields)
  have "\<forall>sigs \<in> set rounds. set sigs \<subseteq> sp_blocked p" using assms(1) b by simp
  from show_loop_blocked [OF this] have l: "show_loop rounds p =
     (map (\<lambda>i. showPending (set (concat (take (Suc i) rounds)))) [0..<length rounds], False)"
    by (simp add: b)
  have "show_loop ((SIGKILL # sigs) # rest) p = ([], True)" using b by (simp add: sig_arrive_def)
  then show ?thesis using l showPending_char by simp
qed

theorem pending_signals_shown_witness:
  "snd (show_loop [[2, 2], [3]] (block_all \<lparr>sp_blocked = {}, sp_pending = {}\<rparr>)) = False"
  using pending_signals_shown [of "[[2, 2], [3]]"] by (auto simp: SIGKILL_def SIGSTOP_def)

section \<open>0108/mysignal1.cc\<close>

text \<open>
  The handler of signal 2 with the mask 3 to 7: while it runs, these and signal 2 itself are
  blocked. It prints the pending set ten times; before each line some signals arrive.
\<close>

definition act_mask :: sigset where
  "act_mask = sigaddset 7 (sigaddset 6 (sigaddset 5 (sigaddset 4 (sigaddset 3 sigemptyset))))"

fun handler_lines :: "nat \<Rightarrow> (nat \<Rightarrow> nat list) \<Rightarrow> sig_proc \<Rightarrow> string list \<times> sig_proc \<times> bool" where
  "handler_lines 0 arrive p = ([], p, False)"
| "handler_lines (Suc cnt) arrive p =
     (let (p', dead) = arrive_all (arrive cnt) p in
      if dead then ([], p', True)
      else (let (out, p'', d) = handler_lines cnt arrive p'
            in (showPending (sp_pending p') # out, p'', d)))"

definition handle_2 :: "(nat \<Rightarrow> nat list) \<Rightarrow> sig_proc \<Rightarrow> string list \<times> sig_proc \<times> bool" where
  "handle_2 arrive p =
     (let (out, p', dead) = handler_lines 10 arrive (p\<lparr>sp_blocked := sp_blocked p \<union> act_mask \<union> {2}\<rparr>)
      in (out, p'\<lparr>sp_blocked := sp_blocked p\<rparr>, dead))"

lemma act_mask_eq: "act_mask = {3, 4, 5, 6, 7}"
  by (auto simp: act_mask_def sigaddset_def sigemptyset_def)

lemma handler_lines_blocked:
  "\<forall>i < n. set (arrive i) \<subseteq> sp_blocked p \<Longrightarrow>
   length (fst (handler_lines n arrive p)) = n \<and> \<not> snd (snd (handler_lines n arrive p)) \<and>
   sp_pending (fst (snd (handler_lines n arrive p))) = sp_pending p \<union> (\<Union>i < n. set (arrive i)) \<and>
   sp_blocked (fst (snd (handler_lines n arrive p))) = sp_blocked p"
proof (induction n arbitrary: p)
  case (Suc n)
  have "arrive_all (arrive n) p = (p\<lparr>sp_pending := sp_pending p \<union> set (arrive n)\<rparr>, False)"
    using Suc.prems by (intro arrive_blocked) simp
  with Suc.IH [of "p\<lparr>sp_pending := sp_pending p \<union> set (arrive n)\<rparr>"] Suc.prems show ?case
    by (auto simp: case_prod_beta lessThan_Suc)
qed simp

text \<open>
  Signals 2 to 7 that arrive while the handler runs do not interrupt it: it prints its
  ten lines, the signals are pending when it returns, and the mask is then as before.
\<close>

theorem handler_not_interrupted:
  assumes "\<forall>i < 10. set (arrive i) \<subseteq> {2, 3, 4, 5, 6, 7}"
  shows "length (fst (handle_2 arrive p)) = 10 \<and> \<not> snd (snd (handle_2 arrive p)) \<and>
     sp_pending (fst (snd (handle_2 arrive p))) = sp_pending p \<union> (\<Union>i < 10. set (arrive i)) \<and>
     sp_blocked (fst (snd (handle_2 arrive p))) = sp_blocked p"
proof -
  let ?p = "p\<lparr>sp_blocked := sp_blocked p \<union> act_mask \<union> {2}\<rparr>"
  have "\<forall>i < 10. set (arrive i) \<subseteq> sp_blocked ?p" using assms by (fastforce simp: act_mask_eq)
  from handler_lines_blocked [OF this] show ?thesis
    by (simp add: handle_2_def case_prod_beta del: handler_lines.simps)
qed

theorem handler_not_interrupted_witness:
  "length (fst (handle_2 (\<lambda>_. [3]) \<lparr>sp_blocked = {}, sp_pending = {}\<rparr>)) = 10"
  using handler_not_interrupted [of "\<lambda>_. [3]" "\<lparr>sp_blocked = {}, sp_pending = {}\<rparr>"] by simp

section \<open>The status of a child\<close>

text \<open>The status word as the kernel builds it, and how 0104/signal2.cc and \<open>WEXITSTATUS\<close> read it.\<close>

definition status_signaled :: "nat \<Rightarrow> bool \<Rightarrow> nat" where
  "status_signaled sig core = sig + (if core then 128 else 0)"

definition status_exited :: "nat \<Rightarrow> nat" where
  "status_exited code = (code mod 256) * 256"

definition exit_sig :: "nat \<Rightarrow> nat" where "exit_sig status = status mod 128"

definition is_core :: "nat \<Rightarrow> nat" where "is_core status = (status div 2 ^ 7) mod 2"

definition WEXITSTATUS :: "nat \<Rightarrow> nat" where "WEXITSTATUS status = status div 256 mod 256"

text \<open>\<open>mykill\<close>: the usage error, or the call of \<open>kill\<close> with process and signal.\<close>

datatype kill_main = Kill_exit nat | Kill int int

definition mykill_main :: "string list \<Rightarrow> kill_main" where
  "mykill_main argv =
     (if length argv \<noteq> 3 then Kill_exit 1 else Kill (atoi (argv ! 2)) (atoi (argv ! 1)))"

section \<open>0919/myproc.cc\<close>

datatype other_task = Fun_one | Fun_two

datatype wait_line = Child_exited nat | Still_running | Did other_task | Wait_failed

definition Load :: "other_task list \<Rightarrow> other_task list" where
  "Load handlers = handlers @ [Fun_one, Fun_two]"

text \<open>What \<open>waitpid(-1, &status, WNOHANG)\<close> returns, round by round, and what is printed; the
  flag says whether the loop has ended.\<close>

fun wait_loop :: "(int \<times> nat) list \<Rightarrow> other_task list \<Rightarrow> wait_line list \<times> bool" where
  "wait_loop [] handlers = ([], False)"
| "wait_loop ((res, status) # rs) handlers =
     (if 0 < res then ([Child_exited (WEXITSTATUS status)], True)
      else if res = 0 then
        (let handlers' = (if handlers = [] then Load handlers else handlers);
             (out, ended) = wait_loop rs handlers'
         in (Still_running # map Did handlers' @ out, ended))
      else ([Wait_failed], True))"

lemma wait_loop_rounds:
  "handlers = [] \<or> handlers = [Fun_one, Fun_two] \<Longrightarrow>
   wait_loop (replicate n (0, st) @ (res, status) # rs) handlers =
     (concat (replicate n [Still_running, Did Fun_one, Did Fun_two]) @
      (fst (wait_loop [(res, status)] (if n = 0 then handlers else [Fun_one, Fun_two]))), True)"
  if "res \<noteq> 0"
proof (induction n arbitrary: handlers)
  case 0
  then show ?case using that by simp
next
  case (Suc n)
  then have h: "(if handlers = [] then Load handlers else handlers) = [Fun_one, Fun_two]"
    by (auto simp: Load_def)
  show ?case using Suc.IH [of "[Fun_one, Fun_two]"] h that by (simp add: case_prod_beta)
qed

text \<open>
  While the child runs, every round of the parent does both other tasks exactly once,
  however often it polls; it stops at the first round whose \<open>waitpid\<close> reports the child or
  an error, and the code it prints is the one the child passed to \<open>exit\<close>, modulo 256.
\<close>

theorem parent_polls_until_child_exits:
  assumes "0 < pid"
  shows "wait_loop (replicate n (0, st) @ (pid, status_exited code) # rs) [] =
     (concat (replicate n [Still_running, Did Fun_one, Did Fun_two]) @ [Child_exited (code mod 256)], True) \<and>
   wait_loop (replicate n (0, st) @ (-1, st') # rs) [] =
     (concat (replicate n [Still_running, Did Fun_one, Did Fun_two]) @ [Wait_failed], True)"
  using assms by (simp add: wait_loop_rounds WEXITSTATUS_def status_exited_def)

theorem parent_polls_until_child_exits_witness:
  "wait_loop [(0, 0), (42, status_exited 11)] [] =
     ([Still_running, Did Fun_one, Did Fun_two, Child_exited 11], True)"
  using parent_polls_until_child_exits [of 42 1 0 11 "[]"] by simp

text \<open>
  The parent of 0104/signal2.cc prints the signal that killed its child and whether a core
  was dumped.
\<close>

theorem child_status_decoded:
  assumes "sig < 128"
  shows "exit_sig (status_signaled sig core) = sig \<and>
     is_core (status_signaled sig core) = (if core then 1 else 0)"
  using assms by (simp add: exit_sig_def is_core_def status_signaled_def div_add_self2)

theorem child_status_decoded_witness: "exit_sig (status_signaled 8 True) = 8"
  using child_status_decoded [of 8 True] by simp

end
