(* ===== verification/Sig_Handlers.thy ===== *)
theory Sig_Handlers
  imports Signals
begin

text \<open>
  Programs with signal handlers: 0105/mysignal.cc (catch every signal; block signal 2 for ten
  rounds) and 0108/mysignal.cc (a handler that sets the flag of the main loop). A signal is
  blocked, caught, ignored, or has its default effect, as POSIX and Linux document it.
\<close>

section \<open>What a process does with a signal\<close>

datatype disposition = Sig_dfl | Sig_ign | Sig_catch

datatype fate = Running | Returned | Ended | Stopped

record sig_state =
  sg_proc :: sig_proc
  sg_action :: "nat \<Rightarrow> disposition"

definition default_fate :: "nat \<Rightarrow> fate" where
  "default_fate sig =
     (if sig \<in> {17, 18, 23, 28} then Running else if sig \<in> {19, 20, 21, 22} then Stopped else Ended)"

text \<open>\<open>signal\<close> fails for the two signals that cannot be caught and for numbers that are no signal.\<close>

definition set_signal :: "nat \<Rightarrow> disposition \<Rightarrow> sig_state \<Rightarrow> sig_state" where
  "set_signal sig d p =
     (if 1 \<le> sig \<and> sig \<le> 64 \<and> sig \<noteq> SIGKILL \<and> sig \<noteq> SIGSTOP
      then p\<lparr>sg_action := (sg_action p)(sig := d)\<rparr> else p)"

text \<open>The process after the signal, whether its handler runs, and what becomes of it.\<close>

definition react :: "nat \<Rightarrow> sig_state \<Rightarrow> sig_state \<times> bool \<times> fate" where
  "react sig p =
     (let (q, delivered) = sig_arrive sig (sg_proc p) in
      if \<not> delivered then (p\<lparr>sg_proc := q\<rparr>, False, Running)
      else (case sg_action p sig of
              Sig_catch \<Rightarrow> (p, True, Running)
            | Sig_ign \<Rightarrow> (p, False, Running)
            | Sig_dfl \<Rightarrow> (p, False, default_fate sig)))"

text \<open>
  A part of a program: the lines printed, the state after it, and whether the process still
  runs; \<open>and_then\<close> goes on only if it does.
\<close>

type_synonym 's part = "string list \<times> 's \<times> fate"

definition and_then :: "'s part \<Rightarrow> ('s \<Rightarrow> 's part) \<Rightarrow> 's part" where
  "and_then m k =
     (case m of (out, s, f) \<Rightarrow>
        if f = Running then (case k s of (out', s', f') \<Rightarrow> (out @ out', s', f')) else (out, s, f))"

definition put :: "string \<Rightarrow> 's \<Rightarrow> 's part" where
  "put l s = ([l], s, Running)"

text \<open>Signals that arrive one after the other; \<open>h\<close> is the handler, on the program's own variables.\<close>

fun arrivals :: "(nat \<Rightarrow> 'u \<Rightarrow> string list \<times> 'u) \<Rightarrow> nat list \<Rightarrow> 'u \<times> sig_state \<Rightarrow> ('u \<times> sig_state) part" where
  "arrivals h [] s = ([], s, Running)"
| "arrivals h (sig # sigs) s =
     (case react sig (snd s) of (p, caught, f) \<Rightarrow>
        and_then (if caught then (let (out, u) = h sig (fst s) in (out, (u, p), f)) else ([], (fst s, p), f))
          (arrivals h sigs))"

lemma and_then_running [simp]:
  "and_then (out, s, Running) k = (out @ fst (k s), fst (snd (k s)), snd (snd (k s)))"
  by (simp add: and_then_def case_prod_beta)

lemma and_then_over [simp]: "f \<noteq> Running \<Longrightarrow> and_then (out, s, f) k = (out, s, f)"
  by (simp add: and_then_def)

lemma react_caught:
  "sig \<notin> sp_blocked (sg_proc p) \<Longrightarrow> sg_action p sig = Sig_catch \<Longrightarrow> react sig p = (p, True, Running)"
  by (simp add: react_def sig_arrive_def)

lemma react_blocked:
  "sig \<in> sp_blocked (sg_proc p) \<Longrightarrow>
   react sig p = (p\<lparr>sg_proc := (sg_proc p)\<lparr>sp_pending := insert sig (sp_pending (sg_proc p))\<rparr>\<rparr>, False, Running)"
  by (simp add: react_def sig_arrive_def)

lemma react_default:
  "sig \<notin> sp_blocked (sg_proc p) \<Longrightarrow> sg_action p sig = Sig_dfl \<Longrightarrow> react sig p = (p, False, default_fate sig)"
  by (simp add: react_def sig_arrive_def)

section \<open>0105/mysignal.cc\<close>

definition catch_text :: "nat \<Rightarrow> string" where
  "catch_text signum =
     utf8 [0xE8, 0x8E, 0xB7, 0xE5, 0xBE, 0x97, 0xE4, 0xBA, 0x86, 0xE4, 0xB8, 0x80, 0xE4, 0xB8, 0xAA, 0xE4, 0xBF,
       0xA1, 0xE5, 0x8F, 0xB7] @ '': '' @ show_nat signum @ [CHR 0x0A]"

definition catchSig :: "nat \<Rightarrow> unit \<Rightarrow> string list \<times> unit" where
  "catchSig signum u = ([catch_text signum], u)"

definition fresh :: sig_state where
  "fresh = \<lparr>sg_proc = \<lparr>sp_blocked = {}, sp_pending = {}\<rparr>, sg_action = (\<lambda>_. Sig_dfl)\<rparr>"

text \<open>The first program: \<open>signal(i, catchSig)\<close> for 0 to 31, then a line every second.\<close>

definition catch_all :: "sig_state \<Rightarrow> sig_state" where
  "catch_all p = foldl (\<lambda>p i. set_signal i Sig_catch p) p [0..<32]"

fun pid_rounds :: "int \<Rightarrow> nat list list \<Rightarrow> unit \<times> sig_state \<Rightarrow> (unit \<times> sig_state) part" where
  "pid_rounds pid [] s = ([], s, Running)"
| "pid_rounds pid (sigs # rest) s =
     and_then (put (''pid: '' @ show_int pid @ [CHR 0x0A]) s)
       (\<lambda>s. and_then (arrivals catchSig sigs s) (\<lambda>s. pid_rounds pid rest s))"

definition catch_main :: "int \<Rightarrow> nat list list \<Rightarrow> (unit \<times> sig_state) part" where
  "catch_main pid rounds = pid_rounds pid rounds ((), catch_all fresh)"

text \<open>
  The second program: \<open>sigprocmask(SIG_SETMASK, obset)\<close> delivers what is then no longer blocked
  before it returns (at most signal 2 here). Signals arrive during a round's \<open>sleep\<close>, or after
  the mask was restored and before the next round.
\<close>

definition set_mask :: "sigset \<Rightarrow> unit \<times> sig_state \<Rightarrow> (unit \<times> sig_state) part" where
  "set_mask m s =
     (let q = sg_proc (snd s); due = sorted_list_of_set (sp_pending q - m) in
      arrivals catchSig due
        (fst s, (snd s)\<lparr>sg_proc := \<lparr>sp_blocked = m - {SIGKILL, SIGSTOP}, sp_pending = sp_pending q \<inter> m\<rparr>\<rparr>))"

definition block_text :: string where
  "block_text = ''block 2'' @ utf8 [0xE5, 0x8F, 0xB7, 0xE4, 0xBF, 0xA1, 0xE5, 0x8F, 0xB7, 0xE6, 0x88, 0x90, 0xE5,
     0x8A, 0x9F] @ ''...'' @ [CHR 0x0A]"

definition unblock_text :: string where
  "unblock_text = utf8 [0xE8, 0xA7, 0xA3, 0xE9, 0x99, 0xA4, 0xE5, 0xAF, 0xB9, 0xE4, 0xBA, 0x8E, 0x32, 0xE5, 0x8F,
     0xB7, 0xE4, 0xBF, 0xA1, 0xE5, 0x8F, 0xB7, 0xE7, 0x9A, 0x84] @ ''block'' @ [CHR 0x0A]"

fun unblock_rounds ::
  "sigset \<Rightarrow> nat \<Rightarrow> (nat list \<times> nat list) list \<Rightarrow> unit \<times> sig_state \<Rightarrow> (unit \<times> sig_state) part" where
  "unblock_rounds obset count [] s = ([], s, Running)"
| "unblock_rounds obset count ((asleep, later) # rest) s =
     and_then (put (showPending (sp_pending (sg_proc (snd s)))) s) (\<lambda>s.
     and_then (arrivals catchSig asleep s) (\<lambda>s.
     and_then (if Suc count = 10 then and_then (set_mask obset s) (put unblock_text) else ([], s, Running)) (\<lambda>s.
     and_then (arrivals catchSig later s) (\<lambda>s. unblock_rounds obset (Suc count) rest s))))"

definition unblock_main :: "(nat list \<times> nat list) list \<Rightarrow> (unit \<times> sig_state) part" where
  "unblock_main rounds =
     (let p = set_signal 2 Sig_catch fresh;
          obset = sp_blocked (sg_proc p);
          p' = p\<lparr>sg_proc := sig_block (sigaddset 2 sigemptyset) (sg_proc p)\<rparr>
      in and_then (put block_text ((), p')) (unblock_rounds obset 0 rounds))"

section \<open>0108/mysignal.cc\<close>

text \<open>The handler prints and sets \<open>flag\<close>; the loop of \<open>main\<close> reads it between signals.\<close>

definition changeFlag :: "nat \<Rightarrow> nat \<Rightarrow> string list \<times> nat" where
  "changeFlag signum flag = ([''change flag: '' @ show_nat flag @ ''->'' @ show_nat 1 @ [CHR 0x0A]], 1)"

definition flag_text :: string where
  "flag_text = utf8 [0xE8, 0xBF, 0x9B, 0xE7, 0xA8, 0x8B, 0xE6, 0xAD, 0xA3, 0xE5, 0xB8, 0xB8, 0xE9, 0x80, 0x80,
     0xE5, 0x87, 0xBA, 0xE5, 0x90, 0x8E] @ '': ''"

fun flag_loop :: "nat list list \<Rightarrow> nat \<times> sig_state \<Rightarrow> (nat \<times> sig_state) part" where
  "flag_loop [] s = ([], s, Running)"
| "flag_loop (sigs # rest) s =
     (if fst s \<noteq> 0 then ([flag_text @ show_nat (fst s) @ [CHR 0x0A]], s, Returned)
      else and_then (arrivals changeFlag sigs s) (\<lambda>s. flag_loop rest s))"

definition flag_main :: "nat list list \<Rightarrow> (nat \<times> sig_state) part" where
  "flag_main rounds = flag_loop rounds (0, set_signal 2 Sig_catch fresh)"

section \<open>Every signal caught\<close>

lemma arrivals_caught:
  "\<forall>sig \<in> set sigs. sig \<notin> sp_blocked (sg_proc (snd s)) \<and> sg_action (snd s) sig = Sig_catch \<Longrightarrow>
   arrivals catchSig sigs s = (map catch_text sigs, s, Running)"
  by (cases s; induction sigs) (auto simp: react_caught catchSig_def)

lemma set_signals:
  "sg_proc (foldl (\<lambda>p i. set_signal i d p) p sigs) = sg_proc p \<and>
   sg_action (foldl (\<lambda>p i. set_signal i d p) p sigs) sig =
     (if sig \<in> set sigs \<and> 1 \<le> sig \<and> sig \<le> 64 \<and> sig \<noteq> SIGKILL \<and> sig \<noteq> SIGSTOP then d else sg_action p sig)"
  by (induction sigs arbitrary: p) (auto simp: set_signal_def)

lemma catch_all_fresh:
  "sp_blocked (sg_proc (catch_all fresh)) = {}"
  "sg_action (catch_all fresh) sig =
     (if 1 \<le> sig \<and> sig \<le> 31 \<and> sig \<noteq> SIGKILL \<and> sig \<noteq> SIGSTOP then Sig_catch else Sig_dfl)"
  using set_signals [of Sig_catch fresh "[0..<32]" sig] by (simp_all add: catch_all_def fresh_def)

definition pid_line :: "int \<Rightarrow> string" where "pid_line pid = ''pid: '' @ show_int pid @ [CHR 0x0A]"

lemma pid_rounds_caught:
  "\<forall>sigs \<in> set rounds. \<forall>sig \<in> set sigs. sig \<notin> sp_blocked (sg_proc (snd s)) \<and> sg_action (snd s) sig = Sig_catch \<Longrightarrow>
   pid_rounds pid (rounds @ rest) s =
     and_then (concat (map (\<lambda>sigs. pid_line pid # map catch_text sigs) rounds), s, Running) (pid_rounds pid rest)"
  by (induction rounds) (simp_all add: arrivals_caught put_def pid_line_def)

lemma pid_rounds_killed:
  assumes "sp_blocked (sg_proc (snd s)) = {}" and "sg_action (snd s) sig = Sig_dfl" and "default_fate sig \<noteq> Running"
  shows "pid_rounds pid ((sig # sigs) # rest) s = ([pid_line pid], s, default_fate sig)"
  using assms by (cases s) (simp add: react_default put_def pid_line_def)

text \<open>
  Every signal from 1 to 31 but two is caught: whatever arrives, the program prints its
  line each second and one line per signal, in the order they arrived, and runs on.
  \<open>SIGKILL\<close> ends it and \<open>SIGSTOP\<close> stops it at once, handler or not, and nothing is printed
  for them.
\<close>

theorem catch_all_survives:
  fixes pid :: int
  assumes "\<forall>sigs \<in> set rounds. set sigs \<subseteq> {1..31} - {SIGKILL, SIGSTOP}"
  defines "out \<equiv> concat (map (\<lambda>sigs. pid_line pid # map catch_text sigs) rounds)"
  shows "catch_main pid rounds = (out, ((), catch_all fresh), Running) \<and>
     catch_main pid (rounds @ (SIGKILL # sigs) # rest) = (out @ [pid_line pid], ((), catch_all fresh), Ended) \<and>
     catch_main pid (rounds @ (SIGSTOP # sigs) # rest) = (out @ [pid_line pid], ((), catch_all fresh), Stopped)"
proof -
  have "\<forall>sigs \<in> set rounds. \<forall>sig \<in> set sigs. sig \<notin> sp_blocked (sg_proc (snd ((), catch_all fresh))) \<and>
      sg_action (snd ((), catch_all fresh)) sig = Sig_catch"
    using assms(1) by (fastforce simp: catch_all_fresh)
  note run = pid_rounds_caught [OF this, of pid]
  have f: "default_fate SIGKILL = Ended" "default_fate SIGSTOP = Stopped"
    by (simp_all add: default_fate_def SIGKILL_def SIGSTOP_def)
  show ?thesis
    using run [of "[]"] run [of "(SIGKILL # sigs) # rest"] run [of "(SIGSTOP # sigs) # rest"]
      pid_rounds_killed [of "((), catch_all fresh)" SIGKILL pid sigs rest]
      pid_rounds_killed [of "((), catch_all fresh)" SIGSTOP pid sigs rest]
    by (simp add: catch_main_def out_def catch_all_fresh f del: pid_rounds.simps(2))
qed

theorem catch_all_survives_witness:
  "catch_main 7 [[2, 3], []] = ([pid_line 7, catch_text 2, catch_text 3, pid_line 7], ((), catch_all fresh), Running)"
  using catch_all_survives [of "[[2, 3], []]" 7] by (simp add: SIGKILL_def SIGSTOP_def)

section \<open>A blocked signal\<close>

text \<open>The process of the second program while signal 2 is blocked, with \<open>P\<close> pending, and later.\<close>

definition two_state :: "sigset \<Rightarrow> sigset \<Rightarrow> unit \<times> sig_state" where
  "two_state B P = ((), \<lparr>sg_proc = \<lparr>sp_blocked = B, sp_pending = P\<rparr>, sg_action = (\<lambda>_. Sig_dfl)(2 := Sig_catch)\<rparr>)"

definition only_2 :: "(nat list \<times> nat list) list \<Rightarrow> bool" where
  "only_2 rounds \<longleftrightarrow> (\<forall>(a, b) \<in> set rounds. set a \<subseteq> {2} \<and> set b \<subseteq> {2})"

definition came :: "(nat list \<times> nat list) list \<Rightarrow> sigset" where
  "came rounds = (\<Union>(a, b) \<in> set rounds. set a \<union> set b)"

lemma came_Cons [simp]: "came [] = {}" "came ((a, b) # rs) = set a \<union> set b \<union> came rs"
  by (auto simp: came_def)

lemma two_blocked:
  "set sigs \<subseteq> {2} \<Longrightarrow> arrivals catchSig sigs (two_state {2} P) = ([], two_state {2} (P \<union> set sigs), Running)"
  by (induction sigs arbitrary: P) (simp_all add: two_state_def react_blocked)

lemma two_caught:
  "set sigs \<subseteq> {2} \<Longrightarrow> arrivals catchSig sigs (two_state {} P) = (map catch_text sigs, two_state {} P, Running)"
  by (rule arrivals_caught) (auto simp: two_state_def)

lemma two_pending: "sp_pending (sg_proc (snd (two_state B P))) = P"
  by (simp add: two_state_def)

lemma rounds_blocked:
  assumes "only_2 rounds" and "count + length rounds < 10"
  shows "unblock_rounds obset count (rounds @ rest) (two_state {2} P) =
     and_then (map (\<lambda>i. showPending (P \<union> came (take i rounds))) [0..<length rounds],
               two_state {2} (P \<union> came rounds), Running)
       (unblock_rounds obset (count + length rounds) rest)"
  using assms
proof (induction rounds arbitrary: count P)
  case Nil
  then show ?case by simp
next
  case (Cons r rounds)
  obtain a b where r: "r = (a, b)" by (cases r)
  have ab: "set a \<subseteq> {2}" "set b \<subseteq> {2}" "only_2 rounds" using Cons.prems(1) r by (auto simp: only_2_def)
  have l: "Suc count \<noteq> 10" "Suc count + length rounds < 10" using Cons.prems(2) by simp_all
  have "map f [0..<Suc n] = f 0 # map (\<lambda>i. f (Suc i)) [0..<n]" for f :: "nat \<Rightarrow> string" and n
    by (simp add: upt_conv_Cons map_Suc_upt [symmetric] comp_def del: upt_Suc)
  then have m: "map (\<lambda>i. showPending (P \<union> came (take i (r # rounds)))) [0..<length (r # rounds)] =
      showPending P # map (\<lambda>i. showPending (P \<union> set a \<union> set b \<union> came (take i rounds))) [0..<length rounds]"
    by (simp add: r Un_assoc del: upt_Suc)
  show ?case
    unfolding m using Cons.IH [OF ab(3) l(2), of "P \<union> set a \<union> set b"] l(1) ab
    by (simp add: r put_def two_blocked two_pending Un_assoc)
qed

lemma rounds_open:
  "only_2 rounds \<Longrightarrow> 10 \<le> count \<Longrightarrow>
   unblock_rounds obset count rounds (two_state {} {}) =
     (concat (map (\<lambda>(a, b). showPending {} # map catch_text (a @ b)) rounds), two_state {} {}, Running)"
proof (induction rounds arbitrary: count)
  case (Cons r rounds)
  obtain a b where r: "r = (a, b)" by (cases r)
  have "set a \<subseteq> {2}" "set b \<subseteq> {2}" "only_2 rounds" using Cons.prems(1) r by (auto simp: only_2_def)
  with Cons show ?case by (simp add: r put_def two_caught two_pending)
qed simp

lemma unmask_two:
  assumes "P \<subseteq> {2}"
  shows "set_mask {} (two_state {2} P) =
     (if P = {} then [] else [catch_text 2], two_state {} {}, Running)"
proof -
  have "set_mask {} (two_state {2} P) = arrivals catchSig (sorted_list_of_set P) (two_state {} {})"
    by (simp add: set_mask_def two_state_def)
  moreover have "sorted_list_of_set P = (if P = {} then [] else [2])" using assms by (auto simp: subset_singleton_iff)
  ultimately show ?thesis using two_caught [of "[2]" "{}"] by auto
qed

text \<open>
  C39. While signal 2 is blocked it is only remembered: each of the first ten lines shows it
  pending from the first one on, and however often it came the handler runs exactly once, before
  the message that the block is lifted; from then on every one is handled as it arrives,
  and the lines show nothing pending. The program never ends.
\<close>

theorem blocked_signal_once:
  assumes "only_2 rounds" and "length rounds = 9" and "set asleep \<subseteq> {2}" and "set later \<subseteq> {2}" and "only_2 rest"
  shows "unblock_main (rounds @ (asleep, later) # rest) =
     ([block_text] @ map (\<lambda>i. showPending (came (take i rounds))) [0..<10] @
      (if came rounds = {} \<and> asleep = [] then [] else [catch_text 2]) @ [unblock_text] @ map catch_text later @
      concat (map (\<lambda>(a, b). showPending {} # map catch_text (a @ b)) rest),
      two_state {} {}, Running)"
proof -
  have c: "came rounds \<subseteq> {2}" using assms(1) by (auto simp: only_2_def came_def)
  have st: "((), (set_signal 2 Sig_catch fresh)\<lparr>sg_proc := sig_block (sigaddset 2 sigemptyset)
      (sg_proc (set_signal 2 Sig_catch fresh))\<rparr>) = two_state {2} {}"
    by (auto simp: two_state_def set_signal_def fresh_def sig_block_def sigaddset_def sigemptyset_def SIGKILL_def SIGSTOP_def)
  have o: "sp_blocked (sg_proc (set_signal 2 Sig_catch fresh)) = {}"
    by (simp add: set_signal_def fresh_def)
  have u: "set_mask {} (two_state {2} (came rounds \<union> set asleep)) =
      (if came rounds = {} \<and> asleep = [] then [] else [catch_text 2], two_state {} {}, Running)"
    using unmask_two [of "came rounds \<union> set asleep"] c assms(3) by simp
  have ten: "[0..<10] = [0..<9] @ [9]" by (simp add: upt_rec)
  have "unblock_rounds {} 9 ((asleep, later) # rest) (two_state {2} (came rounds)) =
     (showPending (came rounds) # (if came rounds = {} \<and> asleep = [] then [] else [catch_text 2]) @ [unblock_text] @
      map catch_text later @ concat (map (\<lambda>(a, b). showPending {} # map catch_text (a @ b)) rest),
      two_state {} {}, Running)"
    using assms(3-5) by (simp add: put_def two_pending two_blocked two_caught u rounds_open)
  moreover have "unblock_rounds {} 0 (rounds @ (asleep, later) # rest) (two_state {2} {}) =
     and_then (map (\<lambda>i. showPending (came (take i rounds))) [0..<9], two_state {2} (came rounds), Running)
       (unblock_rounds {} 9 ((asleep, later) # rest))"
    using rounds_blocked [OF assms(1), of 0 "{}" "(asleep, later) # rest" "{}"] assms(2) by simp
  ultimately show ?thesis
    by (simp add: unblock_main_def Let_def st o put_def ten assms(2) del: unblock_rounds.simps(2) upt_Suc)
qed

theorem blocked_signal_once_witness:
  "unblock_main (replicate 9 ([], []) @ [([2, 2, 2], [])] @ [([2], [])]) =
     ([block_text] @ replicate 10 (showPending {}) @ [catch_text 2, unblock_text, showPending {}, catch_text 2],
      two_state {} {}, Running)"
proof -
  have r: "only_2 (replicate 9 ([], []))" "only_2 [([2], [])]" "came (replicate n ([], [])) = {}" for n
    by (auto simp: only_2_def came_def)
  have "map (\<lambda>i. showPending (came (take i (replicate 9 ([], []))))) [0..<10] = replicate 10 (showPending {})"
    by (simp add: r(3) map_replicate_const)
  with blocked_signal_once [OF r(1), of "[2, 2, 2]" "[]" "[([2], [])]"] r(2,3) show ?thesis by simp
qed

section \<open>The flag\<close>

definition change_line :: "nat \<Rightarrow> string" where
  "change_line flag = ''change flag: '' @ show_nat flag @ ''->1'' @ [CHR 0x0A]"

lemma flag_arrivals:
  assumes "2 \<notin> sp_blocked (sg_proc p)" and "sg_action p 2 = Sig_catch"
  shows "arrivals changeFlag (replicate k 2) (1, p) = (replicate k (change_line 1), (1, p), Running)"
    and "arrivals changeFlag (2 # replicate k 2) (f, p) = (change_line f # replicate k (change_line 1), (1, p), Running)"
proof -
  have "show_nat (Suc 0) = ''1''" by code_simp
  then have h: "changeFlag 2 f = ([change_line f], 1)" for f by (simp add: changeFlag_def change_line_def)
  show a: "arrivals changeFlag (replicate k 2) (1, p) = (replicate k (change_line 1), (1, p), Running)" for k
    by (induction k) (simp_all add: react_caught [OF assms] h del: One_nat_def)
  show "arrivals changeFlag (2 # replicate k 2) (f, p) = (change_line f # replicate k (change_line 1), (1, p), Running)"
    by (simp add: react_caught [OF assms] h a del: One_nat_def)
qed

text \<open>
  The program waits as long as no signal comes; after the first signal 2 it leaves its loop, prints
  the flag and returns. The handler shows the flag 0 the first time and 1 every further time.
\<close>

theorem flag_main_ends:
  "flag_main (replicate n []) = ([], (0, set_signal 2 Sig_catch fresh), Running) \<and>
   flag_main (replicate n [] @ (2 # replicate k 2) # sigs # rest) =
     (change_line 0 # replicate k (change_line 1) @ [flag_text @ ''1'' @ [CHR 0x0A]],
      (1, set_signal 2 Sig_catch fresh), Returned)"
proof -
  let ?p = "set_signal 2 Sig_catch fresh"
  have q: "flag_loop (replicate n [] @ rs) (0, ?p) = flag_loop rs (0, ?p)" for rs by (induction n) simp_all
  have p: "2 \<notin> sp_blocked (sg_proc ?p)" "sg_action ?p 2 = Sig_catch"
    by (simp_all add: set_signal_def fresh_def SIGKILL_def SIGSTOP_def)
  have "show_nat 1 = ''1''" by code_simp
  then show ?thesis
    using q [of "[]"] q flag_arrivals(2) [OF p, of k 0]
    by (simp add: flag_main_def del: One_nat_def arrivals.simps)
qed

end
