(* ===== verification/My_File.thy ===== *)
theory My_File
  imports Prelude
begin

text \<open>
  \<open>1017/myfile.c\<close>: a buffered output file of its own, with \<open>fopen_\<close>, \<open>fputs_\<close>, \<open>fflush_\<close>
  and \<open>fclose_\<close> over one 1024-byte buffer. The abstract file is what has been written and
  what is pending; the buffered file refines it, except on descriptor 1, where a line is
  written by \<open>fputs_\<close> and stays in the buffer.
\<close>

section \<open>The file and its operations\<close>

definition file_NUM :: nat where "file_NUM = 1024"

record my_file =
  mf_fd :: int
  mf_buffer :: "byte list"
  mf_end :: nat

text \<open>What the descriptor has received, and what the \<open>printf\<close> in \<open>fputs_\<close> has shown.\<close>

record file_io =
  io_written :: "byte list"
  io_shown :: "byte list"

text \<open>
  \<open>fd\<close> is the result of \<open>open\<close>. The outer \<open>None\<close> is a failed assertion, the inner one the
  null pointer: of the modes only \<open>w\<close> does anything.
\<close>

definition my_fopen :: "string option \<Rightarrow> string option \<Rightarrow> int \<Rightarrow> my_file option option" where
  "my_fopen pathname mode fd =
     (case (pathname, mode) of
        (Some p, Some m) \<Rightarrow>
          Some (if m = ''w'' \<and> 0 \<le> fd
                then Some \<lparr>mf_fd = fd, mf_buffer = replicate file_NUM nul, mf_end = 0\<rparr> else None)
      | _ \<Rightarrow> None)"

text \<open>\<open>strcpy(buf + e, m)\<close> where the copy fits.\<close>

definition strcpy_at :: "nat \<Rightarrow> byte list \<Rightarrow> byte list \<Rightarrow> byte list" where
  "strcpy_at e m buf = take e buf @ m @ nul # drop (Suc (e + length m)) buf"

text \<open>
  \<open>None\<close> is an access outside the buffer: \<open>strcpy\<close> past its end, or \<open>buffer[-1]\<close> when
  nothing has been put yet.
\<close>

definition my_fputs :: "string \<Rightarrow> my_file \<Rightarrow> file_io \<Rightarrow> (my_file \<times> file_io) option" where
  "my_fputs message fp w =
     (let m = c_str message in
      if file_NUM < Suc (mf_end fp + length m) then None
      else
        (let buf = strcpy_at (mf_end fp) m (mf_buffer fp); e = mf_end fp + length m;
             fp' = fp\<lparr>mf_buffer := buf, mf_end := e\<rparr>;
             w' = w\<lparr>io_shown := io_shown w @ c_str buf @ [CHR 0x0A]\<rparr>
         in if mf_fd fp = 1
            then if e = 0 then None
                 else if buf ! (e - 1) = CHR 0x0A
                 then Some (fp', w'\<lparr>io_written := io_written w' @ take e buf\<rparr>)
                 else Some (fp', w')
            else Some (fp', w')))"

definition my_fflush :: "my_file \<Rightarrow> file_io \<Rightarrow> my_file \<times> file_io" where
  "my_fflush fp w =
     (if mf_end fp \<noteq> 0
      then (fp\<lparr>mf_end := 0\<rparr>, w\<lparr>io_written := io_written w @ take (mf_end fp) (mf_buffer fp)\<rparr>)
      else (fp, w))"

text \<open>\<open>close\<close> and \<open>free\<close> leave nothing but what has been written.\<close>

definition my_fclose :: "my_file \<Rightarrow> file_io \<Rightarrow> file_io" where
  "my_fclose fp w = snd (my_fflush fp w)"

datatype file_op = Puts string | Flush

fun file_ops :: "file_op list \<Rightarrow> my_file \<Rightarrow> file_io \<Rightarrow> (my_file \<times> file_io) option" where
  "file_ops [] fp w = Some (fp, w)"
| "file_ops (Puts m # ops) fp w =
     (case my_fputs m fp w of None \<Rightarrow> None | Some (fp', w') \<Rightarrow> file_ops ops fp' w')"
| "file_ops (Flush # ops) fp w = (let (fp', w') = my_fflush fp w in file_ops ops fp' w')"

text \<open>\<open>main\<close>: its exit status and the file's content.\<close>

definition myfile_main :: "int \<Rightarrow> (nat \<times> file_io) option" where
  "myfile_main fd =
     (case my_fopen (Some ''./log.txt'') (Some ''w'') fd of
        None \<Rightarrow> None
      | Some None \<Rightarrow> Some (1, \<lparr>io_written = [], io_shown = ''fopen_ error''\<rparr>)
      | Some (Some fp) \<Rightarrow>
          (case file_ops [Puts ''one: hello world'', Puts ''    two: hello world'',
                          Puts ''    three: hello world'', Puts ''    four: hello world''] fp
                 \<lparr>io_written = [], io_shown = []\<rparr> of
             None \<Rightarrow> None
           | Some (fp', w') \<Rightarrow> Some (0, my_fclose fp' w')))"

section \<open>The abstract file\<close>

text \<open>Written and pending bytes; what would not fit into the buffer is not allowed.\<close>

fun file_spec :: "file_op list \<Rightarrow> byte list \<times> byte list \<Rightarrow> (byte list \<times> byte list) option" where
  "file_spec [] (f, p) = Some (f, p)"
| "file_spec (Puts m # ops) (f, p) =
     (if length (p @ c_str m) < file_NUM then file_spec ops (f, p @ c_str m) else None)"
| "file_spec (Flush # ops) (f, p) = file_spec ops (f @ p, [])"

fun puts_text :: "file_op list \<Rightarrow> byte list" where
  "puts_text [] = []"
| "puts_text (Puts m # ops) = c_str m @ puts_text ops"
| "puts_text (Flush # ops) = puts_text ops"

lemma file_spec_fits:
  "length p + length (puts_text ops) < file_NUM \<Longrightarrow>
   \<exists>f' p'. file_spec ops (f, p) = Some (f', p') \<and> f' @ p' = f @ p @ puts_text ops"
proof (induction ops arbitrary: f p)
  case (Cons x ops)
  show ?case
  proof (cases x)
    case (Puts m)
    with Cons.prems Cons.IH [of "p @ c_str m" f] show ?thesis by simp
  next
    case Flush
    with Cons.prems Cons.IH [of "[]" "f @ p"] show ?thesis by simp
  qed
qed simp

section \<open>Refinement\<close>

definition mf_wf :: "my_file \<Rightarrow> bool" where
  "mf_wf fp \<longleftrightarrow> length (mf_buffer fp) = file_NUM \<and> mf_end fp < file_NUM"

definition mf_abs :: "my_file \<times> file_io \<Rightarrow> byte list \<times> byte list" where
  "mf_abs = (\<lambda>(fp, w). (io_written w, take (mf_end fp) (mf_buffer fp)))"

lemma strcpy_at_props:
  assumes "length buf = file_NUM" and "Suc (e + length m) \<le> file_NUM"
  shows "length (strcpy_at e m buf) = file_NUM"
    and "take (e + length m) (strcpy_at e m buf) = take e buf @ m"
  using assms by (simp_all add: strcpy_at_def)

lemma fopen_wf: "my_fopen p m fd = Some (Some fp) \<Longrightarrow> mf_wf fp \<and> mf_end fp = 0 \<and> mf_fd fp = fd"
  by (auto simp: my_fopen_def mf_wf_def file_NUM_def split: option.splits if_splits)

lemma fputs_wf:
  "mf_wf fp \<Longrightarrow> my_fputs m fp w = Some (fp', w') \<Longrightarrow> mf_wf fp' \<and> mf_fd fp' = mf_fd fp"
  by (auto simp: my_fputs_def mf_wf_def Let_def strcpy_at_props split: if_splits)

lemma fputs_refines:
  assumes "mf_wf fp" and "mf_fd fp \<noteq> 1"
  shows "map_option mf_abs (my_fputs m fp w) = file_spec [Puts m] (mf_abs (fp, w))"
  using assms by (auto simp: my_fputs_def mf_wf_def mf_abs_def Let_def strcpy_at_props min_def)

lemma fflush_refines: "mf_abs (my_fflush fp w) = (io_written w @ take (mf_end fp) (mf_buffer fp), [])"
  by (simp add: my_fflush_def mf_abs_def)

lemma fflush_wf: "mf_wf fp \<Longrightarrow> mf_wf (fst (my_fflush fp w)) \<and> mf_fd (fst (my_fflush fp w)) = mf_fd fp"
  by (auto simp: my_fflush_def mf_wf_def)

lemma fclose_written: "io_written (my_fclose fp w) = (let (f, p) = mf_abs (fp, w) in f @ p)"
  by (simp add: my_fclose_def my_fflush_def mf_abs_def)

lemma file_ops_refine:
  "mf_wf fp \<Longrightarrow> mf_fd fp \<noteq> 1 \<Longrightarrow>
   map_option mf_abs (file_ops ops fp w) = file_spec ops (mf_abs (fp, w))"
proof (induction ops arbitrary: fp w)
  case Nil
  then show ?case by (simp add: mf_abs_def)
next
  case (Cons x ops)
  show ?case
  proof (cases x)
    case (Puts m)
    note r = fputs_refines [OF Cons.prems, of m w]
    show ?thesis
    proof (cases "my_fputs m fp w")
      case None
      with r have "file_spec [Puts m] (mf_abs (fp, w)) = None" by simp
      then have "file_spec (Puts m # ops) (mf_abs (fp, w)) = None"
        by (cases "mf_abs (fp, w)") (simp split: if_splits)
      with None Puts show ?thesis by simp
    next
      case (Some z)
      obtain fp' w' where z: "z = (fp', w')" by force
      have "file_spec [Puts m] (mf_abs (fp, w)) = Some (mf_abs (fp', w'))" using r Some z by simp
      then have "file_spec (Puts m # ops) (mf_abs (fp, w)) = file_spec ops (mf_abs (fp', w'))"
        by (cases "mf_abs (fp, w)") (simp split: if_splits)
      moreover have "mf_wf fp'" "mf_fd fp' \<noteq> 1"
        using fputs_wf [of fp m w fp' w'] Cons.prems Some z by auto
      ultimately show ?thesis using Cons.IH [of fp' w'] Some z Puts by simp
    qed
  next
    case Flush
    obtain fp' w' where z: "my_fflush fp w = (fp', w')" by force
    have wf: "mf_wf fp'" "mf_fd fp' \<noteq> 1" using fflush_wf [OF Cons.prems(1), of w] z Cons.prems by auto
    have "file_spec (Flush # ops) (mf_abs (fp, w)) = file_spec ops (mf_abs (fp', w'))"
      using fflush_refines [of fp w] z by (simp only: mf_abs_def prod.case file_spec.simps)
    then show ?thesis using Cons.IH [OF wf, of w'] z Flush by simp
  qed
qed

text \<open>
  C30. The buffered file implements the abstract one: on any descriptor but 1, a sequence of
  puts and flushes leaves exactly the written and pending bytes of the abstract file, and
  leaves the buffer exactly when the abstract file has no room. So with less than 1024 bytes
  put in all, closing the file has written every message, in order, once.
\<close>

theorem buffered_file_refines:
  assumes "my_fopen (Some path) (Some mode) fd = Some (Some fp)" and "fd \<noteq> 1"
  shows "map_option mf_abs (file_ops ops fp w) = file_spec ops (io_written w, []) \<and>
     (length (puts_text ops) < file_NUM \<longrightarrow>
       (\<exists>fp' w'. file_ops ops fp w = Some (fp', w') \<and>
          io_written (my_fclose fp' w') = io_written w @ puts_text ops))"
proof -
  have fp: "mf_wf fp" "mf_fd fp \<noteq> 1" "mf_abs (fp, w) = (io_written w, [])"
    using fopen_wf [OF assms(1)] assms(2) by (auto simp: mf_abs_def)
  have r: "map_option mf_abs (file_ops ops fp w) = file_spec ops (io_written w, [])"
    using file_ops_refine [OF fp(1,2), of ops w] fp(3) by simp
  have "\<exists>fp' w'. file_ops ops fp w = Some (fp', w') \<and>
      io_written (my_fclose fp' w') = io_written w @ puts_text ops"
    if small: "length (puts_text ops) < file_NUM"
  proof -
    obtain f' p' where s: "file_spec ops (io_written w, []) = Some (f', p')"
      and e: "f' @ p' = io_written w @ puts_text ops"
      using file_spec_fits [of "[]" ops "io_written w"] small by auto
    from r s obtain fp' w' where "file_ops ops fp w = Some (fp', w')" "mf_abs (fp', w') = (f', p')"
      by (auto simp: map_option_case split: option.splits)
    with e show ?thesis by (auto simp: fclose_written)
  qed
  with r show ?thesis by blast
qed

theorem buffered_file_refines_witness:
  "\<exists>fp' w'. file_ops [Puts ''one'', Flush, Puts ''two'']
       \<lparr>mf_fd = 3, mf_buffer = replicate file_NUM nul, mf_end = 0\<rparr> \<lparr>io_written = [], io_shown = []\<rparr>
     = Some (fp', w') \<and> io_written (my_fclose fp' w') = ''onetwo''"
proof -
  have o: "my_fopen (Some ''./log.txt'') (Some ''w'') 3 =
      Some (Some \<lparr>mf_fd = 3, mf_buffer = replicate file_NUM nul, mf_end = 0\<rparr>)"
    by (simp add: my_fopen_def)
  have t: "puts_text [Puts ''one'', Flush, Puts ''two''] = ''onetwo''" by (simp add: c_str_def nul_def)
  show ?thesis
    using buffered_file_refines [OF o, of "[Puts ''one'', Flush, Puts ''two'']" "\<lparr>io_written = [], io_shown = []\<rparr>"]
    unfolding t by (simp add: file_NUM_def)
qed

section \<open>Standard output: lines written twice\<close>

lemma file_ops_append:
  "file_ops (ops @ ops') fp w =
     (case file_ops ops fp w of None \<Rightarrow> None | Some (fp', w') \<Rightarrow> file_ops ops' fp' w')"
  by (induction ops fp w rule: file_ops.induct) (auto split: option.splits prod.splits)

lemma fputs_stdout:
  assumes "mf_wf fp" and "mf_fd fp = 1" and "nul \<notin> set l"
    and "mf_end fp + length (l @ [CHR 0x0A]) < file_NUM"
  shows "\<exists>fp' w'. my_fputs (l @ [CHR 0x0A]) fp w = Some (fp', w') \<and> mf_wf fp' \<and> mf_fd fp' = 1 \<and>
     mf_end fp' = mf_end fp + length (l @ [CHR 0x0A]) \<and>
     take (mf_end fp') (mf_buffer fp') = take (mf_end fp) (mf_buffer fp) @ l @ [CHR 0x0A] \<and>
     io_written w' = io_written w @ take (mf_end fp) (mf_buffer fp) @ l @ [CHR 0x0A]"
proof -
  let ?m = "l @ [CHR 0x0A]"
  have m: "c_str ?m = ?m" using assms(3) by (intro c_str_id) (simp add: nul_def)
  let ?buf = "strcpy_at (mf_end fp) ?m (mf_buffer fp)"
  have b: "length ?buf = file_NUM" "take (mf_end fp + length ?m) ?buf = take (mf_end fp) (mf_buffer fp) @ ?m"
    using assms(1,4) by (intro strcpy_at_props; simp add: mf_wf_def)+
  have "?buf ! (mf_end fp + length ?m - 1) = (take (mf_end fp + length ?m) ?buf) ! (mf_end fp + length l)"
    by simp
  also have "\<dots> = CHR 0x0A" using assms(1) unfolding b(2) by (simp add: mf_wf_def nth_append)
  finally have c: "?buf ! (mf_end fp + length ?m - 1) = CHR 0x0A" .
  have "my_fputs ?m fp w = Some (fp\<lparr>mf_buffer := ?buf, mf_end := mf_end fp + length ?m\<rparr>,
      w\<lparr>io_shown := io_shown w @ c_str ?buf @ [CHR 0x0A],
        io_written := io_written w @ take (mf_end fp + length ?m) ?buf\<rparr>)"
    using assms(2,4) c by (simp add: my_fputs_def m Let_def del: take_append)
  then show ?thesis using b assms by (simp add: mf_wf_def)
qed

lemma file_ops_stdout:
  "mf_wf fp \<Longrightarrow> mf_fd fp = 1 \<Longrightarrow> mf_end fp = 0 \<Longrightarrow> \<forall>l \<in> set ls. nul \<notin> set l \<Longrightarrow>
   length (concat (map (\<lambda>l. l @ [CHR 0x0A]) ls)) < file_NUM \<Longrightarrow>
   \<exists>fp' w'. file_ops (map (\<lambda>l. Puts (l @ [CHR 0x0A])) ls) fp w = Some (fp', w') \<and>
     mf_wf fp' \<and> mf_fd fp' = 1 \<and>
     take (mf_end fp') (mf_buffer fp') = concat (map (\<lambda>l. l @ [CHR 0x0A]) ls) \<and>
     io_written w' = io_written w @
       concat (map (\<lambda>i. concat (map (\<lambda>l. l @ [CHR 0x0A]) (take (Suc i) ls))) [0..<length ls])"
proof (induction ls rule: rev_induct)
  case Nil
  then show ?case by simp
next
  case (snoc l ls)
  let ?cat = "\<lambda>ls :: string list. concat (map (\<lambda>l. l @ [CHR 0x0A]) ls)"
  obtain fp' w' where i: "file_ops (map (\<lambda>l. Puts (l @ [CHR 0x0A])) ls) fp w = Some (fp', w')"
    "mf_wf fp'" "mf_fd fp' = 1" "take (mf_end fp') (mf_buffer fp') = ?cat ls"
    "io_written w' = io_written w @ concat (map (\<lambda>i. ?cat (take (Suc i) ls)) [0..<length ls])"
    using snoc by auto
  have "mf_end fp' = length (?cat ls)"
    using arg_cong [OF i(4), of length] i(2) by (simp add: mf_wf_def)
  then have "mf_end fp' + length (l @ [CHR 0x0A]) < file_NUM" using snoc.prems(5) by simp
  then obtain fp'' w'' where j: "my_fputs (l @ [CHR 0x0A]) fp' w' = Some (fp'', w'')" "mf_wf fp''"
    "mf_fd fp'' = 1" "take (mf_end fp'') (mf_buffer fp'') = ?cat ls @ l @ [CHR 0x0A]"
    "io_written w'' = io_written w' @ ?cat ls @ l @ [CHR 0x0A]"
    using fputs_stdout [OF i(2,3), of l w'] snoc.prems(4) i(4) by auto
  have t: "concat (map (\<lambda>i. ?cat (take (Suc i) (ls @ [l]))) [0..<length (ls @ [l])])
      = concat (map (\<lambda>i. ?cat (take (Suc i) ls)) [0..<length ls]) @ ?cat ls @ l @ [CHR 0x0A]"
  proof -
    have "map (\<lambda>i. ?cat (take (Suc i) (ls @ [l]))) [0..<length ls]
        = map (\<lambda>i. ?cat (take (Suc i) ls)) [0..<length ls]" by (rule map_cong) auto
    moreover have "[0..<length (ls @ [l])] = [0..<length ls] @ [length ls]" by simp
    ultimately show ?thesis by (simp only: map_append concat_append) simp
  qed
  show ?case unfolding t using i j by (simp add: file_ops_append)
qed

text \<open>
  On standard output \<open>fputs_\<close> writes a line but leaves it in the buffer: every further
  line writes all earlier ones again, and so does \<open>fclose_\<close>. Of the first of \<open>n\<close> lines
  \<open>n + 1\<close> copies are written.
\<close>

theorem stdout_lines_written_again:
  assumes "my_fopen (Some path) (Some mode) 1 = Some (Some fp)"
    and "\<forall>l \<in> set ls. nul \<notin> set l"
    and "length (concat (map (\<lambda>l. l @ [CHR 0x0A]) ls)) < file_NUM"
  shows "\<exists>fp' w'. file_ops (map (\<lambda>l. Puts (l @ [CHR 0x0A])) ls) fp w = Some (fp', w') \<and>
     io_written (my_fclose fp' w') = io_written w @
       concat (map (\<lambda>i. concat (map (\<lambda>l. l @ [CHR 0x0A]) (take (Suc i) ls))) [0..<length ls]) @
       concat (map (\<lambda>l. l @ [CHR 0x0A]) ls)"
  using file_ops_stdout [of fp ls w] fopen_wf [OF assms(1)] assms(2,3)
  by (auto simp: fclose_written mf_abs_def)

theorem stdout_lines_written_again_witness:
  "\<exists>fp' w'. file_ops [Puts ''a\<newline>'', Puts ''b\<newline>'']
       \<lparr>mf_fd = 1, mf_buffer = replicate file_NUM nul, mf_end = 0\<rparr> \<lparr>io_written = [], io_shown = []\<rparr>
     = Some (fp', w') \<and> io_written (my_fclose fp' w') = ''a\<newline>a\<newline>b\<newline>a\<newline>b\<newline>''"
proof -
  have o: "my_fopen (Some ''./log.txt'') (Some ''w'') 1 =
      Some (Some \<lparr>mf_fd = 1, mf_buffer = replicate file_NUM nul, mf_end = 0\<rparr>)"
    by (simp add: my_fopen_def)
  show ?thesis
    using stdout_lines_written_again [OF o, of "[''a'', ''b'']" "\<lparr>io_written = [], io_shown = []\<rparr>"]
    by (simp add: nul_def file_NUM_def upt_rec)
qed

text \<open>\<open>main\<close> opens a new file, whose descriptor is neither 0, 1 nor 2.\<close>

lemma myfile_main_writes:
  assumes "2 < fd"
  shows "\<exists>w. myfile_main fd = Some (0, w) \<and>
     io_written w = ''one: hello world    two: hello world    three: hello world    four: hello world''"
proof -
  let ?fp = "\<lparr>mf_fd = fd, mf_buffer = replicate file_NUM nul, mf_end = 0\<rparr>"
  let ?w = "\<lparr>io_written = [], io_shown = []\<rparr>"
  let ?ops = "[Puts ''one: hello world'', Puts ''    two: hello world'',
               Puts ''    three: hello world'', Puts ''    four: hello world'']"
  have o: "my_fopen (Some ''./log.txt'') (Some ''w'') fd = Some (Some ?fp)"
    using assms by (simp add: my_fopen_def)
  have wf: "mf_wf ?fp" "mf_fd ?fp \<noteq> 1" "mf_abs (?fp, ?w) = ([], [])"
    using fopen_wf [OF o] assms by (auto simp: mf_abs_def)
  have t: "puts_text ?ops = ''one: hello world    two: hello world    three: hello world    four: hello world''"
    by (simp add: c_str_def nul_def)
  obtain f p where s: "file_spec ?ops ([], []) = Some (f, p)" "f @ p = puts_text ?ops"
    using file_spec_fits [of "[]" ?ops "[]"] unfolding t by (auto simp: file_NUM_def)
  from file_ops_refine [OF wf(1,2), of ?ops ?w] s(1) wf(3) obtain fp' w' where
    r: "file_ops ?ops ?fp ?w = Some (fp', w')" "mf_abs (fp', w') = (f, p)"
    by (auto simp: map_option_case split: option.splits)
  have "myfile_main fd = Some (0, my_fclose fp' w')"
    unfolding myfile_main_def o option.case r(1) by simp
  then show ?thesis using r(2) s(2) t by (auto simp: fclose_written)
qed

end
