(* ===== verification/Shell.thy ===== *)
theory Shell
  imports Signals
begin

text \<open>
  \<open>1017/shell/myshell.c\<close>: one round of the command interpreter. The line is cut off the
  input, \<open>CheckRedir\<close> looks for a redirection from the right, \<open>strtok\<close> splits the command,
  and the child opens the file before it executes the command. What \<open>open\<close> and \<open>execvp\<close> do
  is an argument. The shells of 0921 and 1008 are earlier versions without redirection.

  On a line without redirection \<open>CheckRedir\<close> counts its pointer down to one before the array
  before it compares it with \<open>start\<close>. C leaves that undefined; here it is taken as the address it is
  on every usual machine, and only reads and writes outside the array are undefined.
\<close>

section \<open>Redirections\<close>

datatype redir = None_redir | Input_redir | Output_redir | Append_redir

text \<open>
  The loop of \<open>CheckRedir\<close> with \<open>end = start + n - 1\<close>: the kind of redirection, the command
  cut off before it and the file name, the null pointer when there is none. \<open>None\<close> is the
  read of \<open>*(end - 1)\<close> before the array, when the line starts with \<open>'>'\<close>.
\<close>

fun redir_scan :: "string \<Rightarrow> nat \<Rightarrow> (redir \<times> string \<times> string option) option" where
  "redir_scan s 0 = Some (None_redir, s, None)"
| "redir_scan s (Suc n) =
     (if s ! n = CHR ''>''
      then (if n = 0 then None
            else if s ! (n - 1) = CHR ''>''
            then Some (Append_redir, take (n - 1) s, Some (drop (Suc n) s))
            else Some (Output_redir, take n s, Some (drop (Suc n) s)))
      else if s ! n = CHR ''<'' then Some (Input_redir, take n s, Some (drop (Suc n) s))
      else redir_scan s n)"

definition CheckRedir :: "string \<Rightarrow> (redir \<times> string \<times> string option) option" where
  "CheckRedir start = redir_scan start (length start)"

definition is_redir_char :: "char \<Rightarrow> bool" where
  "is_redir_char c \<longleftrightarrow> c = CHR ''<'' \<or> c = CHR ''>''"

text \<open>The text a redirection was written as.\<close>

fun redir_text :: "redir \<Rightarrow> string option \<Rightarrow> string" where
  "redir_text Input_redir (Some f) = ''<'' @ f"
| "redir_text Output_redir (Some f) = ''>'' @ f"
| "redir_text Append_redir (Some f) = ''>>'' @ f"
| "redir_text _ _ = []"

fun redir_ok :: "redir \<Rightarrow> string option \<Rightarrow> bool" where
  "redir_ok None_redir f \<longleftrightarrow> f = None"
| "redir_ok _ f \<longleftrightarrow> (\<exists>g. f = Some g \<and> (\<forall>c \<in> set g. \<not> is_redir_char c))"

lemma redir_scan_skip:
  "m \<le> n \<Longrightarrow> \<forall>i. m \<le> i \<and> i < n \<longrightarrow> \<not> is_redir_char (s ! i) \<Longrightarrow> redir_scan s n = redir_scan s m"
proof (induction n)
  case (Suc n)
  show ?case
  proof (cases "m = Suc n")
    case False
    with Suc.prems(1) have "m \<le> n" by simp
    with Suc have "\<not> is_redir_char (s ! n)" "redir_scan s n = redir_scan s m" by auto
    then show ?thesis by (simp add: is_redir_char_def)
  qed simp
qed simp

definition redir_split :: "string \<Rightarrow> redir \<Rightarrow> string \<Rightarrow> string option \<Rightarrow> bool" where
  "redir_split s st c f \<longleftrightarrow> s = c @ redir_text st f \<and> redir_ok st f \<and>
     (st = None_redir \<longrightarrow> (\<forall>x \<in> set c. \<not> is_redir_char x)) \<and>
     (st = Output_redir \<longrightarrow> c \<noteq> [] \<and> last c \<noteq> CHR ''>'')"

lemma redir_scan_split:
  "redir_scan s n = Some (st, c, f) \<Longrightarrow> n \<le> length s \<Longrightarrow>
   \<forall>i. n \<le> i \<and> i < length s \<longrightarrow> \<not> is_redir_char (s ! i) \<Longrightarrow> redir_split s st c f"
proof (induction n)
  case 0
  then show ?case by (auto simp: redir_split_def in_set_conv_nth)
next
  case (Suc n)
  have n: "n < length s" using Suc.prems(2) by simp
  have g: "\<forall>x \<in> set (drop (Suc n) s). \<not> is_redir_char x"
  proof
    fix x assume "x \<in> set (drop (Suc n) s)"
    then obtain i where i: "i < length (drop (Suc n) s)" "drop (Suc n) s ! i = x"
      by (auto simp: in_set_conv_nth)
    then have "Suc n + i < length s" "s ! (Suc n + i) = x" by simp_all
    then show "\<not> is_redir_char x" using Suc.prems(3) by (metis le_add1)
  qed
  have s1: "s = take n s @ s ! n # drop (Suc n) s" using id_take_nth_drop [OF n] .
  show ?case
  proof (cases "s ! n = CHR ''>''")
    case True
    with Suc.prems(1) have n0: "n \<noteq> 0" by (auto split: if_splits)
    have tn: "take n s \<noteq> []" using n n0 by auto
    then have l: "take n s \<noteq> []" "last (take n s) = s ! (n - 1)"
      using n n0 last_conv_nth [OF tn] by auto
    show ?thesis
    proof (cases "s ! (n - 1) = CHR ''>''")
      case gg: True
      have "take n s = take (n - 1) s @ [CHR ''>'']"
        using take_Suc_conv_app_nth [of "n - 1" s] n n0 gg by simp
      then have "s = take (n - 1) s @ ''>>'' @ drop (Suc n) s" using s1 True by simp
      moreover have "st = Append_redir" "c = take (n - 1) s" "f = Some (drop (Suc n) s)"
        using Suc.prems(1) True n0 gg by auto
      ultimately show ?thesis using g by (simp add: redir_split_def)
    next
      case False
      then have "st = Output_redir" "c = take n s" "f = Some (drop (Suc n) s)"
        using Suc.prems(1) True n0 by auto
      then show ?thesis using s1 True g l False by (simp add: redir_split_def)
    qed
  next
    case False
    show ?thesis
    proof (cases "s ! n = CHR ''<''")
      case True
      then have "st = Input_redir" "c = take n s" "f = Some (drop (Suc n) s)"
        using Suc.prems(1) by auto
      then show ?thesis using s1 True g by (simp add: redir_split_def)
    next
      case nl: False
      have "\<forall>i. n \<le> i \<and> i < length s \<longrightarrow> \<not> is_redir_char (s ! i)"
        using Suc.prems(3) False nl by (metis is_redir_char_def le_antisym not_less_eq_eq)
      moreover have "redir_scan s n = Some (st, c, f)" using Suc.prems(1) False nl by simp
      ultimately show ?thesis using Suc.IH n by simp
    qed
  qed
qed

lemma redir_scan_at:
  assumes "\<forall>x \<in> set g. \<not> is_redir_char x"
  shows "redir_scan (a @ x # g) (length (a @ x # g)) = redir_scan (a @ x # g) (Suc (length a))"
  by (rule redir_scan_skip) (use assms in \<open>auto simp: nth_append nth_Cons'\<close>)

lemma CheckRedir_iff: "CheckRedir s = Some (st, c, f) \<longleftrightarrow> redir_split s st c f"
proof
  assume "CheckRedir s = Some (st, c, f)"
  then show "redir_split s st c f" unfolding CheckRedir_def by (rule redir_scan_split) auto
next
  assume sp: "redir_split s st c f"
  show "CheckRedir s = Some (st, c, f)"
  proof (cases st)
    case None_redir
    with sp have f: "f = None" "s = c" "\<forall>x \<in> set c. \<not> is_redir_char x" by (auto simp: redir_split_def)
    then have "redir_scan s (length s) = redir_scan s 0"
      by (intro redir_scan_skip) (auto simp: f(2))
    then show ?thesis using f None_redir by (simp add: CheckRedir_def)
  next
    case Input_redir
    with sp obtain g where g: "f = Some g" "s = c @ CHR ''<'' # g" "\<forall>x \<in> set g. \<not> is_redir_char x"
      by (auto simp: redir_split_def)
    then show ?thesis
      using redir_scan_at [OF g(3), of c "CHR ''<''"] Input_redir by (simp add: CheckRedir_def)
  next
    case Output_redir
    with sp obtain g where g: "f = Some g" "s = c @ CHR ''>'' # g" "\<forall>x \<in> set g. \<not> is_redir_char x"
      and c: "c \<noteq> []" "last c \<noteq> CHR ''>''"
      by (auto simp: redir_split_def)
    have "s ! (length c - 1) = last c" using c(1) g(2) by (simp add: nth_append last_conv_nth)
    then show ?thesis
      using redir_scan_at [OF g(3), of c "CHR ''>''"] Output_redir g(1,2) c by (simp add: CheckRedir_def)
  next
    case Append_redir
    with sp obtain g where g: "f = Some g" "s = (c @ ''>'') @ CHR ''>'' # g" "\<forall>x \<in> set g. \<not> is_redir_char x"
      by (auto simp: redir_split_def)
    have r: "redir_scan ((c @ ''>'') @ CHR ''>'' # g) (Suc (length (c @ ''>''))) =
        Some (Append_redir, c, Some g)"
      by (simp add: nth_append)
    show ?thesis
      using redir_scan_at [OF g(3), of "c @ ''>''" "CHR ''>''"] unfolding CheckRedir_def g(1,2) Append_redir r .
  qed
qed

section \<open>Splitting the command\<close>

text \<open>\<open>strtok\<close> with the separator \<open>" "\<close>: the runs of other characters.\<close>

function strtok_all :: "string \<Rightarrow> string list" where
  "strtok_all s =
     (let s' = dropWhile (\<lambda>c. c = CHR '' '') s in
      if s' = [] then []
      else takeWhile (\<lambda>c. c \<noteq> CHR '' '') s' # strtok_all (dropWhile (\<lambda>c. c \<noteq> CHR '' '') s'))"
  by pat_completeness auto
termination
proof (relation "measure length")
  fix s s' :: string
  assume s': "s' = dropWhile (\<lambda>c. c = CHR '' '') s" and ne: "\<not> s' = []"
  then have "hd s' \<noteq> CHR '' ''" using hd_dropWhile [of "\<lambda>c. c = CHR '' ''" s] by auto
  with ne have "length (dropWhile (\<lambda>c. c \<noteq> CHR '' '') s') < length s'"
    by (cases s') (auto simp: le_imp_less_Suc length_dropWhile_le)
  moreover have "length s' \<le> length s" unfolding s' by (rule length_dropWhile_le)
  ultimately show "(dropWhile (\<lambda>c. c \<noteq> CHR '' '') s', s) \<in> measure length" by simp
qed simp

declare strtok_all.simps [simp del]

definition is_word :: "string \<Rightarrow> bool" where
  "is_word w \<longleftrightarrow> w \<noteq> [] \<and> (\<forall>c \<in> set w. c \<noteq> CHR '' '' \<and> c \<noteq> CHR 0x0A \<and> c \<noteq> nul \<and> \<not> is_redir_char c)"

text \<open>Words with at least one space between them, and spaces around.\<close>

fun spaced :: "nat list \<Rightarrow> string list \<Rightarrow> string" where
  "spaced (n # ns) (w # ws) = w @ replicate (Suc n) (CHR '' '') @ spaced ns ws"
| "spaced _ [w] = w"
| "spaced _ _ = []"

lemma strtok_spaces: "strtok_all (replicate n (CHR '' '') @ s) = strtok_all s"
proof -
  have "dropWhile (\<lambda>c. c = CHR '' '') (replicate n (CHR '' '') @ s) = dropWhile (\<lambda>c. c = CHR '' '') s"
    by (induction n) auto
  then show ?thesis by (subst (1 2) strtok_all.simps) simp
qed

lemma strtok_nil [simp]: "strtok_all [] = []"
  by (subst strtok_all.simps) simp

lemma strtok_word_space:
  assumes "is_word w"
  shows "strtok_all (w @ CHR '' '' # s) = w # strtok_all s" and "strtok_all w = [w]"
proof -
  have nb: "\<forall>c \<in> set w. c \<noteq> CHR '' ''" "w \<noteq> []" using assms by (auto simp: is_word_def)
  have d: "dropWhile (\<lambda>c. c = CHR '' '') (w @ r) = w @ r" for r using nb by (cases w) auto
  have "takeWhile (\<lambda>c. c \<noteq> CHR '' '') (w @ CHR '' '' # s) = w"
    by (rule takeWhile_append_stop) (use nb in auto)
  moreover have "dropWhile (\<lambda>c. c \<noteq> CHR '' '') (w @ CHR '' '' # s) = CHR '' '' # s"
    using nb(1) by (induction w) auto
  moreover have "strtok_all (CHR '' '' # s) = strtok_all s" using strtok_spaces [of 1 s] by simp
  ultimately show "strtok_all (w @ CHR '' '' # s) = w # strtok_all s"
    using nb(2) by (subst strtok_all.simps) (simp add: d Let_def)
  have "takeWhile (\<lambda>c. c \<noteq> CHR '' '') w = w" "dropWhile (\<lambda>c. c \<noteq> CHR '' '') w = []"
    using nb(1) by (simp_all add: takeWhile_eq_all_conv dropWhile_eq_Nil_conv)
  then show "strtok_all w = [w]"
    using nb(2) d [of "[]"] by (subst strtok_all.simps) (simp only: append_Nil2 Let_def if_False strtok_nil)
qed

lemma strtok_spaced:
  "\<forall>w \<in> set ws. is_word w \<Longrightarrow> ws = [] \<or> length ns = length ws - 1 \<Longrightarrow> strtok_all (spaced ns ws) = ws"
proof (induction ns ws rule: spaced.induct)
  case (1 n ns w ws)
  show ?case
  proof (cases "ws = []")
    case True
    with 1 show ?thesis by simp
  next
    case False
    then have "strtok_all (spaced ns ws) = ws" using 1 by (cases ws) auto
    moreover have "replicate (Suc n) (CHR '' '') @ spaced ns ws = CHR '' '' # replicate n (CHR '' '') @ spaced ns ws"
      by simp
    ultimately show ?thesis using 1 strtok_word_space [of w] strtok_spaces by simp
  qed
qed (auto simp: strtok_word_space)

section \<open>One round\<close>

definition cmd_NUM :: nat where "cmd_NUM = 1024"

definition argv_SIZE :: nat where "argv_SIZE = 32"

text \<open>
  \<open>g_argv\<close> without its null pointer: \<open>ls\<close> gets a colour option. \<open>None\<close> is \<open>strcmp\<close> on the null
  pointer \<open>strtok\<close> returns for a command without words, or a store outside \<open>g_argv\<close>.
\<close>

definition shell_argv :: "string list \<Rightarrow> string list option" where
  "shell_argv ws =
     (case ws of
        [] \<Rightarrow> None
      | w # r \<Rightarrow>
          (let argv = (if w = ''ls'' then w # ''--color=auto'' # r else ws)
           in if length argv < argv_SIZE then Some argv else None))"

text \<open>What the parent does with a line: \<open>Sh_again\<close> when \<open>fgets\<close> returns the null pointer.\<close>

datatype shell_act =
    Sh_undefined | Sh_again | Sh_chdir "string option" | Sh_run "string list" redir "string option"

definition shell_line :: "string option \<Rightarrow> shell_act" where
  "shell_line inp =
     (case inp of
        None \<Rightarrow> Sh_again
      | Some l \<Rightarrow>
          (let s = c_str (take (cmd_NUM - 1) l) in
           if s = [] then Sh_undefined
           else
             (case CheckRedir (butlast s) of
                None \<Rightarrow> Sh_undefined
              | Some (st, c, sep) \<Rightarrow>
                  (case shell_argv (strtok_all c) of
                     None \<Rightarrow> Sh_undefined
                   | Some argv \<Rightarrow>
                       if hd argv = ''cd''
                       then Sh_chdir (if length argv = 1 then None else Some (argv ! 1))
                       else Sh_run argv st sep))))"

text \<open>
  The child: standard input and output after the redirection. \<open>opens\<close> is what \<open>open\<close> returns;
  when it fails, so does \<open>dup2\<close>, and the stream stays as it was.
\<close>

datatype sh_stream = Inherited | Reads string | Truncates string | Appends string

definition shell_child_io ::
  "(sh_stream \<Rightarrow> int) \<Rightarrow> redir \<Rightarrow> string option \<Rightarrow> sh_stream \<times> sh_stream" where
  "shell_child_io opens st sep =
     (let redirect = (\<lambda>x. if 0 \<le> opens x then x else Inherited) in
      case sep of
        None \<Rightarrow> (Inherited, Inherited)
      | Some f \<Rightarrow>
          (case st of
             Input_redir \<Rightarrow> (redirect (Reads f), Inherited)
           | Output_redir \<Rightarrow> (Inherited, redirect (Truncates f))
           | Append_redir \<Rightarrow> (Inherited, redirect (Appends f))
           | None_redir \<Rightarrow> (Inherited, Inherited)))"

text \<open>
  After the line: \<open>fork\<close> gives the parent the child's number \<open>pid\<close> and the child 0, and both print
  it. Then the child moves its streams and executes the command, and the parent waits and prints the
  exit code. \<open>exec\<close> gives the status word of the command with these streams, \<open>None\<close> where
  \<open>execvp\<close> fails and the child exits with 1. The record has the parent's lines, the line the child
  prints before it moves its streams, and the streams. Standard output is a terminal, so a line is
  written at its end; \<open>fork\<close> and \<open>waitpid\<close> succeed.
\<close>

record sh_shown =
  sh_parent :: "string list"
  sh_child :: string
  sh_io :: "sh_stream \<times> sh_stream"

definition sh_redir_line :: "int \<Rightarrow> string" where
  "sh_redir_line pid = utf8 [0xE5, 0xBC, 0x80, 0xE5, 0xA7, 0x8B, 0xE9, 0x87, 0x8D, 0xE5, 0xAE, 0x9A, 0xE5, 0x90, 0x91,
     0x32, 0x20] @ show_int pid @ [CHR 0x0A]"

definition sh_exit_line :: "nat option \<Rightarrow> string" where
  "sh_exit_line r = ''exit code: '' @
     show_nat (WEXITSTATUS (case r of None \<Rightarrow> status_exited 1 | Some status \<Rightarrow> status)) @ [CHR 0x0A]"

type_synonym sh_exec = "string list \<Rightarrow> sh_stream \<times> sh_stream \<Rightarrow> nat option"

definition shell_run :: "(sh_stream \<Rightarrow> int) \<Rightarrow> sh_exec \<Rightarrow> int \<Rightarrow> shell_act \<Rightarrow> sh_shown option" where
  "shell_run opens exec pid act =
     (case act of
        Sh_run argv st sep \<Rightarrow>
          (let io = shell_child_io opens st sep in
           Some \<lparr>sh_parent = [sh_redir_line pid, sh_exit_line (exec argv io)], sh_child = sh_redir_line 0, sh_io = io\<rparr>)
      | _ \<Rightarrow> None)"

text \<open>The shells of 0921 and 1008 have the same round without \<open>CheckRedir\<close>.\<close>

definition shell_line_1008 :: "string option \<Rightarrow> shell_act" where
  "shell_line_1008 inp =
     (case inp of
        None \<Rightarrow> Sh_again
      | Some l \<Rightarrow>
          (let s = c_str (take (cmd_NUM - 1) l) in
           if s = [] then Sh_undefined
           else
             (case shell_argv (strtok_all (butlast s)) of
                None \<Rightarrow> Sh_undefined
              | Some argv \<Rightarrow>
                  if hd argv = ''cd''
                  then Sh_chdir (if length argv = 1 then None else Some (argv ! 1))
                  else Sh_run argv None_redir None)))"

text \<open>There the parent prints nothing before it waits, and the child another line.\<close>

definition sh_child_text :: string where
  "sh_child_text = utf8 [0xE4, 0xB8, 0x8B, 0xE9, 0x9D, 0xA2, 0xE5, 0x8A, 0x9F, 0xE8, 0x83, 0xBD, 0xE6, 0x98, 0xAF,
     0xE8, 0xAE, 0xA9, 0xE5, 0xAD, 0x90, 0xE8, 0xBF, 0x9B, 0xE7, 0xA8, 0x8B, 0xE6, 0x89, 0xA7, 0xE8, 0xA1, 0x8C,
     0xE7, 0x9A, 0x84]"

definition shell_run_1008 :: "sh_exec \<Rightarrow> shell_act \<Rightarrow> sh_shown option" where
  "shell_run_1008 exec act =
     (case act of
        Sh_run argv st sep \<Rightarrow>
          Some \<lparr>sh_parent = [sh_exit_line (exec argv (Inherited, Inherited))], sh_child = sh_child_text @ [CHR 0x0A],
                sh_io = (Inherited, Inherited)\<rparr>
      | _ \<Rightarrow> None)"

section \<open>What a line means\<close>

definition coloured :: "string list \<Rightarrow> string list" where
  "coloured ws = (if hd ws = ''ls'' then ''ls'' # ''--color=auto'' # tl ws else ws)"

lemma set_spaced: "x \<in> set (spaced ns ws) \<Longrightarrow> x = CHR '' '' \<or> (\<exists>w \<in> set ws. x \<in> set w)"
  by (induction ns ws rule: spaced.induct) auto

lemma last_spaced:
  "\<forall>w \<in> set ws. is_word w \<Longrightarrow> ws \<noteq> [] \<Longrightarrow> length ns = length ws - 1 \<Longrightarrow>
   spaced ns ws \<noteq> [] \<and> \<not> is_redir_char (last (spaced ns ws))"
proof (induction ns ws rule: spaced.induct)
  case (1 n ns w ws)
  then show ?case by (cases ws) (auto simp: is_word_def)
qed (auto simp: is_word_def)

lemma spaced_clean:
  assumes "\<forall>w \<in> set ws. is_word w" and "x \<in> set (spaced ns ws)"
  shows "x \<noteq> nul" and "x \<noteq> CHR 0x0A" and "\<not> is_redir_char x"
proof -
  have "x = CHR '' '' \<or> (\<exists>w \<in> set ws. x \<in> set w)" using assms(2) by (rule set_spaced)
  then show "x \<noteq> nul" "x \<noteq> CHR 0x0A" "\<not> is_redir_char x"
    using assms(1) by (auto simp: is_word_def nul_def is_redir_char_def)
qed

lemma spaced_redir_split:
  assumes "\<forall>w \<in> set ws. is_word w" and "ws \<noteq> []" and "length ns = length ws - 1" and "redir_ok st f"
  shows "redir_split (spaced ns ws @ redir_text st f) st (spaced ns ws) f"
  using assms last_spaced [OF assms(1-3)] spaced_clean(3) [OF assms(1)]
  by (auto simp: redir_split_def is_redir_char_def)

lemma shell_argv_coloured:
  "ws \<noteq> [] \<Longrightarrow> length (coloured ws) < argv_SIZE \<Longrightarrow> shell_argv ws = Some (coloured ws)"
  by (cases ws) (auto simp: shell_argv_def coloured_def split: if_splits)

lemma strtok_spaced_spaces:
  "\<forall>w \<in> set ws. is_word w \<Longrightarrow> ws = [] \<or> length ns = length ws - 1 \<Longrightarrow>
   strtok_all (spaced ns ws @ replicate m (CHR '' '')) = ws"
proof (induction ns ws rule: spaced.induct)
  case (1 n ns w ws)
  show ?case
  proof (cases "ws = []")
    case True
    with 1 show ?thesis by simp
  next
    case False
    then have "strtok_all (spaced ns ws @ replicate m (CHR '' '')) = ws" using 1 by (cases ws) auto
    moreover have "spaced (n # ns) (w # ws) @ replicate m (CHR '' '') =
        w @ CHR '' '' # replicate n (CHR '' '') @ spaced ns ws @ replicate m (CHR '' '')"
      by simp
    ultimately show ?thesis using 1 strtok_word_space [of w] strtok_spaces by simp
  qed
next
  case (2 w)
  then show ?case using strtok_word_space [of w] strtok_spaces [of _ "[]"] by (cases m) auto
qed (use strtok_spaces [of m "[]"] in auto)

text \<open>A command as it is typed: words with spaces between them, before and behind.\<close>

definition command_text :: "nat \<Rightarrow> nat list \<Rightarrow> string list \<Rightarrow> nat \<Rightarrow> string" where
  "command_text k ns ws m = replicate k (CHR '' '') @ spaced ns ws @ replicate m (CHR '' '')"

lemma command_text_redir_split:
  assumes "\<forall>w \<in> set ws. is_word w" and "ws \<noteq> []" and "length ns = length ws - 1" and "redir_ok st f"
  shows "redir_split (command_text k ns ws m @ redir_text st f) st (command_text k ns ws m) f"
proof -
  have "\<forall>x \<in> set (command_text k ns ws m). \<not> is_redir_char x"
    using spaced_clean(3) [OF assms(1)] by (auto simp: command_text_def is_redir_char_def)
  moreover have "command_text k ns ws m \<noteq> []"
    using last_spaced [OF assms(1-3)] by (simp add: command_text_def)
  ultimately show ?thesis using assms(4) by (auto simp: redir_split_def is_redir_char_def)
qed

lemma strtok_command_text:
  "\<forall>w \<in> set ws. is_word w \<Longrightarrow> ws \<noteq> [] \<Longrightarrow> length ns = length ws - 1 \<Longrightarrow> strtok_all (command_text k ns ws m) = ws"
  unfolding command_text_def strtok_spaces by (rule strtok_spaced_spaces) auto

text \<open>
  C31. A typed line that fits the 1024-byte buffer and the 32 pointers, with a first word other than
  \<open>cd\<close>, is executed as it was meant: words with any number of spaces around them, followed by one
  redirection or none, become the argument vector of the child, to which \<open>ls\<close> gets
  \<open>--color=auto\<close>. Everything behind the redirection, spaces included, is the name of the file; the
  child's standard input or output is on it if it can be opened, else where it was. Parent and
  child each print a line with what \<open>fork\<close> returned, and the parent prints the exit code, 1 if the
  command cannot be executed.
\<close>

theorem shell_runs_what_was_typed:
  assumes "\<forall>w \<in> set ws. is_word w" and "ws \<noteq> []" and "length ns = length ws - 1"
    and "hd ws \<noteq> ''cd''" and "redir_ok st f" and "nul \<notin> set (redir_text st f)"
    and "length (command_text k ns ws m @ redir_text st f) < 1023" and "length (coloured ws) < 32"
  shows "shell_line (Some (command_text k ns ws m @ redir_text st f @ [CHR 0x0A])) = Sh_run (coloured ws) st f \<and>
     shell_run opens exec pid (shell_line (Some (command_text k ns ws m @ redir_text st f @ [CHR 0x0A]))) =
       (let io = (case (st, f) of
                    (Input_redir, Some g) \<Rightarrow> (if 0 \<le> opens (Reads g) then Reads g else Inherited, Inherited)
                  | (Output_redir, Some g) \<Rightarrow> (Inherited, if 0 \<le> opens (Truncates g) then Truncates g else Inherited)
                  | (Append_redir, Some g) \<Rightarrow> (Inherited, if 0 \<le> opens (Appends g) then Appends g else Inherited)
                  | _ \<Rightarrow> (Inherited, Inherited));
            both = utf8 [0xE5, 0xBC, 0x80, 0xE5, 0xA7, 0x8B, 0xE9, 0x87, 0x8D, 0xE5, 0xAE, 0x9A, 0xE5, 0x90, 0x91] @ ''2 ''
        in Some \<lparr>sh_parent = [both @ show_int pid @ [CHR 0x0A],
                   ''exit code: '' @
                     show_nat (case exec (coloured ws) io of None \<Rightarrow> 1 | Some status \<Rightarrow> status div 256 mod 256) @ [CHR 0x0A]],
                 sh_child = both @ ''0'' @ [CHR 0x0A], sh_io = io\<rparr>)"
proof -
  let ?c = "command_text k ns ws m"
  let ?l = "?c @ redir_text st f @ [CHR 0x0A]"
  have "nul \<notin> set ?c" using spaced_clean(1) [OF assms(1)] by (auto simp: command_text_def nul_def)
  then have "nul \<notin> set ?l" using assms(6) by (auto simp: nul_def)
  then have "c_str (take (cmd_NUM - 1) ?l) = ?l"
    using assms(7) by (simp only: length_append list.size cmd_NUM_def) simp
  moreover have "butlast ?l = ?c @ redir_text st f" by (simp add: butlast_append)
  moreover have "CheckRedir (?c @ redir_text st f) = Some (st, ?c, f)"
    unfolding CheckRedir_iff by (rule command_text_redir_split [OF assms(1-3,5)])
  moreover have "strtok_all ?c = ws" by (rule strtok_command_text [OF assms(1-3)])
  moreover have "hd (coloured ws) \<noteq> ''cd''" using assms(4) by (auto simp: coloured_def)
  ultimately have r: "shell_line (Some ?l) = Sh_run (coloured ws) st f"
    using shell_argv_coloured [OF assms(2)] assms(8) by (simp add: shell_line_def argv_SIZE_def Let_def)
  have t: "sh_redir_line i = utf8 [0xE5, 0xBC, 0x80, 0xE5, 0xA7, 0x8B, 0xE9, 0x87, 0x8D, 0xE5, 0xAE, 0x9A, 0xE5, 0x90,
      0x91] @ ''2 '' @ show_int i @ [CHR 0x0A]" for i
    by (simp add: sh_redir_line_def utf8_def char_of_def bit_0)
  have x: "sh_exit_line e = ''exit code: '' @
      show_nat (case e of None \<Rightarrow> 1 | Some status \<Rightarrow> status div 256 mod 256) @ [CHR 0x0A]" for e
    by (cases e) (simp_all add: sh_exit_line_def WEXITSTATUS_def status_exited_def)
  have "show_int 0 = ''0''" by code_simp
  then show ?thesis unfolding r
    using assms(5) by (cases st) (auto simp: shell_run_def shell_child_io_def t x Let_def)
qed

theorem shell_runs_what_was_typed_witness:
  "shell_line (Some ''ls  -a -l >log.txt\<newline>'') =
     Sh_run [''ls'', ''--color=auto'', ''-a'', ''-l''] Output_redir (Some ''log.txt'')"
proof -
  have "\<forall>w \<in> set [''ls'', ''-a'', ''-l'']. is_word w" by (simp add: is_word_def is_redir_char_def nul_def)
  from shell_runs_what_was_typed [OF this, of "[1, 0]" Output_redir "Some ''log.txt''" 0 1]
  show ?thesis by (simp add: coloured_def command_text_def is_redir_char_def nul_def)
qed

lemma strtok_none: "strtok_all c = [] \<longleftrightarrow> (\<forall>x \<in> set c. x = CHR '' '')"
proof -
  have "strtok_all c = [] \<longleftrightarrow> dropWhile (\<lambda>x. x = CHR '' '') c = []"
    by (subst strtok_all.simps) (simp add: Let_def)
  then show ?thesis by (simp add: dropWhile_eq_Nil_conv)
qed

lemma shell_argv_None: "shell_argv ws = None \<longleftrightarrow> ws = [] \<or> 32 \<le> length (coloured ws)"
  by (cases ws) (auto simp: shell_argv_def coloured_def argv_SIZE_def)

lemma redir_scan_None:
  "redir_scan s k = None \<Longrightarrow> k \<le> length s \<Longrightarrow> \<forall>i. k \<le> i \<and> i < length s \<longrightarrow> \<not> is_redir_char (s ! i) \<Longrightarrow>
   s \<noteq> [] \<and> s ! 0 = CHR ''>'' \<and> (\<forall>i. 0 < i \<and> i < length s \<longrightarrow> \<not> is_redir_char (s ! i))"
proof (induction k)
  case (Suc k)
  show ?case
  proof (cases "is_redir_char (s ! k)")
    case True
    with Suc.prems have "k = 0" "s ! k = CHR ''>''" by (auto simp: is_redir_char_def split: if_splits)
    with Suc.prems show ?thesis by auto
  next
    case False
    with Suc.prems have "redir_scan s k = None" by (auto simp: is_redir_char_def)
    moreover have "\<forall>i. k \<le> i \<and> i < length s \<longrightarrow> \<not> is_redir_char (s ! i)"
      using Suc.prems(3) False by (metis le_antisym not_less_eq_eq)
    ultimately show ?thesis using Suc by simp
  qed
qed simp

lemma CheckRedir_None:
  "CheckRedir s = None \<longleftrightarrow> (\<exists>g. s = ''>'' @ g \<and> (\<forall>c \<in> set g. \<not> is_redir_char c))"
proof
  assume n: "CheckRedir s = None"
  then have h: "s \<noteq> []" "s ! 0 = CHR ''>''" "\<forall>i. 0 < i \<and> i < length s \<longrightarrow> \<not> is_redir_char (s ! i)"
    using redir_scan_None [of s "length s", OF _ order_refl] linorder_not_less [of _ "length s"]
    unfolding CheckRedir_def by blast+
  then obtain g where s: "s = CHR ''>'' # g" by (cases s) auto
  have "\<not> is_redir_char c" if "c \<in> set g" for c
  proof -
    from that obtain i where "i < length g" "g ! i = c" by (auto simp: in_set_conv_nth)
    with h(3) s show ?thesis by (auto dest: spec [of _ "Suc i"])
  qed
  with s show "\<exists>g. s = ''>'' @ g \<and> (\<forall>c \<in> set g. \<not> is_redir_char c)" by auto
next
  assume "\<exists>g. s = ''>'' @ g \<and> (\<forall>c \<in> set g. \<not> is_redir_char c)"
  then obtain g where g: "s = CHR ''>'' # g" "\<forall>c \<in> set g. \<not> is_redir_char c" by auto
  show "CheckRedir s = None" using redir_scan_at [OF g(2), of "[]" "CHR ''>''"] unfolding g(1) CheckRedir_def by simp
qed

text \<open>
  C34. Exactly where the shell breaks. With \<open>s\<close> what a line leaves in the 1024-byte buffer up to the
  first zero byte: \<open>s\<close> is empty, and the store at \<open>strlen(cmd_line) - 1\<close> is before the array;
  without its last character it is a \<open>'>'\<close> with no other redirection sign behind it, and the
  character before is read; or what stands before the last redirection has no word, and \<open>strcmp\<close>
  reads the null pointer \<open>strtok\<close> returns, or 32 arguments or more with the option for \<open>ls\<close>,
  and \<open>g_argv\<close> is written outside. When \<open>fgets\<close> returns the null pointer the next round starts.
\<close>

theorem shell_undefined_lines:
  "(shell_line (Some l) = Sh_undefined \<longleftrightarrow>
     (let s = c_str (take 1023 l) in
      s = [] \<or> (\<exists>g. butlast s = ''>'' @ g \<and> (\<forall>c \<in> set g. c \<noteq> CHR ''<'' \<and> c \<noteq> CHR ''>'')) \<or>
      (\<exists>st c f. redir_split (butlast s) st c f \<and>
         ((\<forall>x \<in> set c. x = CHR '' '') \<or> 32 \<le> length (coloured (strtok_all c)))))) \<and>
   shell_line None = Sh_again"
proof -
  let ?s = "c_str (take 1023 l)"
  have d: "shell_line (Some l) = Sh_undefined \<longleftrightarrow> ?s = [] \<or> CheckRedir (butlast ?s) = None \<or>
      (\<exists>st c f. CheckRedir (butlast ?s) = Some (st, c, f) \<and> shell_argv (strtok_all c) = None)"
    by (auto simp: shell_line_def cmd_NUM_def Let_def split: option.splits)
  have "shell_line None = Sh_again" by (simp add: shell_line_def)
  then show ?thesis
    unfolding d CheckRedir_None CheckRedir_iff shell_argv_None strtok_none Let_def is_redir_char_def de_Morgan_disj
    by blast
qed

text \<open>Enter alone, a blank, and a lone redirection break it; \<open>>a<b\<close> is a command.\<close>

theorem shell_undefined_lines_witness:
  "shell_line (Some ''\<newline>'') = Sh_undefined \<and> shell_line (Some '' \<newline>'') = Sh_undefined \<and>
   shell_line (Some ''>log.txt\<newline>'') = Sh_undefined \<and>
   shell_line (Some ''>a<b\<newline>'') = Sh_run [''>a''] Input_redir (Some ''b'')"
proof -
  note rule = shell_undefined_lines [THEN conjunct1, THEN iffD2]
  have c: "c_str (take 1023 ''\<newline>'') = ''\<newline>''" "c_str (take 1023 '' \<newline>'') = '' \<newline>''"
    "c_str (take 1023 ''>log.txt\<newline>'') = ''>log.txt\<newline>''" by (simp_all add: c_str_def nul_def)
  have b: "redir_split (butlast ''\<newline>'') None_redir [] None" "redir_split (butlast '' \<newline>'') None_redir '' '' None"
    by (simp_all add: redir_split_def is_redir_char_def)
  have "shell_line (Some ''\<newline>'') = Sh_undefined"
    by (rule rule, unfold Let_def c, rule disjI2, rule disjI2, intro exI conjI, rule b(1), rule disjI1) simp
  moreover have "shell_line (Some '' \<newline>'') = Sh_undefined"
    by (rule rule, unfold Let_def c, rule disjI2, rule disjI2, intro exI conjI, rule b(2), rule disjI1) simp
  moreover have "shell_line (Some ''>log.txt\<newline>'') = Sh_undefined"
    by (rule rule, unfold Let_def c) simp
  moreover have "shell_line (Some ''>a<b\<newline>'') = Sh_run [''>a''] Input_redir (Some ''b'')" by code_simp
  ultimately show ?thesis by simp
qed

lemma no_redir_line:
  assumes "\<forall>c \<in> set (butlast l). \<not> is_redir_char c"
  shows "CheckRedir (butlast (c_str (take n l))) = Some (None_redir, butlast (c_str (take n l)), None)"
proof -
  let ?s = "c_str (take n l)"
  obtain r where r: "l = ?s @ r"
    unfolding c_str_def by (metis append.assoc append_take_drop_id takeWhile_dropWhile_id)
  have "butlast l = (if r = [] then butlast ?s else ?s @ butlast r)"
    by (subst r) (simp add: butlast_append)
  then have "set (butlast ?s) \<subseteq> set (butlast l)" by (auto dest: in_set_butlastD)
  with assms show ?thesis unfolding CheckRedir_iff by (auto simp: redir_split_def)
qed

text \<open>
  C33. The shell with redirection extends the earlier one: on every line whose part before the
  newline has neither \<open>'<'\<close> nor \<open>'>'\<close> both take the same decision, undefined behaviour, the next
  round and \<open>cd\<close> included; a command gets the same arguments and the inherited streams in both,
  and both end with the same line for its exit code. They do not print the same before it: the newer
  shell prints what \<open>fork\<close> returned in parent and child, the earlier one its own line in the child.
\<close>

theorem shell_extends_1008:
  assumes "\<forall>l. inp = Some l \<longrightarrow> (\<forall>c \<in> set (butlast l). c \<noteq> CHR ''<'' \<and> c \<noteq> CHR ''>'')"
  shows "shell_line inp = shell_line_1008 inp \<and>
     (case shell_line inp of
        Sh_run argv st f \<Rightarrow>
          (let code = sh_exit_line (exec argv (Inherited, Inherited)) in
           shell_run opens exec pid (shell_line inp) =
             Some \<lparr>sh_parent = [sh_redir_line pid, code], sh_child = sh_redir_line 0, sh_io = (Inherited, Inherited)\<rparr> \<and>
           shell_run_1008 exec (shell_line_1008 inp) =
             Some \<lparr>sh_parent = [code], sh_child = sh_child_text @ [CHR 0x0A], sh_io = (Inherited, Inherited)\<rparr>)
      | _ \<Rightarrow> shell_run opens exec pid (shell_line inp) = None \<and> shell_run_1008 exec (shell_line_1008 inp) = None)"
proof -
  have "shell_line inp = shell_line_1008 inp \<and> (\<forall>argv st f. shell_line inp = Sh_run argv st f \<longrightarrow> f = None)"
  proof (cases inp)
    case None
    then show ?thesis by (simp add: shell_line_def shell_line_1008_def)
  next
    case (Some l)
    then have "\<forall>c \<in> set (butlast l). \<not> is_redir_char c" using assms by (simp add: is_redir_char_def)
    from no_redir_line [OF this, of "cmd_NUM - 1"] Some show ?thesis
      by (auto simp: shell_line_def shell_line_1008_def Let_def split: option.splits if_splits)
  qed
  then show ?thesis
    by (auto simp: shell_run_def shell_run_1008_def shell_child_io_def Let_def split: shell_act.splits)
qed

theorem shell_extends_1008_witness:
  "shell_line (Some ''cd ..\<newline>'') = shell_line_1008 (Some ''cd ..\<newline>'')"
  using shell_extends_1008 [of "Some ''cd ..\<newline>''"] by simp

end
