(* ===== verification/Alternate.thy ===== *)
theory Alternate
  imports Pthread
begin

text \<open>
  The exercise at the end of \<open>xjh_multi_thread/test1.cc\<close>, in both versions the file keeps
  (one is compiled at a time): two threads print the numbers in turn, the first the odd ones,
  the second the even ones, once by yielding until it is their turn and once with a mutex,
  a condition variable and the flag \<open>ready\<close>. Both refine \<open>alt_spec\<close>, which hands out the
  numbers in order to the thread whose turn it is. Thread 0 is \<open>t1\<close>, thread 1 is \<open>t2\<close>;
  reads and writes of \<open>i\<close> are atomic here, although the sources leave them unsynchronised.
\<close>

section \<open>Taking turns\<close>

definition turn :: "nat \<Rightarrow> tid" where
  "turn i = (if even i then 1 else 0)"

datatype alt_event = Shown tid nat

fun alt_spec :: "nat \<Rightarrow> alt_event \<Rightarrow> nat option" where
  "alt_spec k (Shown t v) = (if t = turn k \<and> v = k then Some (Suc k) else None)"

lemma turn_Suc: "turn (Suc i) = 1 - turn i"
  by (simp add: turn_def)

lemma turn_iff [simp]: "turn i = 0 \<longleftrightarrow> odd i" "turn i = 1 \<longleftrightarrow> even i" "turn i = Suc 0 \<longleftrightarrow> even i"
  "Suc 0 = turn i \<longleftrightarrow> even i" "0 = turn i \<longleftrightarrow> odd i"
  by (auto simp: turn_def)

lemma turn_less: "turn i < 2"
  by (simp add: turn_def)

lemma turn_cases: "t < 2 \<Longrightarrow> turn i = t \<or> turn (Suc i) = t"
  by (auto simp: turn_def)

lemma alt_spec_run:
  "abs_run alt_spec j es = Some k \<Longrightarrow> es = map (\<lambda>i. Shown (turn i) i) [j..<k] \<and> j \<le> k"
proof (induction es arbitrary: j)
  case Nil
  then show ?case by simp
next
  case (Cons e es)
  then obtain t v where e: "e = Shown t v" "t = turn j" "v = j" and r: "abs_run alt_spec (Suc j) es = Some k"
    by (cases e) (auto split: if_splits)
  from Cons.IH [OF r] e show ?case by (simp add: upt_conv_Cons)
qed

section \<open>Yielding\<close>

datatype yield_pc = Y_For | Y_While | Y_Print | Y_Inc | Y_End

record yield_sys =
  y_i :: nat
  y_pcs :: "yield_pc list"

definition yield_init :: "yield_sys \<Rightarrow> bool" where
  "yield_init s \<longleftrightarrow> s = \<lparr>y_i = 0, y_pcs = [Y_For, Y_For]\<rparr>"

text \<open>
  A step of thread \<open>t\<close> at \<open>i\<close>: \<open>t1\<close> yields while \<open>i % 2 == 0\<close>, \<open>t2\<close> while \<open>i % 2 == 1\<close>;
  \<open>n\<close> is 100.
\<close>

inductive yield_thread ::
  "nat \<Rightarrow> tid \<Rightarrow> nat \<Rightarrow> yield_pc \<Rightarrow> alt_event option \<Rightarrow> nat \<Rightarrow> yield_pc \<Rightarrow> bool"
  for n :: nat and t :: tid and i :: nat where
  enter: "i < n \<Longrightarrow> yield_thread n t i Y_For None i Y_While"
| leave: "\<not> i < n \<Longrightarrow> yield_thread n t i Y_For None i Y_End"
| yield: "i mod 2 = t \<Longrightarrow> yield_thread n t i Y_While None i Y_While"
| go: "i mod 2 \<noteq> t \<Longrightarrow> yield_thread n t i Y_While None i Y_Print"
| print: "yield_thread n t i Y_Print (Some (Shown t i)) i Y_Inc"
| inc: "yield_thread n t i Y_Inc None (Suc i) Y_For"

definition yield_step :: "nat \<Rightarrow> yield_sys \<Rightarrow> alt_event option \<Rightarrow> yield_sys \<Rightarrow> bool" where
  "yield_step n s l s' \<longleftrightarrow>
     (\<exists>t < length (y_pcs s). \<exists>j p. yield_thread n t (y_i s) (y_pcs s ! t) l j p \<and>
        s' = \<lparr>y_i = j, y_pcs = (y_pcs s)[t := p]\<rparr>)"

text \<open>
  A thread inside the loop entered it at some \<open>i < n\<close>, and only the thread whose turn it is
  can have changed \<open>i\<close> since.
\<close>

definition y_ok :: "nat \<Rightarrow> nat \<Rightarrow> bool \<Rightarrow> yield_pc \<Rightarrow> bool" where
  "y_ok n i mine p \<longleftrightarrow>
     (case p of
        Y_For \<Rightarrow> True
      | Y_While \<Rightarrow> i \<le> n \<and> (mine \<or> i < n)
      | Y_Print \<Rightarrow> i \<le> n \<and> mine
      | Y_Inc \<Rightarrow> i \<le> n \<and> mine
      | Y_End \<Rightarrow> n \<le> i)"

definition y_inv :: "nat \<Rightarrow> yield_sys \<Rightarrow> bool" where
  "y_inv n s \<longleftrightarrow> y_i s \<le> Suc n \<and>
     (\<exists>a b. y_pcs s = [a, b] \<and> y_ok n (y_i s) (odd (y_i s)) a \<and> y_ok n (y_i s) (even (y_i s)) b)"

definition y_abs :: "yield_sys \<Rightarrow> nat" where
  "y_abs s = (if Y_Inc \<in> set (y_pcs s) then Suc (y_i s) else y_i s)"

lemma mod_two_turn: "t < 2 \<Longrightarrow> (i mod 2 = t) \<longleftrightarrow> turn i \<noteq> t"
  by (cases "even i") (auto simp: turn_def less_2_cases_iff even_iff_mod_2_eq_zero odd_iff_mod_2_eq_one)

lemma turn_Suc_iff: "t < 2 \<Longrightarrow> turn (Suc i) = t \<longleftrightarrow> turn i \<noteq> t"
  by (auto simp: turn_def less_2_cases_iff)

text \<open>A step keeps the thread's own condition, and the other thread's when it gets its turn.\<close>

lemma yield_thread_ok:
  assumes st: "yield_thread n t i p l j p'" and t: "t < 2" and ok: "y_ok n i (turn i = t) p" and i: "i \<le> Suc n"
  shows "y_ok n j (turn j = t) p' \<and> j \<le> Suc n \<and>
    (y_ok n i (turn i \<noteq> t) q \<longrightarrow> y_ok n j (turn j \<noteq> t) q \<and>
     (l = None \<longrightarrow> (if Y_Inc \<in> {p', q} then Suc j else j) = (if Y_Inc \<in> {p, q} then Suc i else i)) \<and>
     (\<forall>e. l = Some e \<longrightarrow> e = Shown (turn i) i \<and> Y_Inc \<notin> {p, q} \<and> p' = Y_Inc \<and> j = i))"
  using st
proof cases
  case go
  then have "turn i = t" using mod_two_turn [OF t] by blast
  with go ok show ?thesis by (cases q) (auto simp: y_ok_def)
next
  case inc
  then have "turn i = t" "turn j \<noteq> t" using ok turn_Suc_iff [OF t] by (auto simp: y_ok_def)
  with inc ok show ?thesis by (cases q) (auto simp: y_ok_def)
next
  case print
  then have "turn i = t" using ok by (simp add: y_ok_def)
  with print ok show ?thesis by (cases q) (auto simp: y_ok_def)
qed (use ok i in \<open>auto simp: y_ok_def split: yield_pc.splits\<close>)

lemma yield_step_ok:
  assumes st: "yield_step n s l s'" and inv: "y_inv n s"
  shows "y_inv n s' \<and> (l = None \<longrightarrow> y_abs s' = y_abs s) \<and>
     (\<forall>e. l = Some e \<longrightarrow> alt_spec (y_abs s) e = Some (y_abs s'))"
proof -
  obtain a b where ab: "y_pcs s = [a, b]" "y_i s \<le> Suc n"
    "y_ok n (y_i s) (turn (y_i s) = 0) a" "y_ok n (y_i s) (turn (y_i s) \<noteq> 0) b"
    using inv unfolding y_inv_def by (simp only: turn_iff not_not) blast
  then have b': "y_ok n (y_i s) (turn (y_i s) = 1) b" "y_ok n (y_i s) (turn (y_i s) \<noteq> 1) a"
    by (simp_all only: turn_iff not_not)
  obtain t j p where t: "t < 2" "yield_thread n t (y_i s) (y_pcs s ! t) l j p"
    and s': "s' = \<lparr>y_i = j, y_pcs = (y_pcs s)[t := p]\<rparr>"
    using st ab(1) unfolding yield_step_def by (metis length_Cons list.size(3) numeral_2_eq_2)
  from t(1) consider "t = 0" | "t = 1" by fastforce
  then show ?thesis
  proof cases
    case 1
    then have "yield_thread n 0 (y_i s) a l j p" using t ab by simp
    note k = yield_thread_ok [OF this _ ab(3) ab(2), of b]
    from k ab 1 s' show ?thesis by (auto simp: y_inv_def y_abs_def)
  next
    case 2
    then have "yield_thread n 1 (y_i s) b l j p" using t ab by simp
    note k = yield_thread_ok [OF this _ b'(1) ab(2), of a]
    from k ab b' 2 s' show ?thesis by (auto simp: y_inv_def y_abs_def)
  qed
qed

interpretation yieldr: trace_refinement yield_init "yield_step n" "y_inv n" y_abs alt_spec
  for n :: nat
  by unfold_locales (auto simp: yield_init_def y_inv_def y_ok_def dest: yield_step_ok)

section \<open>With a condition variable\<close>

datatype cv_pc =
    C_For | C_Lock | C_Test | C_Wait | C_Wake | C_Print | C_Inc | C_Set | C_Notify | C_Unlock | C_End

record cv_sys =
  cv_i :: nat
  cv_ready :: bool
  cv_mtx :: mutex
  cv_pcs :: "cv_pc list"

definition cv_init :: "cv_sys \<Rightarrow> bool" where
  "cv_init s \<longleftrightarrow> s = \<lparr>cv_i = 0, cv_ready = True, cv_mtx = None, cv_pcs = [C_For, C_For]\<rparr>"

text \<open>The predicates of the two waits: \<open>!ready\<close> for \<open>t1\<close>, \<open>ready\<close> for \<open>t2\<close>.\<close>

definition cv_pred :: "tid \<Rightarrow> bool \<Rightarrow> bool" where
  "cv_pred t ready \<longleftrightarrow> (if t = 0 then \<not> ready else ready)"

definition cv_waits :: "cv_pc \<Rightarrow> bool" where
  "cv_waits p \<longleftrightarrow> p = C_Wait"

definition cv_wake :: "cv_pc \<Rightarrow> cv_pc" where
  "cv_wake p = (if p = C_Wait then C_Wake else p)"

text \<open>
  \<open>cv.wait(lock, pred)\<close> is a loop around the test; \<open>unique_lock\<close> unlocks at the end of the
  body. \<open>t1\<close> sets \<open>ready\<close> to true, \<open>t2\<close> to false.
\<close>

inductive cv_prog :: "nat \<Rightarrow> cv_sys \<Rightarrow> alt_event option \<Rightarrow> cv_sys \<Rightarrow> bool" for n :: nat where
  enter: "t < length (cv_pcs s) \<Longrightarrow> cv_pcs s ! t = C_For \<Longrightarrow> cv_i s < n \<Longrightarrow>
    cv_prog n s None (s\<lparr>cv_pcs := (cv_pcs s)[t := C_Lock]\<rparr>)"
| leave: "t < length (cv_pcs s) \<Longrightarrow> cv_pcs s ! t = C_For \<Longrightarrow> \<not> cv_i s < n \<Longrightarrow>
    cv_prog n s None (s\<lparr>cv_pcs := (cv_pcs s)[t := C_End]\<rparr>)"
| lock: "t < length (cv_pcs s) \<Longrightarrow> cv_pcs s ! t = C_Lock \<Longrightarrow> lockGuard_ctor t (cv_mtx s) = Some m \<Longrightarrow>
    cv_prog n s None (s\<lparr>cv_mtx := m, cv_pcs := (cv_pcs s)[t := C_Test]\<rparr>)"
| wait: "t < length (cv_pcs s) \<Longrightarrow> cv_pcs s ! t = C_Test \<Longrightarrow> \<not> cv_pred t (cv_ready s) \<Longrightarrow>
    lockGuard_dtor t (cv_mtx s) = Some m \<Longrightarrow>
    cv_prog n s None (s\<lparr>cv_mtx := m, cv_pcs := (cv_pcs s)[t := C_Wait]\<rparr>)"
| relock: "t < length (cv_pcs s) \<Longrightarrow> cv_pcs s ! t = C_Wake \<Longrightarrow> lockGuard_ctor t (cv_mtx s) = Some m \<Longrightarrow>
    cv_prog n s None (s\<lparr>cv_mtx := m, cv_pcs := (cv_pcs s)[t := C_Test]\<rparr>)"
| ready: "t < length (cv_pcs s) \<Longrightarrow> cv_pcs s ! t = C_Test \<Longrightarrow> cv_pred t (cv_ready s) \<Longrightarrow>
    cv_prog n s None (s\<lparr>cv_pcs := (cv_pcs s)[t := C_Print]\<rparr>)"
| print: "t < length (cv_pcs s) \<Longrightarrow> cv_pcs s ! t = C_Print \<Longrightarrow>
    cv_prog n s (Some (Shown t (cv_i s))) (s\<lparr>cv_pcs := (cv_pcs s)[t := C_Inc]\<rparr>)"
| inc: "t < length (cv_pcs s) \<Longrightarrow> cv_pcs s ! t = C_Inc \<Longrightarrow>
    cv_prog n s None (s\<lparr>cv_i := Suc (cv_i s), cv_pcs := (cv_pcs s)[t := C_Set]\<rparr>)"
| set: "t < length (cv_pcs s) \<Longrightarrow> cv_pcs s ! t = C_Set \<Longrightarrow>
    cv_prog n s None (s\<lparr>cv_ready := (t = 0), cv_pcs := (cv_pcs s)[t := C_Notify]\<rparr>)"
| notify: "t < length (cv_pcs s) \<Longrightarrow> cv_pcs s ! t = C_Notify \<Longrightarrow>
    pthread_cond_signal cv_waits cv_wake (cv_pcs s) ps \<Longrightarrow>
    cv_prog n s None (s\<lparr>cv_pcs := ps[t := C_Unlock]\<rparr>)"
| unlock: "t < length (cv_pcs s) \<Longrightarrow> cv_pcs s ! t = C_Unlock \<Longrightarrow> lockGuard_dtor t (cv_mtx s) = Some m \<Longrightarrow>
    cv_prog n s None (s\<lparr>cv_mtx := m, cv_pcs := (cv_pcs s)[t := C_For]\<rparr>)"

definition cv_spurious :: "cv_sys \<Rightarrow> cv_sys \<Rightarrow> bool" where
  "cv_spurious s s' \<longleftrightarrow>
     (\<exists>t < length (cv_pcs s). cv_pcs s ! t = C_Wait \<and> s' = s\<lparr>cv_pcs := (cv_pcs s)[t := C_Wake]\<rparr>)"

definition cv_step :: "nat \<Rightarrow> cv_sys \<Rightarrow> alt_event option \<Rightarrow> cv_sys \<Rightarrow> bool" where
  "cv_step n s l s' \<longleftrightarrow> cv_prog n s l s' \<or> (l = None \<and> cv_spurious s s')"

definition cv_holds :: "cv_pc \<Rightarrow> bool" where
  "cv_holds p \<longleftrightarrow> p \<in> {C_Test, C_Print, C_Inc, C_Set, C_Notify, C_Unlock}"

text \<open>
  What holds for a thread at its place: \<open>mine\<close> when it is its turn, \<open>my\<close> when its predicate
  holds.
\<close>

definition cv_ok :: "nat \<Rightarrow> nat \<Rightarrow> bool \<Rightarrow> bool \<Rightarrow> cv_pc \<Rightarrow> bool" where
  "cv_ok n i mine my p \<longleftrightarrow>
     (p \<in> {C_Lock, C_Test, C_Wait, C_Wake, C_Print, C_Inc} \<longrightarrow> i \<le> n \<and> (mine \<or> i < n)) \<and>
     (p \<in> {C_Print, C_Inc} \<longrightarrow> mine \<and> my) \<and>
     (p = C_Set \<longrightarrow> \<not> mine \<and> my) \<and>
     (p \<in> {C_Notify, C_Unlock} \<longrightarrow> \<not> mine \<and> \<not> my) \<and>
     (p = C_End \<longrightarrow> n \<le> i)"

definition cv_inv :: "nat \<Rightarrow> cv_sys \<Rightarrow> bool" where
  "cv_inv n s \<longleftrightarrow> length (cv_pcs s) = 2 \<and> cv_i s \<le> Suc n \<and> mutex_inv cv_holds (cv_mtx s) (cv_pcs s) \<and>
     (C_Set \<notin> set (cv_pcs s) \<longrightarrow> cv_ready s = even (cv_i s)) \<and>
     (\<forall>t < 2. cv_ok n (cv_i s) (turn (cv_i s) = t) (cv_pred t (cv_ready s)) (cv_pcs s ! t)) \<and>
     (\<forall>t < 2. cv_pcs s ! t = C_Wait \<longrightarrow> cv_pred t (cv_ready s) \<longrightarrow> C_Notify \<in> set (cv_pcs s))"

definition cv_abs :: "cv_sys \<Rightarrow> nat" where
  "cv_abs s = (if C_Inc \<in> set (cv_pcs s) then Suc (cv_i s) else cv_i s)"

lemma all_less_two: "(\<forall>t < (2::nat). P t) \<longleftrightarrow> P 0 \<and> P 1"
  by (auto simp: less_2_cases_iff)

lemma mutex_inv_two:
  "mutex_inv h m [a, b] \<longleftrightarrow> (h a \<longleftrightarrow> m = Some 0) \<and> (h b \<longleftrightarrow> m = Some 1) \<and> (\<forall>t. m = Some t \<longrightarrow> t < 2)"
  by (simp add: mutex_inv_def all_less_two numeral_2_eq_2 [symmetric])

lemma cv_inv_iff:
  "cv_inv n \<lparr>cv_i = i, cv_ready = r, cv_mtx = m, cv_pcs = [a, b]\<rparr> \<longleftrightarrow> i \<le> Suc n \<and>
     mutex_inv cv_holds m [a, b] \<and> (a = C_Set \<or> b = C_Set \<or> (r \<longleftrightarrow> even i)) \<and>
     cv_ok n i (odd i) (\<not> r) a \<and> cv_ok n i (even i) r b \<and>
     (a \<noteq> C_Wait \<or> r \<or> b = C_Notify) \<and> (b \<noteq> C_Wait \<or> \<not> r \<or> a = C_Notify)"
  by (auto simp: cv_inv_def all_less_two cv_pred_def)

lemma cv_two: "cv_inv n s \<Longrightarrow> \<exists>i r m a b. s = \<lparr>cv_i = i, cv_ready = r, cv_mtx = m, cv_pcs = [a, b]\<rparr>"
  by (cases s) (auto simp: cv_inv_def length_Suc_conv numeral_2_eq_2)

lemma signal_two:
  assumes "pthread_cond_signal cv_waits cv_wake [a, b] ps"
  shows "(a = C_Wait \<and> ps = [C_Wake, b]) \<or> (b = C_Wait \<and> ps = [a, C_Wake]) \<or>
     (a \<noteq> C_Wait \<and> b \<noteq> C_Wait \<and> ps = [a, b])"
  using assms
proof cases
  case (wake_one u)
  then have "u = 0 \<or> u = 1" by auto
  with wake_one show ?thesis by (auto simp: cv_waits_def cv_wake_def)
next
  case wake_none
  then have "\<not> cv_waits a" "\<not> cv_waits b" by (auto simp: all_less_two numeral_2_eq_2 [symmetric])
  with wake_none show ?thesis by (simp add: cv_waits_def)
qed

lemma cv_prog_ok:
  assumes st: "cv_prog n s l s'" and inv: "cv_inv n s"
  shows "cv_inv n s' \<and> (l = None \<longrightarrow> cv_abs s' = cv_abs s) \<and>
     (\<forall>e. l = Some e \<longrightarrow> alt_spec (cv_abs s) e = Some (cv_abs s'))"
proof -
  obtain i r m a b where s: "s = \<lparr>cv_i = i, cv_ready = r, cv_mtx = m, cv_pcs = [a, b]\<rparr>"
    using cv_two [OF inv] by blast
  note facts = cv_inv_iff mutex_inv_two cv_holds_def cv_ok_def cv_pred_def cv_abs_def
  have tt: "t = 0 \<or> t = 1" if "t < length (cv_pcs s)" for t using that by (auto simp: s less_Suc_eq)
  from st show ?thesis
  proof cases
    case (enter t)
    then have "t = 0 \<or> t = 1" using tt by blast
    then show ?thesis by (elim disjE) (use enter inv in \<open>auto simp: s facts\<close>)
  next
    case (leave t)
    then have "t = 0 \<or> t = 1" using tt by blast
    then show ?thesis by (elim disjE) (use leave inv in \<open>auto simp: s facts\<close>)
  next
    case (lock t)
    then have "t = 0 \<or> t = 1" using tt by blast
    then show ?thesis by (elim disjE) (use lock inv in \<open>auto simp: s facts\<close>)
  next
    case (wait t)
    then have "t = 0 \<or> t = 1" using tt by blast
    then show ?thesis by (elim disjE) (use wait inv in \<open>auto simp: s facts\<close>)
  next
    case (relock t)
    then have "t = 0 \<or> t = 1" using tt by blast
    then show ?thesis by (elim disjE) (use relock inv in \<open>auto simp: s facts\<close>)
  next
    case (ready t)
    then have "t = 0 \<or> t = 1" using tt by blast
    then show ?thesis by (elim disjE) (use ready inv in \<open>auto simp: s facts\<close>)
  next
    case (print t)
    then consider "a = C_Print" "l = Some (Shown 0 i)" "s' = \<lparr>cv_i = i, cv_ready = r, cv_mtx = m, cv_pcs = [C_Inc, b]\<rparr>"
      | "b = C_Print" "l = Some (Shown 1 i)" "s' = \<lparr>cv_i = i, cv_ready = r, cv_mtx = m, cv_pcs = [a, C_Inc]\<rparr>"
      using tt [of t] by (auto simp: s)
    then show ?thesis
    proof cases
      case 1 with inv show ?thesis by (cases b) (auto simp: s facts)
    next
      case 2 with inv show ?thesis by (cases a) (auto simp: s facts)
    qed
  next
    case (inc t)
    then consider "a = C_Inc" "s' = \<lparr>cv_i = Suc i, cv_ready = r, cv_mtx = m, cv_pcs = [C_Set, b]\<rparr>" "l = None"
      | "b = C_Inc" "s' = \<lparr>cv_i = Suc i, cv_ready = r, cv_mtx = m, cv_pcs = [a, C_Set]\<rparr>" "l = None"
      using tt [of t] by (auto simp: s)
    then show ?thesis
    proof cases
      case 1 with inv show ?thesis by (cases b) (auto simp: s facts)
    next
      case 2 with inv show ?thesis by (cases a) (auto simp: s facts)
    qed
  next
    case (set t)
    then have "t = 0 \<or> t = 1" using tt by blast
    then show ?thesis by (elim disjE) (use set inv in \<open>auto simp: s facts\<close>)
  next
    case (notify t ps)
    then have sg: "pthread_cond_signal cv_waits cv_wake [a, b] ps" by (simp add: s)
    from notify consider
      "a = C_Notify" "l = None" "s' = \<lparr>cv_i = i, cv_ready = r, cv_mtx = m, cv_pcs = ps[0 := C_Unlock]\<rparr>"
      | "b = C_Notify" "l = None" "s' = \<lparr>cv_i = i, cv_ready = r, cv_mtx = m, cv_pcs = ps[1 := C_Unlock]\<rparr>"
      using tt [of t] by (auto simp: s)
    then show ?thesis
    proof cases
      case 1
      then have "ps = [C_Notify, cv_wake b]" using signal_two [OF sg] by (auto simp: cv_wake_def)
      with 1 inv show ?thesis by (cases b) (auto simp: s facts cv_wake_def)
    next
      case 2
      then have "ps = [cv_wake a, C_Notify]" using signal_two [OF sg] by (auto simp: cv_wake_def)
      with 2 inv show ?thesis by (cases a) (auto simp: s facts cv_wake_def)
    qed
  next
    case (unlock t)
    then have "t = 0 \<or> t = 1" using tt by blast
    then show ?thesis by (elim disjE) (use unlock inv in \<open>auto simp: s facts\<close>)
  qed
qed

lemma cv_spurious_ok:
  assumes st: "cv_spurious s s'" and inv: "cv_inv n s"
  shows "cv_inv n s' \<and> cv_abs s' = cv_abs s"
proof -
  obtain i r m a b where s: "s = \<lparr>cv_i = i, cv_ready = r, cv_mtx = m, cv_pcs = [a, b]\<rparr>"
    using cv_two [OF inv] by blast
  from st consider "a = C_Wait" "s' = s\<lparr>cv_pcs := [C_Wake, b]\<rparr>" | "b = C_Wait" "s' = s\<lparr>cv_pcs := [a, C_Wake]\<rparr>"
    by (auto simp: cv_spurious_def s less_Suc_eq)
  then show ?thesis
  proof cases
    case 1 with inv show ?thesis
      by (cases b) (auto simp: s cv_inv_iff mutex_inv_two cv_holds_def cv_ok_def cv_abs_def)
  next
    case 2 with inv show ?thesis
      by (cases a) (auto simp: s cv_inv_iff mutex_inv_two cv_holds_def cv_ok_def cv_abs_def)
  qed
qed

lemma cv_step_ok:
  assumes "cv_step n s l s'" and "cv_inv n s"
  shows "cv_inv n s' \<and> (l = None \<longrightarrow> cv_abs s' = cv_abs s) \<and>
     (\<forall>e. l = Some e \<longrightarrow> alt_spec (cv_abs s) e = Some (cv_abs s'))"
  using assms cv_prog_ok cv_spurious_ok unfolding cv_step_def by blast

lemma cv_init_inv: "cv_init s \<Longrightarrow> cv_inv n s"
  by (auto simp: cv_init_def cv_inv_iff mutex_inv_two cv_holds_def cv_ok_def)

interpretation cvr: trace_refinement cv_init "cv_step n" "cv_inv n" cv_abs alt_spec
  for n :: nat
  by unfold_locales (auto dest: cv_step_ok intro: cv_init_inv)

text \<open>Someone can move without a spurious wake-up until both threads are done.\<close>

lemma cv_moves:
  assumes "t < length (cv_pcs s)" and "cv_holds (cv_pcs s ! t) \<Longrightarrow> cv_mtx s = Some t"
    and "cv_pcs s ! t \<in> {C_Lock, C_Wake} \<Longrightarrow> cv_mtx s = None"
    and "cv_pcs s ! t \<notin> {C_Wait, C_End}"
  shows "\<exists>l s'. cv_prog n s l s'"
proof (cases "cv_pcs s ! t")
  case C_For
  then show ?thesis using assms cv_prog.enter cv_prog.leave by blast
next
  case C_Test
  then have "lockGuard_dtor t (cv_mtx s) = Some None" using assms(2) by (simp add: cv_holds_def)
  then show ?thesis using C_Test assms(1) cv_prog.wait cv_prog.ready by blast
next
  case C_Notify
  then show ?thesis using assms(1) cv_prog.notify signal_total by metis
next
  case C_Unlock
  then have "lockGuard_dtor t (cv_mtx s) = Some None" using assms(2) by (simp add: cv_holds_def)
  then show ?thesis using C_Unlock assms(1) cv_prog.unlock by blast
next
  case C_Lock
  then have "lockGuard_ctor t (cv_mtx s) = Some (Some t)" using assms(3) by simp
  then show ?thesis using C_Lock assms(1) cv_prog.lock by blast
next
  case C_Wake
  then have "lockGuard_ctor t (cv_mtx s) = Some (Some t)" using assms(3) by simp
  then show ?thesis using C_Wake assms(1) cv_prog.relock by blast
qed (use assms cv_prog.print cv_prog.inc cv_prog.set in blast)+

lemma cv_progress:
  assumes inv: "cv_inv n s" and nd: "cv_pcs s \<noteq> [C_End, C_End]"
  shows "\<exists>l s'. cv_prog n s l s'"
proof -
  obtain i r m a b where s: "s = \<lparr>cv_i = i, cv_ready = r, cv_mtx = m, cv_pcs = [a, b]\<rparr>"
    using cv_two [OF inv] by blast
  have mi: "mutex_inv cv_holds m [a, b]" using inv unfolding s cv_inv_iff by (elim conjE)
  show ?thesis
  proof (cases m)
    case (Some t)
    then have "t < 2" "cv_holds ([a, b] ! t)" using mutex_inv_held mi by fastforce+
    then show ?thesis using Some by (intro cv_moves [of t]) (auto simp: s cv_holds_def)
  next
    case None
    then have free: "\<not> cv_holds a" "\<not> cv_holds b" using mi by (auto simp: mutex_inv_two)
    have "a \<notin> {C_Wait, C_End} \<or> b \<notin> {C_Wait, C_End}"
      using inv nd free by (cases a; cases b; simp add: s cv_inv_iff cv_ok_def cv_holds_def; auto)
    then show ?thesis
    proof
      assume "a \<notin> {C_Wait, C_End}"
      then show ?thesis using None free by (intro cv_moves [of 0]) (auto simp: s)
    next
      assume "b \<notin> {C_Wait, C_End}"
      then show ?thesis using None free by (intro cv_moves [of 1]) (auto simp: s)
    qed
  qed
qed

section \<open>What is printed\<close>

text \<open>The first \<open>k\<close> numbers, each by the thread whose turn it is.\<close>

definition turns :: "nat \<Rightarrow> alt_event list" where
  "turns k = map (\<lambda>i. Shown (turn i) i) [0..<k]"

lemma length_turns [simp]: "length (turns k) = k"
  by (simp add: turns_def)

lemma turns_0 [simp]: "turns 0 = []"
  by (simp add: turns_def)

lemma turns_Suc: "turns (Suc k) = turns k @ [Shown (turn k) k]"
  by (simp add: turns_def)

lemma turns_of_run: "abs_run alt_spec 0 es = Some k \<Longrightarrow> es = turns k"
  using alt_spec_run [of 0 es k] by (simp add: turns_def)

lemma cv_abs_bounds:
  assumes "cv_inv n s"
  shows "cv_abs s \<le> Suc n" and "C_End \<in> set (cv_pcs s) \<Longrightarrow> n \<le> cv_abs s"
proof -
  obtain i r m a b where s: "s = \<lparr>cv_i = i, cv_ready = r, cv_mtx = m, cv_pcs = [a, b]\<rparr>"
    using cv_two [OF assms] by blast
  have A: "cv_ok n i (odd i) (\<not> r) a" and B: "cv_ok n i (even i) r b" and I: "i \<le> Suc n"
    using assms unfolding s cv_inv_iff by blast+
  show "cv_abs s \<le> Suc n" using A B I by (cases "C_Inc \<in> {a, b}") (auto simp: s cv_abs_def cv_ok_def)
  show "C_End \<in> set (cv_pcs s) \<Longrightarrow> n \<le> cv_abs s"
    using A B by (cases "a = C_End") (auto simp: s cv_abs_def cv_ok_def)
qed

lemma y_abs_bounds:
  assumes "y_inv n s"
  shows "y_abs s \<le> Suc n" and "Y_End \<in> set (y_pcs s) \<Longrightarrow> n \<le> y_abs s"
  using assms by (auto simp: y_inv_def y_abs_def y_ok_def)

text \<open>
  C35. With the condition variable the two threads print 0, 1, 2, ... strictly in turn, the
  second thread the even and the first the odd numbers, nothing lost or doubled and nothing
  beyond \<open>n\<close>, under any schedule and with spurious wake-ups; until both have ended one of
  them can move without a spurious wake-up, and when they have, all numbers below \<open>n\<close> are out.
\<close>

theorem alternate_in_turn:
  assumes "cv_init s0" and "Lts.run (cv_step n) s0 es s"
  shows "es = turns (length es) \<and> length es \<le> Suc n \<and>
     (cv_pcs s \<noteq> [C_End, C_End] \<longrightarrow> (\<exists>l s'. cv_prog n s l s')) \<and>
     (cv_pcs s = [C_End, C_End] \<longrightarrow> n \<le> length es)"
proof -
  have inv: "cv_inv n s" by (rule cvr.inv_run [OF assms(2) cv_init_inv [OF assms(1)]])
  have "abs_run alt_spec (cv_abs s0) es = Some (cv_abs s)" by (rule cvr.trace_refines [OF assms])
  moreover have "cv_abs s0 = 0" using assms(1) by (simp add: cv_init_def cv_abs_def)
  ultimately have es: "es = turns (cv_abs s)" using turns_of_run by simp
  then show ?thesis using cv_abs_bounds [OF inv] cv_progress [OF inv] by auto
qed

text \<open>
  Yielding does the same with no lock at all, as long as \<open>i\<close> is read and written in one
  piece: the numbers come in order, each from the thread whose turn it is.
\<close>

theorem yield_in_turn:
  assumes "yield_init s0" and "Lts.run (yield_step n) s0 es s"
  shows "es = turns (length es) \<and> length es \<le> Suc n \<and> (y_pcs s = [Y_End, Y_End] \<longrightarrow> n \<le> length es)"
proof -
  have "y_inv n s0" using assms(1) by (auto simp: yield_init_def y_inv_def y_ok_def)
  then have inv: "y_inv n s" by (rule yieldr.inv_run [OF assms(2)])
  have "abs_run alt_spec (y_abs s0) es = Some (y_abs s)" by (rule yieldr.trace_refines [OF assms])
  moreover have "y_abs s0 = 0" using assms(1) by (simp add: yield_init_def y_abs_def)
  ultimately have es: "es = turns (y_abs s)" using turns_of_run by simp
  then show ?thesis using y_abs_bounds [OF inv] by auto
qed

theorem yield_in_turn_witness:
  "\<exists>s. Lts.run (yield_step 100) \<lparr>y_i = 0, y_pcs = [Y_For, Y_For]\<rparr> [Shown 1 0] s \<and>
     [Shown 1 0] = turns (length [Shown 1 0])"
proof -
  let ?s = "\<lambda>b. \<lparr>y_i = 0, y_pcs = [Y_For, b]\<rparr>"
  have st: "yield_step 100 (?s b) l (?s b')" if "yield_thread 100 1 0 b l 0 b'" for b l b'
    unfolding yield_step_def by (intro exI [of _ 1] exI [of _ 0] exI [of _ b'] conjI) (use that in simp_all)
  note tau = run_tau [where S = "yield_step 100"] and vis = run_vis [where S = "yield_step 100"]
    and nil = run_nil [where S = "yield_step 100"]
  have 1: "yield_step 100 (?s Y_For) None (?s Y_While)" by (intro st yield_thread.enter) simp
  have 2: "yield_step 100 (?s Y_While) None (?s Y_Print)" by (intro st yield_thread.go) simp
  have 3: "yield_step 100 (?s Y_Print) (Some (Shown 1 0)) (?s Y_Inc)" by (intro st yield_thread.print)
  have "Lts.run (yield_step 100) (?s Y_For) ([] @ [Shown 1 0]) (?s Y_Inc)"
    by (rule vis [OF tau [OF tau [OF nil 1] 2] 3])
  then have r: "Lts.run (yield_step 100) (?s Y_For) [Shown 1 0] (?s Y_Inc)" by simp
  moreover have "yield_init (?s Y_For)" by (simp add: yield_init_def)
  ultimately show ?thesis using yield_in_turn [of "?s Y_For" 100 "[Shown 1 0]" "?s Y_Inc"] by blast
qed

section \<open>One number too many\<close>

text \<open>One turn of thread \<open>t\<close>, the other thread not waiting.\<close>

lemma cv_round:
  assumes ps: "length ps = 2" "ps ! t = C_Lock" "\<forall>u < 2. ps ! u \<noteq> C_Wait" and t: "t = turn i"
  shows "Lts.run (cv_step n) \<lparr>cv_i = i, cv_ready = even i, cv_mtx = None, cv_pcs = ps\<rparr> [Shown t i]
    \<lparr>cv_i = Suc i, cv_ready = even (Suc i), cv_mtx = None, cv_pcs = ps[t := C_For]\<rparr>"
proof -
  have t2: "t < length ps" using ps(1) t turn_less by simp
  let ?S = "\<lambda>i r m p. \<lparr>cv_i = i, cv_ready = r, cv_mtx = m, cv_pcs = ps[t := p]\<rparr>"
  have pr: "cv_pred t (even i)" by (simp add: cv_pred_def t)
  note tau = run_tau [where S = "cv_step n"] and vis = run_vis [where S = "cv_step n"]
    and nil = run_nil [where S = "cv_step n"]
  note step = cv_step_def [THEN iffD2, OF disjI1]
  have "ps[t := C_Lock] = ps" using ps(2) by (metis list_update_id)
  moreover have 1: "cv_step n (?S i (even i) None C_Lock) None (?S i (even i) (Some t) C_Test)"
    using cv_prog.lock [of t "?S i (even i) None C_Lock" "Some t" n] t2 by (intro step) simp
  have 2: "cv_step n (?S i (even i) (Some t) C_Test) None (?S i (even i) (Some t) C_Print)"
    using cv_prog.ready [of t "?S i (even i) (Some t) C_Test" n] t2 pr by (intro step) simp
  have 3: "cv_step n (?S i (even i) (Some t) C_Print) (Some (Shown t i)) (?S i (even i) (Some t) C_Inc)"
    using cv_prog.print [of t "?S i (even i) (Some t) C_Print" n] t2 by (intro step) simp
  have 4: "cv_step n (?S i (even i) (Some t) C_Inc) None (?S (Suc i) (even i) (Some t) C_Set)"
    using cv_prog.inc [of t "?S i (even i) (Some t) C_Inc" n] t2 by (intro step) simp
  have 5: "cv_step n (?S (Suc i) (even i) (Some t) C_Set) None (?S (Suc i) (even (Suc i)) (Some t) C_Notify)"
    using cv_prog.set [of t "?S (Suc i) (even i) (Some t) C_Set" n] t2 t by (intro step) simp
  have "pthread_cond_signal cv_waits cv_wake (ps[t := C_Notify]) (ps[t := C_Notify])"
  proof (intro pthread_cond_signal.wake_none allI impI)
    fix u assume "u < length (ps[t := C_Notify])"
    then show "\<not> cv_waits (ps[t := C_Notify] ! u)"
      using ps t2 by (cases "u = t") (auto simp: cv_waits_def)
  qed
  then have 6: "cv_step n (?S (Suc i) (even (Suc i)) (Some t) C_Notify) None (?S (Suc i) (even (Suc i)) (Some t) C_Unlock)"
    using cv_prog.notify [of t "?S (Suc i) (even (Suc i)) (Some t) C_Notify" "ps[t := C_Notify]" n] t2
    by (intro step) simp
  have 7: "cv_step n (?S (Suc i) (even (Suc i)) (Some t) C_Unlock) None (?S (Suc i) (even (Suc i)) None C_For)"
    using cv_prog.unlock [of t "?S (Suc i) (even (Suc i)) (Some t) C_Unlock" None n] t2 by (intro step) simp
  have "Lts.run (cv_step n) (?S i (even i) None C_Lock) ([] @ [Shown t i]) (?S (Suc i) (even (Suc i)) None C_For)"
    by (rule tau [OF tau [OF tau [OF tau [OF vis [OF tau [OF tau [OF nil 1] 2] 3] 4] 5] 6] 7])
  ultimately show ?thesis by simp
qed

lemma cv_rounds:
  assumes "k < n"
  shows "\<exists>s0. cv_init s0 \<and> Lts.run (cv_step n) s0 (turns k)
    \<lparr>cv_i = k, cv_ready = even k, cv_mtx = None, cv_pcs = [C_Lock, C_Lock]\<rparr>"
  using assms
proof (induction k)
  case 0
  note tau = run_tau [where S = "cv_step n"] and nil = run_nil [where S = "cv_step n"]
  let ?s = "\<lambda>a b. \<lparr>cv_i = 0, cv_ready = True, cv_mtx = None, cv_pcs = [a, b]\<rparr>"
  have 1: "cv_step n (?s C_For C_For) None (?s C_Lock C_For)"
    using cv_prog.enter [of 0 "?s C_For C_For" n] 0 by (simp add: cv_step_def)
  have 2: "cv_step n (?s C_Lock C_For) None (?s C_Lock C_Lock)"
    using cv_prog.enter [of 1 "?s C_Lock C_For" n] 0 by (simp add: cv_step_def)
  have "Lts.run (cv_step n) (?s C_For C_For) [] (?s C_Lock C_Lock)"
    by (rule tau [OF tau [OF nil 1] 2])
  then show ?case by (auto simp: cv_init_def)
next
  case (Suc k)
  then obtain s0 where i: "cv_init s0" and r: "Lts.run (cv_step n) s0 (turns k)
      \<lparr>cv_i = k, cv_ready = even k, cv_mtx = None, cv_pcs = [C_Lock, C_Lock]\<rparr>" by auto
  let ?t = "turn k"
  let ?u = "\<lparr>cv_i = Suc k, cv_ready = even (Suc k), cv_mtx = None, cv_pcs = [C_Lock, C_Lock][?t := C_For]\<rparr>"
  have t: "?t = 0 \<or> ?t = 1" using turn_less [of k] by auto
  have rd: "Lts.run (cv_step n) \<lparr>cv_i = k, cv_ready = even k, cv_mtx = None, cv_pcs = [C_Lock, C_Lock]\<rparr>
      [Shown ?t k] ?u"
    by (rule cv_round) (use t in \<open>auto simp: all_less_two simp del: turn_iff\<close>)
  have e: "cv_step n ?u None \<lparr>cv_i = Suc k, cv_ready = even (Suc k), cv_mtx = None, cv_pcs = [C_Lock, C_Lock]\<rparr>"
    by (rule disjE [OF t]) (use cv_prog.enter [of ?t ?u n] Suc.prems in \<open>simp_all add: cv_step_def del: turn_iff\<close>)
  from run_tau [OF run_trans [OF rd r] e] i show ?case by (auto simp: turns_Suc)
qed

theorem alternate_in_turn_witness:
  "\<exists>s0 s. cv_init s0 \<and> Lts.run (cv_step 100) s0 (turns 2) s \<and> (\<exists>l s'. cv_prog 100 s l s')"
proof -
  obtain s0 where i: "cv_init s0" and r: "Lts.run (cv_step 100) s0 (turns 2)
      \<lparr>cv_i = 2, cv_ready = even (2 :: nat), cv_mtx = None, cv_pcs = [C_Lock, C_Lock]\<rparr>"
    using cv_rounds [of 2 100] by auto
  from alternate_in_turn [OF this] i r show ?thesis by fastforce
qed

text \<open>
  The guard \<open>i < n\<close> is not tested again under the lock: the thread that waits for its
  turn when \<open>n - 1\<close> is printed goes on to print \<open>n\<close>. With the file's bound of 100 the
  number 100 can be printed.
\<close>

theorem alternate_overshoots:
  "\<exists>s0 s. cv_init s0 \<and> Lts.run (cv_step 100) s0 (turns 101) s \<and> last (turns 101) = Shown 1 100"
proof -
  obtain s0 where i: "cv_init s0" and r: "Lts.run (cv_step 100) s0 (turns 99)
      \<lparr>cv_i = 99, cv_ready = False, cv_mtx = None, cv_pcs = [C_Lock, C_Lock]\<rparr>"
    using cv_rounds [of 99 100] by auto
  have 1: "Lts.run (cv_step 100) \<lparr>cv_i = 99, cv_ready = False, cv_mtx = None, cv_pcs = [C_Lock, C_Lock]\<rparr>
      [Shown 0 99] \<lparr>cv_i = 100, cv_ready = True, cv_mtx = None, cv_pcs = [C_For, C_Lock]\<rparr>"
    using cv_round [of "[C_Lock, C_Lock]" 0 99 100] by (simp add: all_less_two)
  have 2: "Lts.run (cv_step 100) \<lparr>cv_i = 100, cv_ready = True, cv_mtx = None, cv_pcs = [C_For, C_Lock]\<rparr>
      [Shown 1 100] \<lparr>cv_i = 101, cv_ready = False, cv_mtx = None, cv_pcs = [C_For, C_For]\<rparr>"
    using cv_round [of "[C_For, C_Lock]" 1 100 100] by (simp add: all_less_two)
  have t: "turns 101 = (turns 99 @ [Shown 0 99]) @ [Shown 1 100]"
    using turns_Suc [of 100] turns_Suc [of 99] by (simp add: turn_def)
  have "Lts.run (cv_step 100) s0 ((turns 99 @ [Shown 0 99]) @ [Shown 1 100])
      \<lparr>cv_i = 101, cv_ready = False, cv_mtx = None, cv_pcs = [C_For, C_For]\<rparr>"
    by (rule run_trans [OF 2 run_trans [OF 1 r]])
  then show ?thesis using i unfolding t by auto
qed

end
