(* ===== verification/Counters.thy ===== *)
theory Counters
  imports Pthread
begin

text \<open>
  The counting programs of \<open>xjh_multi_thread/test1.cc\<close> (one is compiled at a time): some
  threads run a loop whose body locks a mutex, prints, sleeps, increments \<open>x\<close> and unlocks,
  in various orders, and \<open>main\<close> joins them and prints \<open>x\<close>. A program is its loop body as a
  list of statements with the numbers of threads and rounds; the step relation interprets
  it. \<open>++x\<close> on an \<open>int\<close> is a load and a store, on a \<open>std::atomic<int>\<close> one step that wraps.
  The locking discipline of the bodies is a typing of statement lists, in the manner of a
  flow-sensitive type system, and its soundness carries the properties.
\<close>

section \<open>Programs\<close>

datatype stmt = Lock | Unlock | Cout_i | Cout_x | Sleep | Load | Store | Fetch_add

record counter_prog =
  cp_threads :: nat
  cp_rounds :: nat
  cp_body :: "stmt list"
  cp_atomic :: bool
  cp_total :: bool

definition print_counter :: counter_prog where
  "print_counter =
     \<lparr>cp_threads = 2, cp_rounds = 10, cp_body = [Lock, Cout_i, Sleep, Unlock],
      cp_atomic = False, cp_total = False\<rparr>"

definition lambda_counter :: counter_prog where
  "lambda_counter =
     \<lparr>cp_threads = 2, cp_rounds = 10, cp_body = [Lock, Cout_i, Sleep, Load, Store, Unlock],
      cp_atomic = False, cp_total = False\<rparr>"

text \<open>In the others the number of threads is read from \<open>std::cin\<close>.\<close>

definition mutex_counter :: "nat \<Rightarrow> counter_prog" where
  "mutex_counter m =
     \<lparr>cp_threads = m, cp_rounds = 10, cp_body = [Lock, Load, Store, Cout_x, Unlock],
      cp_atomic = False, cp_total = True\<rparr>"

definition atomic_counter :: "nat \<Rightarrow> counter_prog" where
  "atomic_counter m =
     \<lparr>cp_threads = m, cp_rounds = 10000, cp_body = [Fetch_add], cp_atomic = True, cp_total = True\<rparr>"

definition try_counter :: "nat \<Rightarrow> counter_prog" where
  "try_counter m =
     \<lparr>cp_threads = m, cp_rounds = 10, cp_body = [Lock, Cout_x, Sleep, Unlock],
      cp_atomic = False, cp_total = True\<rparr>"

definition guard_counter :: "nat \<Rightarrow> counter_prog" where
  "guard_counter m =
     \<lparr>cp_threads = m, cp_rounds = 10, cp_body = [Lock, Cout_x, Unlock, Sleep],
      cp_atomic = False, cp_total = True\<rparr>"

section \<open>Running a program\<close>

text \<open>A thread is at the head of its loop in round \<open>i\<close>, inside the body with a rest and a register, or ended.\<close>

datatype cthread = Head nat | Body nat "stmt list" int | Ended

datatype cevent = Line tid int | Total int

record counter_sys =
  ct_x :: int
  ct_mtx :: mutex
  ct_ths :: "cthread list"
  ct_joined :: nat
  ct_done :: bool

definition counter_init :: "counter_prog \<Rightarrow> counter_sys \<Rightarrow> bool" where
  "counter_init p s \<longleftrightarrow>
     s = \<lparr>ct_x = 0, ct_mtx = None, ct_ths = replicate (cp_threads p) (Head 0), ct_joined = 0,
          ct_done = False\<rparr>"

definition wrap32 :: "int \<Rightarrow> int" where
  "wrap32 z = (z + 2147483648) mod 4294967296 - 2147483648"

text \<open>
  A statement of thread \<open>t\<close> in round \<open>i\<close> on \<open>x\<close>, the mutex and the register. \<open>None\<close> is a
  call that blocks or behaviour the language leaves undefined: unlocking a mutex one does not
  own, and the overflow of an \<open>int\<close>.
\<close>

fun counter_stmt ::
  "tid \<Rightarrow> nat \<Rightarrow> stmt \<Rightarrow> int \<Rightarrow> mutex \<Rightarrow> int \<Rightarrow> (cevent option \<times> int \<times> mutex \<times> int) option" where
  "counter_stmt t i Lock x m r = map_option (\<lambda>m'. (None, x, m', r)) (pthread_mutex_lock t m)"
| "counter_stmt t i Unlock x m r = map_option (\<lambda>m'. (None, x, m', r)) (pthread_mutex_unlock t m)"
| "counter_stmt t i Cout_i x m r = Some (Some (Line t (int i)), x, m, r)"
| "counter_stmt t i Cout_x x m r = Some (Some (Line t x), x, m, r)"
| "counter_stmt t i Sleep x m r = Some (None, x, m, r)"
| "counter_stmt t i Load x m r = Some (None, x, m, x)"
| "counter_stmt t i Store x m r = (if r < 2147483647 then Some (None, r + 1, m, r) else None)"
| "counter_stmt t i Fetch_add x m r = Some (None, wrap32 (x + 1), m, r)"

inductive counter_step :: "counter_prog \<Rightarrow> counter_sys \<Rightarrow> cevent option \<Rightarrow> counter_sys \<Rightarrow> bool"
  for p :: counter_prog where
  enter: "t < length (ct_ths s) \<Longrightarrow> ct_ths s ! t = Head i \<Longrightarrow> i < cp_rounds p \<Longrightarrow>
    counter_step p s None (s\<lparr>ct_ths := (ct_ths s)[t := Body i (cp_body p) 0]\<rparr>)"
| leave: "t < length (ct_ths s) \<Longrightarrow> ct_ths s ! t = Head i \<Longrightarrow> \<not> i < cp_rounds p \<Longrightarrow>
    counter_step p s None (s\<lparr>ct_ths := (ct_ths s)[t := Ended]\<rparr>)"
| again: "t < length (ct_ths s) \<Longrightarrow> ct_ths s ! t = Body i [] r \<Longrightarrow>
    counter_step p s None (s\<lparr>ct_ths := (ct_ths s)[t := Head (Suc i)]\<rparr>)"
| exec: "t < length (ct_ths s) \<Longrightarrow> ct_ths s ! t = Body i (c # cs) r \<Longrightarrow>
    counter_stmt t i c (ct_x s) (ct_mtx s) r = Some (l, x', m', r') \<Longrightarrow>
    counter_step p s l (s\<lparr>ct_x := x', ct_mtx := m', ct_ths := (ct_ths s)[t := Body i cs r']\<rparr>)"
| join: "ct_joined s < length (ct_ths s) \<Longrightarrow> ct_ths s ! ct_joined s = Ended \<Longrightarrow>
    counter_step p s None (s\<lparr>ct_joined := Suc (ct_joined s)\<rparr>)"
| total: "ct_joined s = length (ct_ths s) \<Longrightarrow> \<not> ct_done s \<Longrightarrow>
    counter_step p s (if cp_total p then Some (Total (ct_x s)) else None) (s\<lparr>ct_done := True\<rparr>)"

section \<open>The locking discipline\<close>

text \<open>
  \<open>lock_ty a h l b\<close>: the rest \<open>b\<close> of a body is well locked when the thread holds the mutex
  iff \<open>h\<close> and has loaded \<open>x\<close> without storing yet iff \<open>l\<close>; \<open>a\<close> says that \<open>x\<close> is atomic. A body
  starts and ends with the mutex free.
\<close>

fun may :: "bool \<Rightarrow> bool \<Rightarrow> bool \<Rightarrow> stmt \<Rightarrow> bool" where
  "may a h l Lock = (\<not> h \<and> \<not> l)"
| "may a h l Unlock = (h \<and> \<not> l)"
| "may a h l Cout_i = h"
| "may a h l Cout_x = h"
| "may a h l Sleep = True"
| "may a h l Load = (h \<and> \<not> l \<and> \<not> a)"
| "may a h l Store = (h \<and> l \<and> \<not> a)"
| "may a h l Fetch_add = a"

definition after_h :: "stmt \<Rightarrow> bool \<Rightarrow> bool" where
  "after_h c h \<longleftrightarrow> c = Lock \<or> (h \<and> c \<noteq> Unlock)"

definition after_l :: "stmt \<Rightarrow> bool \<Rightarrow> bool" where
  "after_l c l \<longleftrightarrow> c = Load \<or> (l \<and> c \<noteq> Store)"

fun lock_ty :: "bool \<Rightarrow> bool \<Rightarrow> bool \<Rightarrow> stmt list \<Rightarrow> bool" where
  "lock_ty a h l [] = (\<not> h \<and> \<not> l)"
| "lock_ty a h l (c # b) = (may a h l c \<and> lock_ty a (after_h c h) (after_l c l) b)"

definition well_locked :: "counter_prog \<Rightarrow> bool" where
  "well_locked p \<longleftrightarrow> lock_ty (cp_atomic p) False False (cp_body p)"

text \<open>Whether the rest of a body runs with the mutex held, or between load and store, can be read off it.\<close>

fun held :: "stmt list \<Rightarrow> bool" where
  "held [] = False"
| "held (Lock # b) = False"
| "held (Unlock # b) = True"
| "held (c # b) = held b"

fun loaded :: "stmt list \<Rightarrow> bool" where
  "loaded [] = False"
| "loaded (Load # b) = False"
| "loaded (Store # b) = True"
| "loaded (c # b) = loaded b"

lemma lock_ty_held: "lock_ty a h l b \<Longrightarrow> held b = h \<and> loaded b = l \<and> (l \<longrightarrow> h \<and> \<not> a)"
proof (induction b arbitrary: h l)
  case Nil
  then show ?case by simp
next
  case (Cons c b)
  from Cons.prems Cons.IH [of "after_h c h" "after_l c l"] show ?case
    by (cases c) (auto simp: after_h_def after_l_def)
qed

definition ty_rest :: "counter_prog \<Rightarrow> stmt list \<Rightarrow> bool" where
  "ty_rest p b \<longleftrightarrow> lock_ty (cp_atomic p) (held b) (loaded b) b"

lemma ty_rest_loaded: "ty_rest p b \<Longrightarrow> loaded b \<Longrightarrow> held b \<and> \<not> cp_atomic p"
  unfolding ty_rest_def using lock_ty_held by blast

lemma ty_rest_Cons:
  assumes "ty_rest p (c # b)"
  shows "ty_rest p b" and "held b = after_h c (held (c # b))" and "loaded b = after_l c (loaded (c # b))"
    and "may (cp_atomic p) (held (c # b)) (loaded (c # b)) c"
proof -
  let ?h = "after_h c (held (c # b))" and ?l = "after_l c (loaded (c # b))"
  have ty: "lock_ty (cp_atomic p) ?h ?l b" and m: "may (cp_atomic p) (held (c # b)) (loaded (c # b)) c"
    using assms unfolding ty_rest_def by (simp_all only: lock_ty.simps)
  from lock_ty_held [OF ty] have e: "held b = ?h" "loaded b = ?l" by (simp_all only: simp_thms)
  from ty show "ty_rest p b" unfolding ty_rest_def e .
  show "held b = ?h" "loaded b = ?l" "may (cp_atomic p) (held (c # b)) (loaded (c # b)) c"
    using e m by (simp_all only:)
qed

lemma ty_body:
  assumes "well_locked p"
  shows "ty_rest p (cp_body p)" and "\<not> held (cp_body p)" and "\<not> loaded (cp_body p)"
  using assms lock_ty_held [of "cp_atomic p" False False "cp_body p"]
  by (simp_all add: well_locked_def ty_rest_def)

section \<open>The invariant\<close>

lemma wrap32_id: "- 2147483648 \<le> z \<Longrightarrow> z < 2147483648 \<Longrightarrow> wrap32 z = z"
  by (simp add: wrap32_def)

lemma wrap32_range: "- 2147483648 \<le> wrap32 z" "wrap32 z < 2147483648"
  by (simp_all add: wrap32_def)

lemma wrap32_Suc: "wrap32 (wrap32 z + 1) = wrap32 (z + 1)"
  by (simp add: wrap32_def mod_simps algebra_simps)

lemma wrap32_inc: "wrap32 z < 2147483647 \<Longrightarrow> wrap32 z + 1 = wrap32 (z + 1)"
  using wrap32_range [of z] wrap32_Suc [of z] wrap32_id [of "wrap32 z + 1"] by linarith

definition incs :: "stmt list \<Rightarrow> nat" where
  "incs b = length (filter (\<lambda>c. c \<in> {Store, Fetch_add}) b)"

lemma incs_tl: "incs cs \<le> incs (c # cs)"
  by (simp add: incs_def)

fun th_held :: "cthread \<Rightarrow> bool" where
  "th_held (Body i b r) = held b"
| "th_held _ = False"

fun th_ok :: "counter_prog \<Rightarrow> int \<Rightarrow> cthread \<Rightarrow> bool" where
  "th_ok p x (Body i b r) \<longleftrightarrow>
     i < cp_rounds p \<and> ty_rest p b \<and> (loaded b \<longrightarrow> r = x) \<and> incs b \<le> incs (cp_body p)"
| "th_ok p x (Head i) \<longleftrightarrow> True"
| "th_ok p x Ended \<longleftrightarrow> True"

text \<open>The increments a thread has still to make.\<close>

fun th_todo :: "counter_prog \<Rightarrow> cthread \<Rightarrow> nat" where
  "th_todo p (Head i) = (cp_rounds p - i) * incs (cp_body p)"
| "th_todo p (Body i b r) = (cp_rounds p - Suc i) * incs (cp_body p) + incs b"
| "th_todo p Ended = 0"

definition todo :: "counter_prog \<Rightarrow> counter_sys \<Rightarrow> nat" where
  "todo p s = sum_list (map (th_todo p) (ct_ths s))"

definition all_incs :: "counter_prog \<Rightarrow> nat" where
  "all_incs p = cp_threads p * (cp_rounds p * incs (cp_body p))"

definition counter_inv :: "counter_prog \<Rightarrow> counter_sys \<Rightarrow> bool" where
  "counter_inv p s \<longleftrightarrow> length (ct_ths s) = cp_threads p \<and> ct_joined s \<le> cp_threads p \<and>
     (\<forall>j < ct_joined s. ct_ths s ! j = Ended) \<and> (ct_done s \<longrightarrow> ct_joined s = cp_threads p) \<and>
     mutex_inv th_held (ct_mtx s) (ct_ths s) \<and>
     (\<forall>t < length (ct_ths s). th_ok p (ct_x s) (ct_ths s ! t)) \<and>
     ct_x s = wrap32 (int (all_incs p) - int (todo p s))"

lemma counter_init_inv: "counter_init p s \<Longrightarrow> counter_inv p s"
  by (auto simp: counter_init_def counter_inv_def mutex_inv_def todo_def all_incs_def
      sum_list_replicate map_replicate wrap32_def)

lemma todo_update:
  "t < length ths \<Longrightarrow> sum_list (map (th_todo p) (ths[t := th])) + th_todo p (ths ! t) =
     sum_list (map (th_todo p) ths) + th_todo p th"
  by (rule sum_list_nth_update)

lemma inv_ok: "counter_inv p s \<Longrightarrow> t < length (ct_ths s) \<Longrightarrow> ct_ths s ! t = th \<Longrightarrow> th_ok p (ct_x s) th"
  by (auto simp: counter_inv_def)

lemma inv_mutex: "counter_inv p s \<Longrightarrow> mutex_inv th_held (ct_mtx s) (ct_ths s)"
  by (simp add: counter_inv_def)

text \<open>What a step of thread \<open>t\<close> has to show.\<close>

lemma inv_update:
  assumes inv: "counter_inv p s" and t: "t < length (ct_ths s)" and ne: "ct_ths s ! t \<noteq> Ended"
    and m: "mutex_inv th_held m' ((ct_ths s)[t := th])" and ok: "th_ok p x' th"
    and others: "\<And>u. u < length (ct_ths s) \<Longrightarrow> u \<noteq> t \<Longrightarrow> th_ok p x' (ct_ths s ! u)"
    and x: "x' = wrap32 (int (all_incs p) - (int (todo p s) + int (th_todo p th) - int (th_todo p (ct_ths s ! t))))"
  shows "counter_inv p (s\<lparr>ct_x := x', ct_mtx := m', ct_ths := (ct_ths s)[t := th]\<rparr>)"
proof -
  have "int (todo p s) + int (th_todo p th) - int (th_todo p (ct_ths s ! t)) =
      int (sum_list (map (th_todo p) ((ct_ths s)[t := th])))"
    using todo_update [OF t, of p th] unfolding todo_def by linarith
  with x have "x' = wrap32 (int (all_incs p) - int (sum_list (map (th_todo p) ((ct_ths s)[t := th]))))"
    by (simp only:)
  moreover have "\<forall>j < ct_joined s. (ct_ths s)[t := th] ! j = Ended"
    using inv ne by (metis counter_inv_def nth_list_update_neq)
  moreover have "\<forall>u < length (ct_ths s). th_ok p x' ((ct_ths s)[t := th] ! u)"
    using ok others t by (simp add: nth_list_update)
  ultimately show ?thesis
    using inv m by (simp add: counter_inv_def todo_def)
qed

lemma inv_keep:
  assumes inv: "counter_inv p s" and t: "t < length (ct_ths s)" and ne: "ct_ths s ! t \<noteq> Ended"
    and m: "mutex_inv th_held m' ((ct_ths s)[t := th])" and ok: "th_ok p (ct_x s) th"
    and td: "th_todo p th = th_todo p (ct_ths s ! t)"
  shows "counter_inv p (s\<lparr>ct_mtx := m', ct_ths := (ct_ths s)[t := th]\<rparr>)"
proof -
  have x: "ct_x s = wrap32 (int (all_incs p) - (int (todo p s) + int (th_todo p th) - int (th_todo p (ct_ths s ! t))))"
    using inv td by (simp add: counter_inv_def)
  from inv_update [OF inv t ne m ok inv_ok [OF inv _ refl] x] show ?thesis by simp
qed

lemma inv_move:
  assumes inv: "counter_inv p s" and t: "t < length (ct_ths s)" and ne: "ct_ths s ! t \<noteq> Ended"
    and h: "th_held th = th_held (ct_ths s ! t)" and ok: "th_ok p (ct_x s) th"
    and td: "th_todo p th = th_todo p (ct_ths s ! t)"
  shows "counter_inv p (s\<lparr>ct_ths := (ct_ths s)[t := th]\<rparr>)"
  using inv_keep [OF inv t ne mutex_inv_stay [OF inv_mutex [OF inv] t h [symmetric]] ok td] by simp

text \<open>Nobody else is between load and store when a well-locked thread changes \<open>x\<close>.\<close>

lemma others_not_loaded:
  assumes inv: "counter_inv p s" and t: "t < length (ct_ths s)" "ct_ths s ! t = Body i (c # cs) r"
    and c: "c = Store \<or> c = Fetch_add" and u: "u < length (ct_ths s)" "u \<noteq> t" "ct_ths s ! u = Body j b q"
  shows "\<not> loaded b"
proof
  assume l: "loaded b"
  have ty: "ty_rest p (c # cs)" "ty_rest p b"
    using inv_ok [OF inv t] inv_ok [OF inv u(1,3)] by simp_all
  from ty_rest_loaded [OF ty(2) l] have h: "held b" "\<not> cp_atomic p" by simp_all
  with ty_rest_Cons(4) [OF ty(1)] c have "held (c # cs)" by auto
  then show False
    using mutex_inv_unique [OF inv_mutex [OF inv] t(1) u(1)] t u h by simp
qed

lemma inv_change:
  assumes inv: "counter_inv p s" and t: "t < length (ct_ths s)" "ct_ths s ! t = Body i (c # cs) r"
    and c: "c = Store \<or> c = Fetch_add" and x: "x' = wrap32 (ct_x s + 1)"
  shows "counter_inv p (s\<lparr>ct_x := x', ct_ths := (ct_ths s)[t := Body i cs r']\<rparr>)"
proof -
  have ok: "i < cp_rounds p" "ty_rest p (c # cs)" "incs cs \<le> incs (cp_body p)"
    using inv_ok [OF inv t] incs_tl [of cs c] by simp_all
  note ty = ty_rest_Cons [OF ok(2)]
  have l: "\<not> loaded cs"
    using ty(3) ty_rest_loaded [OF ok(2)] ty(4) c by (auto simp: after_l_def)
  have others: "th_ok p x' (ct_ths s ! u)" if "u < length (ct_ths s)" "u \<noteq> t" for u
    using others_not_loaded [OF inv t c that] inv_ok [OF inv that(1) refl]
    by (cases "ct_ths s ! u") auto
  have h: "held (c # cs) = held cs" using ty(2) c by (auto simp: after_h_def)
  have m: "mutex_inv th_held (ct_mtx s) ((ct_ths s)[t := Body i cs r'])"
    by (rule mutex_inv_stay [OF inv_mutex [OF inv] t(1)]) (simp add: t(2) h)
  have "x' = wrap32 (int (all_incs p) - int (todo p s) + 1)"
    using x inv wrap32_Suc by (simp add: counter_inv_def)
  moreover have "th_todo p (ct_ths s ! t) = Suc (th_todo p (Body i cs r'))"
    using t(2) c by (auto simp: incs_def)
  ultimately have "x' = wrap32 (int (all_incs p) -
      (int (todo p s) + int (th_todo p (Body i cs r')) - int (th_todo p (ct_ths s ! t))))"
    by (simp add: algebra_simps)
  from inv_update [OF inv t(1) _ m _ others this] t(2) ok ty(1) l show ?thesis by simp
qed

lemma inv_exec:
  assumes inv: "counter_inv p s" and t: "t < length (ct_ths s)" "ct_ths s ! t = Body i (c # cs) r"
    and st: "counter_stmt t i c (ct_x s) (ct_mtx s) r = Some (l, x', m', r')"
  shows "counter_inv p (s\<lparr>ct_x := x', ct_mtx := m', ct_ths := (ct_ths s)[t := Body i cs r']\<rparr>)"
proof -
  have ok: "i < cp_rounds p" "ty_rest p (c # cs)" "loaded (c # cs) \<longrightarrow> r = ct_x s"
    "incs cs \<le> incs (cp_body p)"
    using inv_ok [OF inv t] incs_tl [of cs c] by simp_all
  obtain hd_h hd_l where ty: "ty_rest p cs" "held cs = after_h c hd_h" "loaded cs = after_l c hd_l"
    "may (cp_atomic p) hd_h hd_l c" "hd_l \<longrightarrow> r = ct_x s" "hd_l = loaded (c # cs)"
    using ty_rest_Cons [OF ok(2)] ok(3) by metis
  note mi = inv_mutex [OF inv]
  have ne: "ct_ths s ! t \<noteq> Ended" using t by simp
  consider "c = Store \<or> c = Fetch_add" | "c = Lock" | "c = Unlock" | "c \<in> {Cout_i, Cout_x, Sleep, Load}"
    by (cases c) auto
  then show ?thesis
  proof cases
    case 1
    have "wrap32 (ct_x s) = ct_x s" using inv wrap32_id wrap32_range by (simp add: counter_inv_def)
    then have "x' = wrap32 (ct_x s + 1)" "m' = ct_mtx s"
      using 1 ty(5) st ty(4) wrap32_inc [of "ct_x s"] by (auto split: if_splits)
    with inv_change [OF inv t 1, of x' r'] show ?thesis by simp
  next
    case 2
    then have e: "x' = ct_x s" "ct_mtx s = None" "m' = Some t" "r' = r" using st by auto
    have "counter_inv p (s\<lparr>ct_mtx := Some t, ct_ths := (ct_ths s)[t := Body i cs r']\<rparr>)"
    proof (rule inv_keep [OF inv t(1) ne])
      show "mutex_inv th_held (Some t) ((ct_ths s)[t := Body i cs r'])"
        using mi t(1) ty(2) 2 e by (intro mutex_inv_acquire) (simp_all add: after_h_def)
    qed (use ok(1,4) ty(1,3,4) t 2 e in \<open>auto simp: after_l_def incs_def\<close>)
    with e show ?thesis by simp
  next
    case 3
    then have e: "x' = ct_x s" "ct_mtx s = Some t" "m' = None" "r' = r" using st by auto
    have "counter_inv p (s\<lparr>ct_mtx := None, ct_ths := (ct_ths s)[t := Body i cs r']\<rparr>)"
    proof (rule inv_keep [OF inv t(1) ne])
      show "mutex_inv th_held None ((ct_ths s)[t := Body i cs r'])"
        using mi ty(2) 3 e by (intro mutex_inv_release) (simp_all add: after_h_def)
    qed (use ok(1,4) ty(1,3,4) t 3 e in \<open>auto simp: after_l_def incs_def\<close>)
    with e show ?thesis by simp
  next
    case 4
    then have "counter_inv p (s\<lparr>ct_ths := (ct_ths s)[t := Body i cs r']\<rparr>)"
      using ok(1,4) ty(1-5) st t by (intro inv_move [OF inv t(1) ne]) (auto simp: after_h_def after_l_def incs_def)
    moreover have "x' = ct_x s" "m' = ct_mtx s" using 4 st by auto
    ultimately show ?thesis by simp
  qed
qed

lemma counter_step_inv:
  assumes wl: "well_locked p" and st: "counter_step p s l s'" and inv: "counter_inv p s"
  shows "counter_inv p s'"
  using st
proof cases
  case (enter t i)
  then have "cp_rounds p - i = Suc (cp_rounds p - Suc i)" by simp
  with enter ty_body [OF wl] show ?thesis by (auto intro: inv_move [OF inv])
next
  case (leave t i)
  then show ?thesis by (auto intro: inv_move [OF inv])
next
  case (again t i r)
  have "ty_rest p []" using inv_ok [OF inv again(3,4)] by simp
  with again show ?thesis by (auto simp: incs_def intro!: inv_move [OF inv])
next
  case (exec t i c cs r x' m' r')
  then show ?thesis using inv_exec [OF inv] by simp
next
  case join
  then show ?thesis using inv by (auto simp: counter_inv_def todo_def less_Suc_eq)
next
  case total
  then show ?thesis using inv by (auto simp: counter_inv_def todo_def)
qed

section \<open>Every run ends\<close>

fun th_weight :: "counter_prog \<Rightarrow> cthread \<Rightarrow> nat" where
  "th_weight p (Head i) = (cp_rounds p - i) * (length (cp_body p) + 3) + 1"
| "th_weight p (Body i b r) = (cp_rounds p - Suc i) * (length (cp_body p) + 3) + length b + 2"
| "th_weight p Ended = 0"

definition counter_measure :: "counter_prog \<Rightarrow> counter_sys \<Rightarrow> nat" where
  "counter_measure p s = sum_list (map (th_weight p) (ct_ths s)) + (length (ct_ths s) - ct_joined s) +
     (if ct_done s then 0 else 1)"

lemma counter_decreases: "counter_step p s l s' \<Longrightarrow> counter_measure p s' < counter_measure p s"
proof (induction rule: counter_step.induct)
  case (enter t s i)
  then have "cp_rounds p - i = Suc (cp_rounds p - Suc i)" by simp
  with enter sum_list_nth_update [of t "ct_ths s" "th_weight p" "Body i (cp_body p) 0"]
  show ?case by (simp add: counter_measure_def)
next
  case (leave t s i)
  with sum_list_nth_update [of t "ct_ths s" "th_weight p" Ended] show ?case by (simp add: counter_measure_def)
next
  case (again t s i r)
  with sum_list_nth_update [of t "ct_ths s" "th_weight p" "Head (Suc i)"] show ?case
    by (simp add: counter_measure_def)
next
  case (exec t s i c cs r l x' m' r')
  with sum_list_nth_update [of t "ct_ths s" "th_weight p" "Body i cs r'"] show ?case
    by (simp add: counter_measure_def)
qed (simp_all add: counter_measure_def)

section \<open>Somebody can go on\<close>

definition fits :: "counter_prog \<Rightarrow> bool" where
  "fits p \<longleftrightarrow> cp_atomic p \<or> all_incs p < 2147483648"

lemma todo_member: "t < length (ct_ths s) \<Longrightarrow> th_todo p (ct_ths s ! t) \<le> todo p s"
  unfolding todo_def by (rule member_le_sum_list) auto

lemma todo_le:
  assumes "counter_inv p s"
  shows "todo p s \<le> all_incs p"
proof -
  have "th_todo p th \<le> cp_rounds p * incs (cp_body p)" if "th \<in> set (ct_ths s)" for th
  proof (cases th)
    case (Body i b r)
    then have ok: "i < cp_rounds p" "incs b \<le> incs (cp_body p)"
      using that inv_ok [OF assms] unfolding in_set_conv_nth by fastforce+
    then have "Suc (cp_rounds p - Suc i) * incs (cp_body p) \<le> cp_rounds p * incs (cp_body p)"
      by (intro mult_le_mono1) simp
    with ok Body show ?thesis by simp
  qed simp_all
  then have "todo p s \<le> length (ct_ths s) * (cp_rounds p * incs (cp_body p))"
    unfolding todo_def using sum_list_mono [of "ct_ths s" "th_todo p" "\<lambda>_. cp_rounds p * incs (cp_body p)"]
    by (simp add: sum_list_triv)
  then show ?thesis using assms by (simp add: all_incs_def counter_inv_def)
qed

lemma owner_goes_on:
  assumes inv: "counter_inv p s" and t: "t < length (ct_ths s)" "ct_ths s ! t = Body i b r"
    and h: "held b" and fits: "fits p"
  shows "\<exists>l s'. counter_step p s l s'"
proof -
  obtain c cs where b: "b = c # cs" using h by (cases b) auto
  have ty: "ty_rest p (c # cs)" "loaded (c # cs) \<longrightarrow> r = ct_x s" using inv_ok [OF inv t] b by auto
  have own: "ct_mtx s = Some t"
    using mutex_inv_owner [OF inv_mutex [OF inv] t(1)] t h by simp
  have "r < 2147483647" if c: "c = Store"
  proof -
    have "loaded (c # cs)" "\<not> cp_atomic p" using ty_rest_Cons(4) [OF ty(1)] c by auto
    then have r: "r = ct_x s" and T: "all_incs p < 2147483648" using ty fits by (auto simp: fits_def)
    have "0 < todo p s" using todo_member [OF t(1), of p] t b c by (simp add: incs_def)
    moreover have "ct_x s = wrap32 (int (all_incs p) - int (todo p s))" using inv by (simp add: counter_inv_def)
    ultimately show ?thesis
      using r T wrap32_range [of "int (all_incs p) - int (todo p s)"]
        wrap32_id [of "int (all_incs p) - int (todo p s)"] todo_le [OF inv] by linarith
  qed
  moreover have "c \<noteq> Lock" using h b by auto
  ultimately have "counter_stmt t i c (ct_x s) (ct_mtx s) r \<noteq> None"
    using own by (cases c) auto
  then obtain l x' m' r' where "counter_stmt t i c (ct_x s) (ct_mtx s) r = Some (l, x', m', r')"
    by fastforce
  from counter_step.exec [OF t(1) t(2) [unfolded b] this] show ?thesis by blast
qed

lemma counter_progress:
  assumes inv: "counter_inv p s" and fits: "fits p" and nd: "\<not> ct_done s"
  shows "\<exists>l s'. counter_step p s l s'"
proof (cases "\<exists>t < length (ct_ths s). ct_ths s ! t \<noteq> Ended")
  case False
  then show ?thesis
    using inv nd counter_step.join [of s p] counter_step.total [of s p]
    by (cases "ct_joined s < length (ct_ths s)") (fastforce simp: counter_inv_def)+
next
  case True
  then obtain t where t: "t < length (ct_ths s)" "ct_ths s ! t \<noteq> Ended" by blast
  show ?thesis
  proof (cases "ct_mtx s")
    case (Some u)
    then have u: "u < length (ct_ths s)" "th_held (ct_ths s ! u)"
      using inv_mutex [OF inv] mutex_inv_held by auto
    then obtain i b r where "ct_ths s ! u = Body i b r" "held b" by (cases "ct_ths s ! u") auto
    from owner_goes_on [OF inv u(1) this fits] show ?thesis .
  next
    case None
    show ?thesis
    proof (cases "ct_ths s ! t")
      case (Head i)
      with t show ?thesis using counter_step.enter [of t s i p] counter_step.leave [of t s i p] by blast
    next
      case (Body i b r)
      show ?thesis
      proof (cases b)
        case Nil
        with Body t show ?thesis using counter_step.again [of t s i r p] by blast
      next
        case (Cons c cs)
        have "\<not> held (c # cs)" "ty_rest p (c # cs)"
          using None Body Cons mutex_inv_free [of th_held "ct_ths s" t] inv_mutex [OF inv] t
            inv_ok [OF inv t(1) Body] by auto
        then have "counter_stmt t i c (ct_x s) (ct_mtx s) r \<noteq> None"
          using ty_rest_Cons(4) [of p c cs] None by (cases c) auto
        then obtain l x' m' r' where "counter_stmt t i c (ct_x s) (ct_mtx s) r = Some (l, x', m', r')"
          by fastforce
        from counter_step.exec [OF t(1) Body [unfolded Cons] this] show ?thesis by blast
      qed
    qed (use t in simp)
  qed
qed

text \<open>Two threads about to access a plain \<open>x\<close>, one of them to write, are a data race.\<close>

definition next_stmt :: "counter_sys \<Rightarrow> tid \<Rightarrow> stmt option" where
  "next_stmt s t =
     (if t < length (ct_ths s) then case ct_ths s ! t of Body i (c # cs) r \<Rightarrow> Some c | _ \<Rightarrow> None else None)"

definition counter_race :: "counter_prog \<Rightarrow> counter_sys \<Rightarrow> bool" where
  "counter_race p s \<longleftrightarrow> \<not> cp_atomic p \<and>
     (\<exists>t < length (ct_ths s). \<exists>u < length (ct_ths s). t \<noteq> u \<and> next_stmt s t = Some Store \<and>
        next_stmt s u \<in> {Some Load, Some Store, Some Cout_x})"

lemma next_stmt_Some:
  "next_stmt s t = Some c \<longleftrightarrow> t < length (ct_ths s) \<and> (\<exists>i cs r. ct_ths s ! t = Body i (c # cs) r)"
  by (auto simp: next_stmt_def split: cthread.splits list.splits)

lemma next_held:
  assumes "counter_inv p s" and "next_stmt s t = Some c" and "c \<in> {Unlock, Cout_i, Cout_x, Load, Store}"
  shows "ct_mtx s = Some t"
proof -
  obtain i cs r where t: "t < length (ct_ths s)" "ct_ths s ! t = Body i (c # cs) r"
    using assms(2) by (auto simp: next_stmt_Some)
  have "held (c # cs)" using ty_rest_Cons(4) [of p c cs] inv_ok [OF assms(1) t] assms(3) by auto
  then show ?thesis using mutex_inv_owner [OF inv_mutex [OF assms(1)] t(1)] t by simp
qed

lemma counter_no_race: "counter_inv p s \<Longrightarrow> \<not> counter_race p s"
  unfolding counter_race_def using next_held by (metis insertCI option.inject singletonD insertE)

text \<open>What \<open>main\<close> prints.\<close>

lemma joined_all_x:
  assumes "counter_inv p s" and "ct_joined s = length (ct_ths s)"
  shows "ct_x s = wrap32 (int (all_incs p))"
proof -
  have "\<forall>th \<in> set (ct_ths s). th = Ended" using assms by (auto simp: counter_inv_def in_set_conv_nth)
  then have "todo p s = 0" unfolding todo_def by (auto simp: sum_list_eq_0_iff)
  with assms(1) show ?thesis by (simp add: counter_inv_def)
qed

lemma stmt_no_total: "counter_stmt t i c x m r = Some (Some e, y) \<Longrightarrow> e \<noteq> Total v"
  by (cases c) (auto split: if_splits)

lemma total_value:
  assumes "counter_inv p s" and "counter_step p s (Some (Total v)) s'"
  shows "v = wrap32 (int (all_incs p))"
  using assms(2)
proof cases
  case (exec t i c cs r x' m' r')
  then show ?thesis using stmt_no_total by blast
next
  case total
  then show ?thesis using joined_all_x [OF assms(1)] by (auto split: if_splits)
qed

interpretation counter: inductive_invariant "counter_init p" "counter_step p" "\<lambda>s. well_locked p \<longrightarrow> counter_inv p s"
  for p :: counter_prog
  by unfold_locales (auto intro: counter_init_inv counter_step_inv)

lemma done_stuck:
  assumes inv: "counter_inv p s" and d: "ct_done s"
  shows "\<not> counter_step p s l s'"
proof
  have e: "\<forall>t < length (ct_ths s). ct_ths s ! t = Ended" "ct_joined s = length (ct_ths s)"
    using inv d by (auto simp: counter_inv_def)
  assume "counter_step p s l s'"
  then show False by cases (use e d in auto)
qed

lemma done_last:
  assumes "Lts.run (counter_step p) s0 es s" and "well_locked p" and "counter_inv p s0" and "\<not> ct_done s0"
  shows "ct_done s \<longrightarrow> cp_total p \<longrightarrow> es \<noteq> [] \<and> last es = Total (wrap32 (int (all_incs p)))"
  using assms
proof (induction rule: run.induct)
  case (run_tau s0 es s' s'')
  have "counter_inv p s'" using counter.inv_run [OF run_tau.hyps(1)] run_tau.prems by blast
  with done_stuck run_tau.hyps(2) have "\<not> ct_done s'" by blast
  with run_tau.hyps(2) show ?case by (cases rule: counter_step.cases) (auto split: if_splits)
next
  case (run_vis s0 es s' e s'')
  have inv: "counter_inv p s'" using counter.inv_run [OF run_vis.hyps(1)] run_vis.prems by blast
  with done_stuck run_vis.hyps(2) have nd: "\<not> ct_done s'" by blast
  from run_vis.hyps(2) show ?case
  proof cases
    case total
    with joined_all_x [OF inv] show ?thesis by (auto split: if_splits)
  qed (use nd in auto)
qed simp

lemma run_totals:
  assumes "Lts.run (counter_step p) s0 es s" and "well_locked p" and "counter_inv p s0"
  shows "Total v \<in> set es \<longrightarrow> v = wrap32 (int (all_incs p))"
  using assms
proof (induction rule: run.induct)
  case (run_vis s0 es s' e s'')
  have inv: "counter_inv p s'" using counter.inv_run [OF run_vis.hyps(1)] run_vis.prems by blast
  from run_vis total_value [OF inv] show ?case by auto
qed simp_all

section \<open>Soundness of the discipline\<close>

lemma programs_well_locked:
  "well_locked print_counter" "well_locked lambda_counter" "well_locked (mutex_counter m)"
  "well_locked (atomic_counter m)" "well_locked (try_counter m)" "well_locked (guard_counter m)"
  by (simp_all add: well_locked_def print_counter_def lambda_counter_def mutex_counter_def
      atomic_counter_def try_counter_def guard_counter_def after_h_def after_l_def)

text \<open>
  C16. All six programs of the file pass \<open>well_locked\<close>, with any number of threads, and a program
  whose body passes it runs without a data race, unlocks the mutex only in the thread that owns it,
  and has only finite runs: every step makes a measure smaller. If \<open>x\<close> is atomic or the number of
  increments fits an \<open>int\<close> (\<open>fits\<close>), somebody can go on until \<open>main\<close> is through, so with finite runs
  the program ends under every schedule. The total it prints, last of all, is the number of
  increments of all threads, as a 32-bit \<open>int\<close>.
\<close>

theorem well_locked_sound:
  assumes "well_locked p" and "counter_init p s0" and "Lts.run (counter_step p) s0 es s"
  shows "well_locked print_counter \<and> well_locked lambda_counter \<and>
     (\<forall>m. well_locked (mutex_counter m) \<and> well_locked (atomic_counter m) \<and>
          well_locked (try_counter m) \<and> well_locked (guard_counter m)) \<and>
     \<not> counter_race p s \<and>
     (\<forall>t. next_stmt s t = Some Unlock \<longrightarrow> pthread_mutex_unlock t (ct_mtx s) = Some None) \<and>
     (\<forall>l s'. counter_step p s l s' \<longrightarrow> counter_measure p s' < counter_measure p s) \<and>
     (fits p \<longrightarrow> ct_done s \<or> (\<exists>l s'. counter_step p s l s')) \<and>
     (\<forall>v. Total v \<in> set es \<longrightarrow> v = wrap32 (int (all_incs p))) \<and>
     (ct_done s \<longrightarrow> cp_total p \<longrightarrow> es \<noteq> [] \<and> last es = Total (wrap32 (int (all_incs p))))"
proof -
  have inv0: "counter_inv p s0" by (rule counter_init_inv [OF assms(2)])
  have nd: "\<not> ct_done s0" using assms(2) by (simp add: counter_init_def)
  have inv: "counter_inv p s" using counter.inv_run [OF assms(3)] inv0 assms(1) by blast
  have "\<forall>t. next_stmt s t = Some Unlock \<longrightarrow> pthread_mutex_unlock t (ct_mtx s) = Some None"
    using next_held [OF inv] by simp
  with counter_no_race [OF inv] counter_decreases counter_progress [OF inv]
    run_totals [OF assms(3,1) inv0] done_last [OF assms(3,1) inv0 nd] programs_well_locked
  show ?thesis by blast
qed

text \<open>A schedule names the thread that moves, or \<open>None\<close> for \<open>main\<close>.\<close>

definition counter_exec :: "counter_prog \<Rightarrow> tid option \<Rightarrow> counter_sys \<Rightarrow> (cevent option \<times> counter_sys) option" where
  "counter_exec p c s =
     (case c of
        None \<Rightarrow>
          if ct_joined s < length (ct_ths s)
          then (if ct_ths s ! ct_joined s = Ended then Some (None, s\<lparr>ct_joined := Suc (ct_joined s)\<rparr>) else None)
          else if ct_joined s = length (ct_ths s) \<and> \<not> ct_done s
          then Some (if cp_total p then Some (Total (ct_x s)) else None, s\<lparr>ct_done := True\<rparr>) else None
      | Some t \<Rightarrow>
          if length (ct_ths s) \<le> t then None
          else
            (case ct_ths s ! t of
               Head i \<Rightarrow>
                 Some (None, s\<lparr>ct_ths := (ct_ths s)[t := if i < cp_rounds p then Body i (cp_body p) 0 else Ended]\<rparr>)
             | Body i b r \<Rightarrow>
                 (case b of
                    [] \<Rightarrow> Some (None, s\<lparr>ct_ths := (ct_ths s)[t := Head (Suc i)]\<rparr>)
                  | d # cs \<Rightarrow>
                      map_option (\<lambda>(l, x', m', r').
                        (l, s\<lparr>ct_x := x', ct_mtx := m', ct_ths := (ct_ths s)[t := Body i cs r']\<rparr>))
                        (counter_stmt t i d (ct_x s) (ct_mtx s) r))
             | Ended \<Rightarrow> None))"

lemma counter_exec_sound: "counter_exec p c s = Some (l, s') \<Longrightarrow> counter_step p s l s'"
proof (cases c)
  case (Some t)
  assume x: "counter_exec p c s = Some (l, s')"
  then have t: "t < length (ct_ths s)" using Some by (auto simp: counter_exec_def split: if_splits)
  show ?thesis
  proof (cases "ct_ths s ! t")
    case (Body i b r)
    then show ?thesis
      using x Some t counter_step.again [of t s i r p] counter_step.exec [of t s i _ _ r]
      by (auto simp: counter_exec_def split: list.splits)
  qed (use x Some t counter_step.enter counter_step.leave in
      \<open>auto simp: counter_exec_def split: if_splits\<close>)
next
  case None
  assume "counter_exec p c s = Some (l, s')"
  with None show ?thesis
    using counter_step.join [of s p] counter_step.total [of s p]
    by (auto simp: counter_exec_def split: if_splits)
qed

lemma counter_schedule_run:
  "schedule (counter_exec p) s cs = Some (es, s') \<Longrightarrow> Lts.run (counter_step p) s es s'"
  by (erule schedule_run) (rule counter_exec_sound)

text \<open>Two threads of the unlocked body \<open>++x\<close> on a plain \<open>int\<close> lose an increment: the type is needed.\<close>

definition plain_counter :: counter_prog where
  "plain_counter =
     \<lparr>cp_threads = 2, cp_rounds = 1, cp_body = [Load, Store], cp_atomic = False, cp_total = True\<rparr>"

text \<open>
  The theorem applies to a run that is inside
  the critical section; the unprotected increment is rejected, with a run that loses one.
\<close>

theorem well_locked_sound_witness:
  "\<not> counter_race (mutex_counter 1)
     \<lparr>ct_x = 1, ct_mtx = Some 0, ct_ths = [Body 0 [Cout_x, Unlock] 0], ct_joined = 0, ct_done = False\<rparr> \<and>
   well_locked print_counter \<and> well_locked (guard_counter 3) \<and>
   \<not> well_locked plain_counter \<and>
   (\<exists>es s. Lts.run (counter_step plain_counter)
      \<lparr>ct_x = 0, ct_mtx = None, ct_ths = [Head 0, Head 0], ct_joined = 0, ct_done = False\<rparr> es s \<and>
      es = [Total 1])"
proof -
  let ?start = "\<lparr>ct_x = 0, ct_mtx = None, ct_ths = [Head 0], ct_joined = 0, ct_done = False\<rparr>"
  let ?held = "\<lparr>ct_x = 1, ct_mtx = Some 0, ct_ths = [Body 0 [Cout_x, Unlock] 0], ct_joined = 0, ct_done = False\<rparr>"
  have r: "Lts.run (counter_step (mutex_counter 1)) ?start [] ?held"
    by (rule counter_schedule_run [of _ _ "[Some 0, Some 0, Some 0, Some 0]"]) code_simp
  have i: "counter_init (mutex_counter 1) ?start" by (simp add: counter_init_def mutex_counter_def)
  let ?from = "\<lparr>ct_x = 0, ct_mtx = None, ct_ths = [Head 0, Head 0], ct_joined = 0, ct_done = False\<rparr>"
  let ?to = "\<lparr>ct_x = 1, ct_mtx = None, ct_ths = [Ended, Ended], ct_joined = 2, ct_done = True\<rparr>"
  have "Lts.run (counter_step plain_counter) ?from [Total 1] ?to"
    by (rule counter_schedule_run [of _ _ "[Some 0, Some 1, Some 0, Some 1, Some 0, Some 1, Some 0, Some 1,
          Some 0, Some 1, None, None, None]"]) code_simp
  moreover have "\<not> well_locked plain_counter" by (simp add: well_locked_def plain_counter_def)
  ultimately show ?thesis
    using well_locked_sound [OF programs_well_locked(3) i r] by auto
qed

section \<open>Exceptions between lock and unlock\<close>

text \<open>
  One round of the body with \<open>try\<close> and \<open>catch\<close>, and of the one with \<open>lock_guard\<close>: \<open>e\<close> is the
  statement that throws, if one does. The handler unlocks and throws on, which nobody catches:
  the program terminates. \<open>None\<close> is a thread that waits for the mutex.
\<close>

datatype round = Goes_on mutex | Terminates mutex | Unlocks_unowned

definition catch_round :: "tid \<Rightarrow> mutex \<Rightarrow> round" where
  "catch_round t m = (case pthread_mutex_unlock t m of None \<Rightarrow> Unlocks_unowned | Some m' \<Rightarrow> Terminates m')"

definition try_round :: "tid \<Rightarrow> stmt option \<Rightarrow> mutex \<Rightarrow> round option" where
  "try_round t e m =
     (if e = Some Lock then Some (catch_round t m)
      else map_option (\<lambda>m'. if e \<in> {Some Cout_x, Some Sleep} then catch_round t m'
             else (case pthread_mutex_unlock t m' of None \<Rightarrow> Unlocks_unowned | Some m'' \<Rightarrow> Goes_on m''))
           (pthread_mutex_lock t m))"

definition guard_round :: "tid \<Rightarrow> stmt option \<Rightarrow> mutex \<Rightarrow> round option" where
  "guard_round t e m =
     (if e = Some Lock then Some (Terminates m)
      else map_option (\<lambda>m'. case lockGuard_dtor t m' of None \<Rightarrow> Unlocks_unowned
             | Some m'' \<Rightarrow> if e \<in> {Some Cout_x, Some Sleep} then Terminates m'' else Goes_on m'')
           (lockGuard_ctor t m))"

text \<open>
  \<open>mtx.lock()\<close> stands inside the \<open>try\<close> block: when it throws, the handler unlocks a mutex the
  thread does not own. In all other cases, and always with \<open>lock_guard\<close>, the mutex a thread took
  is free again after the round, also when it throws; the two bodies differ in nothing else.
\<close>

theorem catch_unlocks_unowned:
  assumes "m \<noteq> Some t"
  shows "try_round t (Some Lock) m = Some Unlocks_unowned \<and> guard_round t (Some Lock) m = Some (Terminates m) \<and>
     (e \<noteq> Some Lock \<longrightarrow> try_round t e m = guard_round t e m \<and>
        (m = None \<longrightarrow> try_round t e m = Some (if e \<in> {Some Cout_x, Some Sleep} then Terminates None else Goes_on None)) \<and>
        (m \<noteq> None \<longrightarrow> try_round t e m = None))"
proof (cases m)
  case None
  then show ?thesis
    by (auto simp: try_round_def guard_round_def catch_round_def pthread_mutex_lock_def pthread_mutex_unlock_def
        lockGuard_ctor_def lockGuard_dtor_def Mutex_lock_def Mutex_unlock_def)
next
  case (Some u)
  with assms show ?thesis
    by (auto simp: try_round_def guard_round_def catch_round_def pthread_mutex_lock_def pthread_mutex_unlock_def
        lockGuard_ctor_def lockGuard_dtor_def Mutex_lock_def Mutex_unlock_def)
qed

end
