(* ===== verification/Counter_Lines.thy ===== *)
theory Counter_Lines
  imports Counters "HOL-Library.Sublist"
begin

text \<open>
  What the threads of \<open>mutex_counter\<close> print: their lines refine counting from 1 to \<open>10 * m\<close>
  followed by the total. A thread between the increment and its line has counted already
  but not shown it, and only the owner of the mutex can be there.
\<close>

section \<open>The printed values\<close>

fun is_cout :: "cthread \<Rightarrow> bool" where
  "is_cout (Body i (c # b) r) = (c = Cout_x)"
| "is_cout _ = False"

definition at_print :: "counter_sys \<Rightarrow> bool" where
  "at_print s \<longleftrightarrow> (\<exists>u < length (ct_ths s). is_cout (ct_ths s ! u))"

lemma at_print_update:
  "t < length (ct_ths s) \<Longrightarrow> ct_ths s' = (ct_ths s)[t := th] \<Longrightarrow>
   at_print s' \<longleftrightarrow> is_cout th \<or> (\<exists>u < length (ct_ths s). u \<noteq> t \<and> is_cout (ct_ths s ! u))"
  by (auto simp: at_print_def nth_list_update)

lemma at_print_same:
  assumes "t < length (ct_ths s)" and "ct_ths s' = (ct_ths s)[t := th]" and "is_cout th = is_cout (ct_ths s ! t)"
  shows "at_print s' = at_print s"
  unfolding at_print_update [OF assms(1,2)] using assms(1,3) by (auto simp: at_print_def)

lemma is_cout_next: "u < length (ct_ths s) \<Longrightarrow> is_cout (ct_ths s ! u) \<longleftrightarrow> next_stmt s u = Some Cout_x"
  by (cases "ct_ths s ! u" rule: is_cout.cases) (auto simp: next_stmt_def)

lemma only_owner_prints:
  "counter_inv p s \<Longrightarrow> u < length (ct_ths s) \<Longrightarrow> is_cout (ct_ths s ! u) \<Longrightarrow> ct_mtx s = Some u"
  using next_held is_cout_next by blast

definition count_abs :: "counter_sys \<Rightarrow> int" where
  "count_abs s = ct_x s - (if at_print s then 1 else 0)"

text \<open>Counting: the lines are 1, 2, 3, ...; the total is the last of them.\<close>

fun count_spec :: "int \<Rightarrow> int \<Rightarrow> cevent \<Rightarrow> int option" where
  "count_spec n k (Line t v) = (if v = k + 1 \<and> k < n then Some (k + 1) else None)"
| "count_spec n k (Total v) = (if v = k \<and> k = n then Some k else None)"

definition mutex_ok :: "nat \<Rightarrow> counter_sys \<Rightarrow> bool" where
  "mutex_ok m s \<longleftrightarrow> counter_inv (mutex_counter m) s \<and>
     (\<forall>t < length (ct_ths s). \<forall>i b r. ct_ths s ! t = Body i b r \<longrightarrow> suffix b (cp_body (mutex_counter m)))"

lemma mutex_ok_step:
  assumes ok: "mutex_ok m s" and st: "counter_step (mutex_counter m) s l s'"
  shows "mutex_ok m s'"
proof -
  have inv: "counter_inv (mutex_counter m) s'"
    using counter_step_inv [OF programs_well_locked(3) st] ok by (simp add: mutex_ok_def)
  have old: "suffix b (cp_body (mutex_counter m))" if "t < length (ct_ths s)" "ct_ths s ! t = Body i b r" for t i b r
    using ok that unfolding mutex_ok_def by blast
  have new: "mutex_ok m s'" if "ct_ths s' = (ct_ths s)[t := th]" "t < length (ct_ths s)"
    "\<And>i b r. th = Body i b r \<Longrightarrow> suffix b (cp_body (mutex_counter m))" for t th
    using inv old that by (auto simp: mutex_ok_def nth_list_update)
  from st show ?thesis
  proof cases
    case (exec t i c cs r x' m' r')
    from old [OF exec(2,3)] have "suffix cs (cp_body (mutex_counter m))" by (rule suffix_ConsD)
    then show ?thesis using exec by (intro new [of t "Body i cs r'"]) auto
  next
    case (enter t i)
    then show ?thesis by (intro new [of t "Body i (cp_body (mutex_counter m)) 0"]) auto
  next
    case (leave t i)
    then show ?thesis by (intro new [of t Ended]) auto
  next
    case (again t i r)
    then show ?thesis by (intro new [of t "Head (Suc i)"]) auto
  qed (use inv old in \<open>auto simp: mutex_ok_def\<close>)
qed

lemma mutex_x:
  assumes "mutex_ok m s" and "10 * m < 2147483648"
  shows "ct_x s = 10 * int m - int (todo (mutex_counter m) s)" and "todo (mutex_counter m) s \<le> 10 * m"
proof -
  have a: "all_incs (mutex_counter m) = 10 * m" by (simp add: all_incs_def mutex_counter_def incs_def)
  have inv: "counter_inv (mutex_counter m) s" using assms(1) by (simp add: mutex_ok_def)
  from todo_le [OF inv] a show le: "todo (mutex_counter m) s \<le> 10 * m" by simp
  have "ct_x s = wrap32 (10 * int m - int (todo (mutex_counter m) s))"
    using inv a by (simp add: counter_inv_def)
  moreover have "- 2147483648 \<le> 10 * int m - int (todo (mutex_counter m) s)"
    "10 * int m - int (todo (mutex_counter m) s) < 2147483648"
    using le assms(2) by linarith+
  ultimately show "ct_x s = 10 * int m - int (todo (mutex_counter m) s)" using wrap32_id by simp
qed

lemma others_silent:
  assumes inv: "counter_inv p s" and own: "ct_mtx s = Some t \<or> ct_mtx s = None"
  shows "\<not> (\<exists>u < length (ct_ths s). u \<noteq> t \<and> is_cout (ct_ths s ! u))"
  using only_owner_prints [OF inv] own by fastforce

lemma count_abs_same:
  assumes "t < length (ct_ths s)" and "ct_ths s' = (ct_ths s)[t := th]" and "is_cout th = is_cout (ct_ths s ! t)"
    and "ct_x s' = ct_x s"
  shows "count_abs s' = count_abs s"
  unfolding count_abs_def at_print_same [OF assms(1-3)] assms(4) ..

lemma mutex_exec_sim:
  assumes ok: "mutex_ok m s" and small: "10 * m < 2147483648"
    and t: "t < length (ct_ths s)" "ct_ths s ! t = Body i (c # cs) r"
    and st: "counter_stmt t i c (ct_x s) (ct_mtx s) r = Some (l, x', m', r')"
    and s': "s' = s\<lparr>ct_x := x', ct_mtx := m', ct_ths := (ct_ths s)[t := Body i cs r']\<rparr>"
  shows "(l = None \<longrightarrow> count_abs s' = count_abs s) \<and>
     (\<forall>e. l = Some e \<longrightarrow> count_spec (10 * int m) (count_abs s) e = Some (count_abs s'))"
proof -
  have inv: "counter_inv (mutex_counter m) s" using ok by (simp add: mutex_ok_def)
  have "suffix (c # cs) (cp_body (mutex_counter m))" using ok t unfolding mutex_ok_def by blast
  then consider "c = Store" "cs = [Cout_x, Unlock]" | "c = Cout_x" "cs = [Unlock]"
    | "c = Lock" "cs = [Load, Store, Cout_x, Unlock]" | "c = Load" "cs = [Store, Cout_x, Unlock]"
    | "c = Unlock" "cs = []"
    by (auto simp: mutex_counter_def suffix_Cons)
  then show ?thesis
  proof cases
    case 1
    then have "ct_mtx s = Some t" using t by (intro next_held [OF inv, of t c]) (auto simp: next_stmt_Some)
    then have q: "\<not> (\<exists>u < length (ct_ths s). u \<noteq> t \<and> is_cout (ct_ths s ! u))" using others_silent [OF inv] by blast
    moreover have "\<not> is_cout (ct_ths s ! t)" using t 1 by simp
    ultimately have "\<not> at_print s" unfolding at_print_def by blast
    moreover have "at_print s'" using at_print_update [OF t(1), of s'] s' 1 by simp
    moreover have "r = ct_x s" using inv_ok [OF inv t] 1 by simp
    ultimately show ?thesis using st s' 1 by (auto simp: count_abs_def split: if_splits)
  next
    case 2
    then have "ct_mtx s = Some t" using t by (intro next_held [OF inv, of t c]) (auto simp: next_stmt_Some)
    then have q: "\<not> (\<exists>u < length (ct_ths s). u \<noteq> t \<and> is_cout (ct_ths s ! u))" using others_silent [OF inv] by blast
    then have "\<not> at_print s'" using at_print_update [OF t(1), of s'] s' 2 by simp
    moreover have "at_print s" using t 2 unfolding at_print_def by fastforce
    ultimately show ?thesis using st s' 2 mutex_x [OF ok small] by (auto simp: count_abs_def)
  qed (use st s' t count_abs_same [OF t(1), of s' "Body i cs r'"] in auto)
qed

lemma mutex_sim:
  assumes ok: "mutex_ok m s" and small: "10 * m < 2147483648" and st: "counter_step (mutex_counter m) s l s'"
  shows "(l = None \<longrightarrow> count_abs s' = count_abs s) \<and>
     (\<forall>e. l = Some e \<longrightarrow> count_spec (10 * int m) (count_abs s) e = Some (count_abs s'))"
  using st
proof cases
  case (exec t i c cs r x' m' r')
  then show ?thesis by (intro mutex_exec_sim [OF ok small]) auto
next
  case (enter t i)
  then show ?thesis
    using count_abs_same [of t s s' "Body i (cp_body (mutex_counter m)) 0"] by (simp add: mutex_counter_def)
next
  case (leave t i)
  then show ?thesis using count_abs_same [of t s s' Ended] by simp
next
  case (again t i r)
  then show ?thesis using count_abs_same [of t s s' "Head (Suc i)"] by simp
next
  case join
  then show ?thesis by (simp add: count_abs_def at_print_def)
next
  case total
  have inv: "counter_inv (mutex_counter m) s" using ok by (simp add: mutex_ok_def)
  have "all_incs (mutex_counter m) = 10 * m" by (simp add: all_incs_def mutex_counter_def incs_def)
  then have "ct_x s = 10 * int m"
    using joined_all_x [OF inv total(3)] small wrap32_id [of "10 * int m"] by simp
  moreover have "\<not> at_print s" using inv total(3) by (auto simp: counter_inv_def at_print_def)
  ultimately show ?thesis
    using total by (auto simp: count_abs_def at_print_def mutex_counter_def)
qed

interpretation mutexr: trace_refinement "\<lambda>s. counter_init (mutex_counter m) s \<and> 10 * m < 2147483648"
    "counter_step (mutex_counter m)" "\<lambda>s. mutex_ok m s \<and> 10 * m < 2147483648" count_abs "count_spec (10 * int m)"
  for m :: nat
proof unfold_locales
  fix s assume i: "counter_init (mutex_counter m) s \<and> 10 * m < 2147483648"
  with counter_init_inv [of "mutex_counter m" s] show "mutex_ok m s \<and> 10 * m < 2147483648"
    by (auto simp: mutex_ok_def counter_init_def)
qed (use mutex_ok_step mutex_sim in blast)+

fun line_values :: "cevent list \<Rightarrow> int list" where
  "line_values [] = []"
| "line_values (Line t v # es) = v # line_values es"
| "line_values (Total v # es) = line_values es"

lemma count_spec_run:
  "abs_run (count_spec n) k es = Some k' \<Longrightarrow> k \<le> n \<Longrightarrow> line_values es = [k + 1..k'] \<and> k \<le> k' \<and> k' \<le> n"
proof (induction es arbitrary: k rule: line_values.induct)
  case (2 t v es)
  then have v: "v = k + 1" "k < n" and r: "abs_run (count_spec n) (k + 1) es = Some k'"
    by (auto split: if_splits)
  from "2.IH" [OF r] v have "line_values es = [k + 1 + 1..k']" "k + 1 \<le> k'" "k' \<le> n" by simp_all
  with v upto_rec1 [of "k + 1" k'] show ?case by simp
qed (auto split: if_splits)

lemma count_spec_total: "abs_run (count_spec n) k (es @ [Total v]) = Some k' \<Longrightarrow> k' = n \<and> v = n"
  by (auto simp: abs_run_snoc split: option.splits if_splits)

text \<open>
  C17. With the increment and the output under one lock, the lines of all threads together show
  1, 2, 3, ... without a gap or a repetition under every schedule; the program cannot get
  stuck, and when \<open>main\<close> is through all of \<open>10 * m\<close> have been shown and the total is the last
  of them.
\<close>

theorem mutex_counter_counts:
  assumes "counter_init (mutex_counter m) s0" and "10 * m < 2147483648"
    and "Lts.run (counter_step (mutex_counter m)) s0 es s"
  shows "(\<exists>k \<le> 10 * m. line_values es = [1..int k]) \<and>
     (ct_done s \<longrightarrow> line_values es = [1..10 * int m] \<and> last es = Total (10 * int m)) \<and>
     (ct_done s \<or> (\<exists>l s'. counter_step (mutex_counter m) s l s'))"
proof -
  have i: "counter_init (mutex_counter m) s0 \<and> 10 * m < 2147483648" using assms by simp
  have inv0: "counter_inv (mutex_counter m) s0" by (rule counter_init_inv [OF assms(1)])
  have a: "all_incs (mutex_counter m) = 10 * m" by (simp add: all_incs_def mutex_counter_def incs_def)
  have "count_abs s0 = 0" using assms(1) by (auto simp: counter_init_def count_abs_def at_print_def)
  with mutexr.trace_refines [OF i assms(3)]
  have r: "abs_run (count_spec (10 * int m)) 0 es = Some (count_abs s)" by simp
  from count_spec_run [OF this] have lv: "line_values es = [1..count_abs s]" "0 \<le> count_abs s" "count_abs s \<le> 10 * int m"
    by simp_all
  then have "nat (count_abs s) \<le> 10 * m \<and> line_values es = [1..int (nat (count_abs s))]" by simp
  moreover have "line_values es = [1..10 * int m] \<and> last es = Total (10 * int m)" if d: "ct_done s"
  proof -
    have "\<not> ct_done s0" "cp_total (mutex_counter m)"
      using assms(1) by (simp_all add: counter_init_def mutex_counter_def)
    with done_last [OF assms(3) programs_well_locked(3) inv0] d
    obtain v where e: "es \<noteq> []" "last es = Total v" by blast
    then have "es = butlast es @ [Total v]" by (metis append_butlast_last_id)
    with r count_spec_total have "count_abs s = 10 * int m" "v = 10 * int m" by metis+
    with lv e show ?thesis by simp
  qed
  moreover have "ct_done s \<or> (\<exists>l s'. counter_step (mutex_counter m) s l s')"
    using counter_progress [of "mutex_counter m" s] counter.inv_run [OF assms(3)] inv0 programs_well_locked a assms(2)
    by (auto simp: fits_def)
  ultimately show ?thesis by blast
qed

text \<open>Two threads; the second shows the first line.\<close>

theorem mutex_counter_counts_witness:
  "\<exists>s. Lts.run (counter_step (mutex_counter 2))
      \<lparr>ct_x = 0, ct_mtx = None, ct_ths = [Head 0, Head 0], ct_joined = 0, ct_done = False\<rparr>
      [Line 1 1, Line 0 2] s \<and> \<not> ct_done s \<and> (\<exists>l s'. counter_step (mutex_counter 2) s l s')"
proof -
  let ?start = "\<lparr>ct_x = 0, ct_mtx = None, ct_ths = [Head 0, Head 0], ct_joined = 0, ct_done = False\<rparr>"
  let ?now = "\<lparr>ct_x = 2, ct_mtx = Some 0, ct_ths = [Body 0 [Unlock] 1, Body 0 [] 0], ct_joined = 0, ct_done = False\<rparr>"
  have r: "Lts.run (counter_step (mutex_counter 2)) ?start [Line 1 1, Line 0 2] ?now"
    by (rule counter_schedule_run [of _ _ "[Some 0, Some 1, Some 1, Some 1, Some 1, Some 1, Some 1,
          Some 0, Some 0, Some 0, Some 0]"]) code_simp
  have i: "counter_init (mutex_counter 2) ?start"
    by (simp add: counter_init_def mutex_counter_def numeral_2_eq_2)
  from mutex_counter_counts [OF i _ r] have "\<exists>l s'. counter_step (mutex_counter 2) ?now l s'" by simp
  with r show ?thesis by (intro exI [of _ ?now]) simp
qed

end
