(* ===== verification/Unix_Files.thy ===== *)
theory Unix_Files
  imports Prelude "HOL-Library.State_Monad"
begin

text \<open>
  The file interface the lessons in C use: open files with an offset and a mode, a table of
  descriptors that refer to them, and \<open>open\<close>, \<open>close\<close>, \<open>dup2\<close>, \<open>read\<close> and \<open>write\<close>; on top of it
  \<open>stdout\<close> of the C library with its buffer, which is flushed line by line on a terminal and
  only when it is full, or at the end, on a file. System calls are state monad computations,
  so a program is written statement by statement.
\<close>

section \<open>Files and descriptors\<close>

datatype node = Tty | Path string

record ofile =
  of_node :: node
  of_pos :: nat
  of_append :: bool
  of_read :: bool
  of_write :: bool

text \<open>
  \<open>stdout\<close> has no mode before its first output. The descriptor table is a list; a descriptor
  refers to an entry of the table of open files, which \<open>dup2\<close> and \<open>fork\<close> share.
\<close>

datatype buf_mode = Line_buffered | Full_buffered

record process =
  pr_fds :: "nat option list"
  pr_mode :: "buf_mode option"
  pr_buf :: "byte list"

record unix =
  ux_files :: "node \<Rightarrow> byte list option"
  ux_opened :: "ofile list"
  ux_denied :: "string list"
  ux_proc :: process

type_synonym 'a prog = "(unix, 'a) state"

definition fd_get :: "nat \<Rightarrow> nat option list \<Rightarrow> nat option" where
  "fd_get n fds = (if n < length fds then fds ! n else None)"

definition fd_set :: "nat \<Rightarrow> nat option \<Rightarrow> nat option list \<Rightarrow> nat option list" where
  "fd_set n x fds =
     (if n < length fds then fds[n := x] else fds @ replicate (n - length fds) None @ [x])"

text \<open>A new descriptor is the lowest one that is free.\<close>

definition lowest_free :: "nat option list \<Rightarrow> nat" where
  "lowest_free fds = length (takeWhile (\<lambda>x. x \<noteq> None) fds)"

lemma fd_get_set [simp]: "fd_get m (fd_set n x fds) = (if m = n then x else fd_get m fds)"
  by (auto simp: fd_get_def fd_set_def nth_append not_less)

lemma lowest_free_free: "fd_get (lowest_free fds) fds = None"
  unfolding fd_get_def lowest_free_def by (auto dest: nth_length_takeWhile)

lemma lowest_free_least:
  assumes "m < lowest_free fds"
  shows "fd_get m fds \<noteq> None"
proof -
  let ?t = "takeWhile (\<lambda>x. x \<noteq> None) fds"
  have m: "m < length ?t" using assms by (simp add: lowest_free_def)
  then have "?t ! m \<noteq> None" using nth_mem set_takeWhileD by fastforce
  with m show ?thesis using length_takeWhile_le [of "\<lambda>x. x \<noteq> None" fds] by (simp add: takeWhile_nth fd_get_def)
qed

section \<open>System calls\<close>

text \<open>The flags of \<open>open\<close> the sources use; \<open>O_RDONLY\<close> is neither.\<close>

record flags =
  O_WRONLY :: bool
  O_CREAT :: bool
  O_TRUNC :: bool
  O_APPEND :: bool

definition open_file :: "nat \<Rightarrow> unix \<Rightarrow> ofile option" where
  "open_file fd w = (case fd_get fd (pr_fds (ux_proc w)) of None \<Rightarrow> None | Some i \<Rightarrow> Some (ux_opened w ! i))"

definition with_fds :: "(nat option list \<Rightarrow> nat option list) \<Rightarrow> unix \<Rightarrow> unix" where
  "with_fds f w = w\<lparr>ux_proc := (ux_proc w)\<lparr>pr_fds := f (pr_fds (ux_proc w))\<rparr>\<rparr>"

text \<open>\<open>open\<close> fails on a file that may not be opened, and without \<open>O_CREAT\<close> on one that is not there.\<close>

definition sys_open :: "string \<Rightarrow> flags \<Rightarrow> int prog" where
  "sys_open path fl = State (\<lambda>w.
     let old = ux_files w (Path path) in
     if path \<in> set (ux_denied w) \<or> (old = None \<and> \<not> O_CREAT fl) then (-1, w)
     else
       let content = (if O_TRUNC fl then [] else case old of None \<Rightarrow> [] | Some d \<Rightarrow> d);
           file = \<lparr>of_node = Path path, of_pos = 0, of_append = O_APPEND fl, of_read = \<not> O_WRONLY fl,
                   of_write = O_WRONLY fl\<rparr>;
           fd = lowest_free (pr_fds (ux_proc w)) in
       (int fd,
        with_fds (fd_set fd (Some (length (ux_opened w))))
          (w\<lparr>ux_files := (ux_files w)(Path path \<mapsto> content), ux_opened := ux_opened w @ [file]\<rparr>)))"

definition sys_close :: "int \<Rightarrow> unit prog" where
  "sys_close fd = State (\<lambda>w. ((), if fd < 0 then w else with_fds (fd_set (nat fd) None) w))"

definition sys_dup2 :: "int \<Rightarrow> nat \<Rightarrow> unit prog" where
  "sys_dup2 old new = State (\<lambda>w.
     ((), if old < 0 then w
          else (case fd_get (nat old) (pr_fds (ux_proc w)) of
                  None \<Rightarrow> w
                | Some i \<Rightarrow> with_fds (fd_set new (Some i)) w)))"

text \<open>Bytes put into a content at an offset; a gap is filled with zero bytes.\<close>

definition splice_bytes :: "nat \<Rightarrow> byte list \<Rightarrow> byte list \<Rightarrow> byte list" where
  "splice_bytes pos bs d = take pos d @ replicate (pos - length d) nul @ bs @ drop (pos + length bs) d"

text \<open>\<open>write\<close>: all bytes, at the offset of the open file or at the end with \<open>O_APPEND\<close>.\<close>

definition write_at :: "nat \<Rightarrow> byte list \<Rightarrow> unix \<Rightarrow> unix" where
  "write_at i bs w =
     (let file = ux_opened w ! i;
          d = (case ux_files w (of_node file) of None \<Rightarrow> [] | Some d \<Rightarrow> d);
          pos = (if of_append file then length d else of_pos file)
      in w\<lparr>ux_files := (ux_files w)(of_node file \<mapsto> splice_bytes pos bs d),
           ux_opened := (ux_opened w)[i := file\<lparr>of_pos := pos + length bs\<rparr>]\<rparr>)"

definition sys_write :: "nat \<Rightarrow> byte list \<Rightarrow> unit prog" where
  "sys_write fd bs = State (\<lambda>w.
     ((), case fd_get fd (pr_fds (ux_proc w)) of
            None \<Rightarrow> w
          | Some i \<Rightarrow> if of_write (ux_opened w ! i) then write_at i bs w else w))"

definition sys_read :: "nat \<Rightarrow> nat \<Rightarrow> byte list prog" where
  "sys_read fd n = State (\<lambda>w.
     case fd_get fd (pr_fds (ux_proc w)) of
       None \<Rightarrow> ([], w)
     | Some i \<Rightarrow>
         let file = ux_opened w ! i;
             d = (case ux_files w (of_node file) of None \<Rightarrow> [] | Some d \<Rightarrow> d);
             got = (if of_read file then take n (drop (of_pos file) d) else [])
         in (got, w\<lparr>ux_opened := (ux_opened w)[i := file\<lparr>of_pos := of_pos file + length got\<rparr>]\<rparr>))"

section \<open>\<open>stdout\<close>\<close>

definition newline :: byte where "newline = CHR 0x0A"

definition BUFSIZ :: nat where "BUFSIZ = 4096"

text \<open>What a line-buffered stream writes: everything up to the last newline.\<close>

definition whole_lines :: "byte list \<Rightarrow> byte list" where
  "whole_lines b = rev (dropWhile (\<lambda>c. c \<noteq> newline) (rev b))"

definition last_line :: "byte list \<Rightarrow> byte list" where
  "last_line b = rev (takeWhile (\<lambda>c. c \<noteq> newline) (rev b))"

definition set_stdout :: "buf_mode \<Rightarrow> byte list \<Rightarrow> unix \<Rightarrow> unix" where
  "set_stdout m b w = w\<lparr>ux_proc := (ux_proc w)\<lparr>pr_mode := Some m, pr_buf := b\<rparr>\<rparr>"

text \<open>
  The mode is chosen at the first output, by what descriptor 1 then is. How much of a full buffer is
  written is the library's choice (here: all of it); the statements about the order bound the
  output by \<open>BUFSIZ\<close>.
\<close>

definition stdout_mode :: "unix \<Rightarrow> buf_mode" where
  "stdout_mode w =
     (case pr_mode (ux_proc w) of
        Some m \<Rightarrow> m
      | None \<Rightarrow> if map_option of_node (open_file 1 w) = Some Tty then Line_buffered else Full_buffered)"

definition stdout_put :: "byte list \<Rightarrow> unit prog" where
  "stdout_put s = State (\<lambda>w.
     let m = stdout_mode w; b = pr_buf (ux_proc w) @ s in
     if m = Line_buffered then
       ((), set_stdout m (last_line b) (snd (run_state (sys_write 1 (whole_lines b)) w)))
     else if length b \<le> BUFSIZ then ((), set_stdout m b w)
     else ((), set_stdout m [] (snd (run_state (sys_write 1 b) w))))"

definition stdout_flush :: "unit prog" where
  "stdout_flush = State (\<lambda>w.
     ((), set_stdout (stdout_mode w) [] (snd (run_state (sys_write 1 (pr_buf (ux_proc w))) w))))"

text \<open>Returning from \<open>main\<close> flushes \<open>stdout\<close>.\<close>

definition run_main :: "'a prog \<Rightarrow> unix \<Rightarrow> 'a \<times> unix" where
  "run_main m = run_state (do { x \<leftarrow> m; stdout_flush; State_Monad.return x })"

text \<open>
  A process started from a terminal (what is typed there is not modelled), and one whose output goes to the file \<open>path\<close>.
\<close>

definition tty_file :: ofile where
  "tty_file = \<lparr>of_node = Tty, of_pos = 0, of_append = True, of_read = False, of_write = True\<rparr>"

definition on_terminal :: "(string \<Rightarrow> byte list option) \<Rightarrow> string list \<Rightarrow> unix" where
  "on_terminal fs denied =
     \<lparr>ux_files = (\<lambda>n. case n of Tty \<Rightarrow> Some [] | Path p \<Rightarrow> fs p), ux_opened = [tty_file], ux_denied = denied,
      ux_proc = \<lparr>pr_fds = [Some 0, Some 0, Some 0], pr_mode = None, pr_buf = []\<rparr>\<rparr>"

definition to_file :: "(string \<Rightarrow> byte list option) \<Rightarrow> string \<Rightarrow> unix" where
  "to_file fs path =
     \<lparr>ux_files = (\<lambda>n. case n of Tty \<Rightarrow> Some [] | Path p \<Rightarrow> if p = path then Some [] else fs p),
      ux_opened = [tty_file, \<lparr>of_node = Path path, of_pos = 0, of_append = False, of_read = False,
        of_write = True\<rparr>], ux_denied = [],
      ux_proc = \<lparr>pr_fds = [Some 0, Some 1, Some 0], pr_mode = None, pr_buf = []\<rparr>\<rparr>"

lemma whole_last: "whole_lines b @ last_line b = b"
  unfolding whole_lines_def last_line_def by (metis rev_append rev_rev_ident takeWhile_dropWhile_id)

lemma whole_lines_newline [simp]: "whole_lines (b @ [newline]) = b @ [newline]" "last_line (b @ [newline]) = []"
  by (simp_all add: whole_lines_def last_line_def)

lemma splice_end [simp]: "splice_bytes (length d) bs d = d @ bs"
  by (simp add: splice_bytes_def)

end
