(* ===== verification/Stdio.thy ===== *)
theory Stdio
  imports Unix_Files
begin

text \<open>
  What reaches the file behind descriptor 1 when a program mixes \<open>printf\<close>, \<open>fflush\<close> and
  \<open>write\<close>, as the lessons on the buffer of \<open>stdout\<close> do, and when it forks before it ends.
\<close>

datatype out_op = Printf "byte list" | Write1 "byte list" | Fflush

fun out_run :: "out_op list \<Rightarrow> unit prog" where
  "out_run [] = State_Monad.return ()"
| "out_run (Printf s # os) = do { stdout_put s; out_run os }"
| "out_run (Write1 s # os) = do { sys_write 1 s; out_run os }"
| "out_run (Fflush # os) = do { stdout_flush; out_run os }"

fun printed :: "out_op list \<Rightarrow> byte list" where
  "printed [] = []"
| "printed (Printf s # os) = s @ printed os"
| "printed (_ # os) = printed os"

fun written :: "out_op list \<Rightarrow> byte list" where
  "written [] = []"
| "written (Write1 s # os) = s @ written os"
| "written (_ # os) = written os"

text \<open>The text of a program in the order in which its statements stand.\<close>

fun in_order :: "out_op list \<Rightarrow> byte list" where
  "in_order [] = []"
| "in_order (Printf s # os) = s @ in_order os"
| "in_order (Write1 s # os) = s @ in_order os"
| "in_order (Fflush # os) = in_order os"

text \<open>
  \<open>fork\<close> just before the end: both processes have the descriptors, so one offset, and each has
  its own copy of the buffer, which it flushes when it exits.
\<close>

definition fork_and_exit :: "unit prog" where
  "fork_and_exit = do {
     w \<leftarrow> State_Monad.get;
     stdout_flush;
     State_Monad.update (\<lambda>v. v\<lparr>ux_proc := ux_proc w\<rparr>);
     stdout_flush
   }"

section \<open>The file behind descriptor 1\<close>

text \<open>\<open>out_to n w d\<close>: descriptor 1 writes at the end of the file \<open>n\<close>, whose content is \<open>d\<close>.\<close>

definition out_to :: "node \<Rightarrow> unix \<Rightarrow> byte list \<Rightarrow> bool" where
  "out_to n w d \<longleftrightarrow> ux_files w n = Some d \<and>
     (\<exists>i. fd_get 1 (pr_fds (ux_proc w)) = Some i \<and> i < length (ux_opened w) \<and>
        of_node (ux_opened w ! i) = n \<and> of_write (ux_opened w ! i) \<and>
        (of_append (ux_opened w ! i) \<or> of_pos (ux_opened w ! i) = length d))"

abbreviation after :: "'a prog \<Rightarrow> unix \<Rightarrow> unix" where
  "after m w \<equiv> snd (run_state m w)"

lemma run_state_update [simp]: "run_state (State_Monad.update f) w = ((), f w)"
  by (simp add: State_Monad.update_def State_Monad.get_def State_Monad.set_def)

lemma run_state_get [simp]: "run_state State_Monad.get w = (w, w)"
  by (simp add: State_Monad.get_def)

declare run_state_bind [simp del]

lemma run_bind [simp]: "run_state (m \<bind> f) w = run_state (f (fst (run_state m w))) (after m w)"
  by (simp add: run_state_bind case_prod_beta)

lemma out_to_file: "out_to n w d \<Longrightarrow> ux_files w n = Some d"
  by (simp add: out_to_def)

lemma write_out:
  assumes "out_to n w d"
  shows "out_to n (after (sys_write 1 bs) w) (d @ bs)" and "ux_proc (after (sys_write 1 bs) w) = ux_proc w"
    and "m \<noteq> n \<Longrightarrow> ux_files (after (sys_write 1 bs) w) m = ux_files w m"
  using assms by (auto simp: out_to_def sys_write_def write_at_def Let_def)

lemma set_stdout_simps [simp]:
  "pr_buf (ux_proc (set_stdout m b w)) = b" "pr_mode (ux_proc (set_stdout m b w)) = Some m"
  "pr_fds (ux_proc (set_stdout m b w)) = pr_fds (ux_proc w)"
  "ux_files (set_stdout m b w) = ux_files w" "ux_opened (set_stdout m b w) = ux_opened w" "out_to n (set_stdout m b w) d = out_to n w d"
  "stdout_mode (set_stdout m b w) = m"
  by (simp_all add: set_stdout_def out_to_def stdout_mode_def)

lemma flush_out:
  assumes "out_to n w d"
  shows "out_to n (after stdout_flush w) (d @ pr_buf (ux_proc w))"
    and "pr_buf (ux_proc (after stdout_flush w)) = []"
    and "stdout_mode (after stdout_flush w) = stdout_mode w"
  using write_out [OF assms] by (simp_all add: stdout_flush_def)

text \<open>A call to \<open>printf\<close> moves a prefix of what is buffered to the file.\<close>

lemma put_out:
  assumes "out_to n w d"
  shows "\<exists>f b. pr_buf (ux_proc w) @ s = f @ b \<and> out_to n (after (stdout_put s) w) (d @ f) \<and>
     pr_buf (ux_proc (after (stdout_put s) w)) = b \<and> stdout_mode (after (stdout_put s) w) = stdout_mode w"
proof -
  let ?b = "pr_buf (ux_proc w) @ s"
  consider "stdout_mode w = Line_buffered" | "stdout_mode w \<noteq> Line_buffered" "length ?b \<le> BUFSIZ"
    | "stdout_mode w \<noteq> Line_buffered" "\<not> length ?b \<le> BUFSIZ" by blast
  then show ?thesis
  proof cases
    case 1
    then show ?thesis using write_out(1) [OF assms, of "whole_lines ?b"]
      by (intro exI [of _ "whole_lines ?b"] exI [of _ "last_line ?b"])
        (simp add: stdout_put_def Let_def whole_last)
  next
    case 2
    with assms show ?thesis
      by (intro exI [of _ "[]"] exI [of _ ?b]) (simp add: stdout_put_def Let_def)
  next
    case 3
    then show ?thesis using write_out(1) [OF assms, of ?b]
      by (intro exI [of _ ?b] exI [of _ "[]"]) (simp add: stdout_put_def Let_def)
  qed
qed

text \<open>Other files, other open files and the descriptors stay as they are.\<close>

lemma write_other:
  "fd_get fd (pr_fds (ux_proc w)) \<noteq> Some j \<Longrightarrow> ux_opened (after (sys_write fd bs) w) ! j = ux_opened w ! j"
  "ux_proc (after (sys_write fd bs) w) = ux_proc w"
  by (auto simp: sys_write_def write_at_def Let_def split: option.splits)

lemma put_other:
  "fd_get 1 (pr_fds (ux_proc w)) \<noteq> Some j \<Longrightarrow> ux_opened (after (stdout_put s) w) ! j = ux_opened w ! j"
  "pr_fds (ux_proc (after (stdout_put s) w)) = pr_fds (ux_proc w)"
  "out_to n w d \<Longrightarrow> m \<noteq> n \<Longrightarrow> ux_files (after (stdout_put s) w) m = ux_files w m"
  using write_other(1) [where fd = 1 and w = w] write_other(2) [where fd = 1 and w = w] write_out(3) [of n w d m] by (simp_all add: stdout_put_def Let_def)

lemma put_line:
  assumes "out_to n w d" and "stdout_mode w = Line_buffered" and "pr_buf (ux_proc w) = []"
  shows "out_to n (after (stdout_put (s @ [newline])) w) (d @ s @ [newline])"
    and "pr_buf (ux_proc (after (stdout_put (s @ [newline])) w)) = []"
    and "stdout_mode (after (stdout_put (s @ [newline])) w) = Line_buffered"
  using write_out(1) [OF assms(1), of "s @ [newline]"] assms(2,3)
  by (simp_all add: stdout_put_def Let_def)

lemma put_full:
  assumes "out_to n w d" and "stdout_mode w = Full_buffered" and "length (pr_buf (ux_proc w) @ s) \<le> BUFSIZ"
  shows "out_to n (after (stdout_put s) w) d"
    and "pr_buf (ux_proc (after (stdout_put s) w)) = pr_buf (ux_proc w) @ s"
    and "stdout_mode (after (stdout_put s) w) = Full_buffered"
  using assms by (simp_all add: stdout_put_def Let_def)

lemma write_out_mode:
  assumes "out_to n w d"
  shows "stdout_mode (after (sys_write 1 bs) w) = stdout_mode w"
  using assms write_out(2) [OF assms, of bs]
  by (auto simp: stdout_mode_def open_file_def out_to_def sys_write_def write_at_def Let_def
      split: option.splits)

section \<open>Nothing is lost\<close>

lemma shuffles_append_left: "zs \<in> shuffles xs ys \<Longrightarrow> zs @ a \<in> shuffles (xs @ a) ys"
proof (induction xs ys arbitrary: zs rule: shuffles.induct)
  case (1 ys)
  then show ?case
    by (induction ys arbitrary: zs) (simp_all add: shuffles_commutes Cons_in_shuffles_rightI)
next
  case (2 x xs)
  then show ?case by simp
next
  case (3 x xs y ys)
  from "3.prems" show ?case
    by (auto dest: "3.IH" intro: Cons_in_shuffles_leftI Cons_in_shuffles_rightI)
qed

lemma shuffles_append_right: "zs \<in> shuffles xs ys \<Longrightarrow> zs @ a \<in> shuffles xs (ys @ a)"
  using shuffles_append_left [of zs ys xs a] by (simp add: shuffles_commutes)

lemma out_run_shuffles:
  assumes "out_to n w (d @ z)" and "z \<in> shuffles p q"
  shows "\<exists>z'. out_to n (after (out_run os) w) (d @ z') \<and>
     z' @ pr_buf (ux_proc (after (out_run os) w)) \<in>
       shuffles (p @ pr_buf (ux_proc w) @ printed os) (q @ written os)"
  using assms
proof (induction os arbitrary: w z p q)
  case Nil
  then show ?case by (intro exI [of _ z]) (simp add: shuffles_append_left)
next
  case (Cons x os)
  show ?case
  proof (cases x)
    case (Printf s)
    obtain f b where fb: "pr_buf (ux_proc w) @ s = f @ b" "out_to n (after (stdout_put s) w) (d @ z @ f)"
      "pr_buf (ux_proc (after (stdout_put s) w)) = b"
      using put_out [OF Cons.prems(1), of s] by auto
    have e: "pr_buf (ux_proc w) @ s @ r = f @ b @ r" for r using fb(1) by (metis append.assoc)
    from Cons.IH [OF fb(2) shuffles_append_left [OF Cons.prems(2)]] fb(3) Printf
    show ?thesis by (simp add: e)
  next
    case (Write1 s)
    from write_out(1) [OF Cons.prems(1), of s] have "out_to n (after (sys_write 1 s) w) (d @ z @ s)" by simp
    from Cons.IH [OF this shuffles_append_right [OF Cons.prems(2)]] Write1 write_out(2) [OF Cons.prems(1)]
    show ?thesis by simp
  next
    case Fflush
    from flush_out(1) [OF Cons.prems(1)] have "out_to n (after stdout_flush w) (d @ z @ pr_buf (ux_proc w))" by simp
    from Cons.IH [OF this shuffles_append_left [OF Cons.prems(2)]] Fflush flush_out(2) [OF Cons.prems(1)]
    show ?thesis by simp
  qed
qed

lemma main_out: "snd (run_main m w) = after stdout_flush (after m w)"
  by (simp add: run_main_def case_prod_beta)

text \<open>
  Whatever the buffering, at the end of the program the file has its old content, followed by
  everything printed and everything written, no byte lost, doubled or moved within its
  source: only how the two are interleaved is open.
\<close>

theorem stdout_loses_nothing:
  assumes "out_to n w d" and "pr_buf (ux_proc w) = []"
  shows "\<exists>z \<in> shuffles (printed os) (written os). ux_files (snd (run_main (out_run os) w)) n = Some (d @ z)"
proof -
  have "out_to n w (d @ [])" using assms(1) by simp
  from out_run_shuffles [OF this, of "[]" "[]" os] obtain z where
    z: "out_to n (after (out_run os) w) (d @ z)"
    "z @ pr_buf (ux_proc (after (out_run os) w)) \<in> shuffles (printed os) (written os)"
    using assms(2) by auto
  from flush_out(1) [OF z(1)] have "ux_files (snd (run_main (out_run os) w)) n =
      Some (d @ z @ pr_buf (ux_proc (after (out_run os) w)))"
    by (simp add: main_out out_to_file)
  with z(2) show ?thesis by blast
qed

theorem stdout_loses_nothing_witness:
  "\<exists>z \<in> shuffles ''ab'' ''c''. ux_files (snd (run_main (out_run [Printf ''a'', Write1 ''c'', Printf ''b'']) (to_file (\<lambda>_. None) ''x''))) (Path ''x'') = Some z"
  using stdout_loses_nothing [of "Path ''x''" "to_file (\<lambda>_. None) ''x''" "[]" "[Printf ''a'', Write1 ''c'', Printf ''b'']"]
  by (simp add: to_file_def out_to_def fd_get_def)

section \<open>In which order\<close>

definition is_lines :: "out_op \<Rightarrow> bool" where
  "is_lines x = (case x of Printf s \<Rightarrow> s \<noteq> [] \<and> last s = newline | _ \<Rightarrow> True)"

lemma out_run_line:
  assumes "out_to n w d" and "stdout_mode w = Line_buffered" and "pr_buf (ux_proc w) = []"
    and "\<forall>x \<in> set os. is_lines x"
  shows "out_to n (after (out_run os) w) (d @ in_order os) \<and> pr_buf (ux_proc (after (out_run os) w)) = []"
  using assms
proof (induction os arbitrary: w d)
  case (Cons x os)
  show ?case
  proof (cases x)
    case (Printf s)
    then have "s \<noteq> []" "last s = newline" using Cons.prems(4) by (simp_all add: is_lines_def)
    then have s: "s = butlast s @ [newline]" by (metis append_butlast_last_id)
    from put_line [OF Cons.prems(1-3), of "butlast s"] have
      "out_to n (after (stdout_put s) w) (d @ s)" "pr_buf (ux_proc (after (stdout_put s) w)) = []"
      "stdout_mode (after (stdout_put s) w) = Line_buffered"
      using s by simp_all
    from Cons.IH [OF this(1,3,2)] Cons.prems(4) Printf show ?thesis by simp
  next
    case (Write1 s)
    from Cons.IH [OF write_out(1) [OF Cons.prems(1), of s]] Cons.prems write_out_mode [OF Cons.prems(1)]
      write_out(2) [OF Cons.prems(1)] Write1 show ?thesis by simp
  next
    case Fflush
    from Cons.IH [OF flush_out(1) [OF Cons.prems(1)]] Cons.prems flush_out(2,3) [OF Cons.prems(1)] Fflush
    show ?thesis by simp
  qed
qed simp

lemma out_run_full:
  assumes "out_to n w d" and "stdout_mode w = Full_buffered" and "Fflush \<notin> set os"
    and "length (pr_buf (ux_proc w)) + length (printed os) \<le> BUFSIZ"
  shows "out_to n (after (out_run os) w) (d @ written os) \<and>
     pr_buf (ux_proc (after (out_run os) w)) = pr_buf (ux_proc w) @ printed os"
  using assms
proof (induction os arbitrary: w d)
  case (Cons x os)
  show ?case
  proof (cases x)
    case (Printf s)
    then have "length (pr_buf (ux_proc w) @ s) \<le> BUFSIZ" using Cons.prems(4) by simp
    note p = put_full [OF Cons.prems(1,2) this]
    from Cons.IH [OF p(1,3)] p(2) Cons.prems(3,4) Printf show ?thesis by simp
  next
    case (Write1 s)
    from Cons.IH [OF write_out(1) [OF Cons.prems(1), of s]] Cons.prems write_out_mode [OF Cons.prems(1)]
      write_out(2) [OF Cons.prems(1)] Write1 show ?thesis by simp
  qed (use Cons.prems(3) in simp)
qed simp

lemma fork_out:
  assumes "out_to n w d"
  shows "out_to n (after fork_and_exit w) (d @ pr_buf (ux_proc w) @ pr_buf (ux_proc w))"
proof -
  let ?v = "after stdout_flush w" and ?u = "\<lambda>v. v\<lparr>ux_proc := ux_proc w\<rparr>"
  have f: "out_to n ?v (d @ pr_buf (ux_proc w))" by (rule flush_out(1) [OF assms])
  have "pr_fds (ux_proc ?v) = pr_fds (ux_proc w)"
    using write_out(2) [OF assms] by (simp add: stdout_flush_def)
  then have "out_to n (?u ?v) (d @ pr_buf (ux_proc w))" using f by (simp add: out_to_def)
  from flush_out(1) [OF this] show ?thesis by (simp add: fork_and_exit_def)
qed

text \<open>
  On a terminal a program that prints whole lines shows everything in the order of its
  statements, also when it forks before it ends. Into a file, and without \<open>fflush\<close>, all that
  it wrote with \<open>write\<close> stands before all that it printed, and a \<open>fork\<close> before the end
  doubles what it printed, not what it wrote.
\<close>

theorem fork_doubles_buffer:
  assumes "out_to n w d" and "pr_buf (ux_proc w) = []"
  shows "(stdout_mode w = Line_buffered \<and> (\<forall>x \<in> set os. is_lines x) \<longrightarrow>
       ux_files (snd (run_main (out_run os) w)) n = Some (d @ in_order os) \<and>
       ux_files (after (out_run os \<bind> (\<lambda>_. fork_and_exit)) w) n = Some (d @ in_order os)) \<and>
     (stdout_mode w = Full_buffered \<and> Fflush \<notin> set os \<and> length (printed os) \<le> BUFSIZ \<longrightarrow>
       ux_files (snd (run_main (out_run os) w)) n = Some (d @ written os @ printed os) \<and>
       ux_files (after (out_run os \<bind> (\<lambda>_. fork_and_exit)) w) n =
         Some (d @ written os @ printed os @ printed os))"
proof -
  have line: "ux_files (snd (run_main (out_run os) w)) n = Some (d @ in_order os) \<and>
      ux_files (after (out_run os \<bind> (\<lambda>_. fork_and_exit)) w) n = Some (d @ in_order os)"
    if "stdout_mode w = Line_buffered" "\<forall>x \<in> set os. is_lines x"
  proof -
    note l = out_run_line [OF assms(1) that(1) assms(2) that(2)]
    from out_to_file [OF flush_out(1) [OF conjunct1 [OF l]]] out_to_file [OF fork_out [OF conjunct1 [OF l]]] l
    show ?thesis by (simp add: main_out)
  qed
  have full: "ux_files (snd (run_main (out_run os) w)) n = Some (d @ written os @ printed os) \<and>
      ux_files (after (out_run os \<bind> (\<lambda>_. fork_and_exit)) w) n = Some (d @ written os @ printed os @ printed os)"
    if "stdout_mode w = Full_buffered" "Fflush \<notin> set os" "length (printed os) \<le> BUFSIZ"
  proof -
    have "length (pr_buf (ux_proc w)) + length (printed os) \<le> BUFSIZ" using that(3) assms(2) by simp
    note l = out_run_full [OF assms(1) that(1,2) this]
    from out_to_file [OF flush_out(1) [OF conjunct1 [OF l]]] out_to_file [OF fork_out [OF conjunct1 [OF l]]] l assms(2)
    show ?thesis by (simp add: main_out)
  qed
  from line full show ?thesis by blast
qed

end
