(* ===== verification/Stdio_Demos.thy ===== *)
theory Stdio_Demos
  imports Stdio
begin

text \<open>
  The programs of 1010, 1012, 1017 and 1019 on files, descriptors and the buffer of \<open>stdout\<close>,
  statement by statement, and what the terminal and the files hold when they have ended.
  \<open>err\<close> is the text \<open>strerror\<close> gives for the error number after a failing call; \<open>umask\<close> and the
  permission bits are not modelled.
\<close>

abbreviation line :: "string \<Rightarrow> byte list" where
  "line s \<equiv> s @ [newline]"

definition perror :: "string \<Rightarrow> string \<Rightarrow> unit prog" where
  "perror s err = sys_write 2 (line (s @ '': '' @ err))"

section \<open>Where the buffer is: 1012/myfile.c and 1017/myfile1.c\<close>

definition hello_calls :: "unit prog" where
  "hello_calls = do {
     stdout_put (line ''hello printf'');
     stdout_put (line ''hello fprintf'');
     stdout_put (line ''hello fputs'');
     sys_write 1 (line ''hello write'')
   }"

definition buffer_main :: "int prog" where
  "buffer_main = do { hello_calls; State_Monad.return 0 }"

definition fork_main :: "unit prog" where
  "fork_main = do { hello_calls; fork_and_exit }"

definition hello_ops :: "out_op list" where
  "hello_ops = [Printf (line ''hello printf''), Printf (line ''hello fprintf''), Printf (line ''hello fputs''),
     Write1 (line ''hello write'')]"

lemma hello_calls_ops: "after hello_calls w = after (out_run hello_ops) w"
  by (simp add: hello_calls_def hello_ops_def)

definition hello_printed :: "byte list" where
  "hello_printed = line ''hello printf'' @ line ''hello fprintf'' @ line ''hello fputs''"

lemma hello_ops_facts:
  "printed hello_ops = hello_printed" "written hello_ops = line ''hello write''"
  "in_order hello_ops = hello_printed @ line ''hello write''" "\<forall>x \<in> set hello_ops. is_lines x"
  "Fflush \<notin> set hello_ops" "length hello_printed \<le> BUFSIZ"
  by (simp_all add: hello_ops_def hello_printed_def is_lines_def BUFSIZ_def)

lemma terminal_out:
  "out_to Tty (on_terminal fs denied) []" "pr_buf (ux_proc (on_terminal fs denied)) = []"
  "stdout_mode (on_terminal fs denied) = Line_buffered"
  by (simp_all add: on_terminal_def out_to_def stdout_mode_def open_file_def tty_file_def fd_get_def)

lemma to_file_out:
  "out_to (Path p) (to_file fs p) []" "pr_buf (ux_proc (to_file fs p)) = []"
  "stdout_mode (to_file fs p) = Full_buffered"
  by (simp_all add: to_file_def out_to_def stdout_mode_def open_file_def fd_get_def)

text \<open>
  On the terminal both programs show their four lines in the order of the calls. Redirected
  into a file, the line written by \<open>write\<close> comes first; and with the \<open>fork\<close> after the last
  call the three lines printed through the C library are in the file twice, the one written
  by the system call once.
\<close>

theorem fork_main_output:
  "ux_files (snd (run_main buffer_main (on_terminal fs denied))) Tty = Some (hello_printed @ line ''hello write'') \<and>
   ux_files (after fork_main (on_terminal fs denied)) Tty = Some (hello_printed @ line ''hello write'') \<and>
   ux_files (snd (run_main buffer_main (to_file fs p))) (Path p) = Some (line ''hello write'' @ hello_printed) \<and>
   ux_files (after fork_main (to_file fs p)) (Path p) = Some (line ''hello write'' @ hello_printed @ hello_printed)"
proof -
  have b: "after buffer_main w = after (out_run hello_ops) w" for w
    by (simp add: buffer_main_def hello_calls_ops)
  have f: "after fork_main w = after (out_run hello_ops \<bind> (\<lambda>_. fork_and_exit)) w" for w
    by (simp add: fork_main_def hello_calls_ops)
  note t = fork_doubles_buffer [OF terminal_out(1,2), where os = hello_ops]
  note r = fork_doubles_buffer [OF to_file_out(1,2), where os = hello_ops]
  from t r show ?thesis
    by (simp add: terminal_out to_file_out hello_ops_facts main_out b f del: run_bind)
qed

section \<open>Redirection: 1012/myfile1.c, 1012/myfile2.c and 1019/myfile.cc\<close>

definition log_txt :: string where "log_txt = ''log.txt''"

definition rd_only :: flags where
  "rd_only = \<lparr>O_WRONLY = False, O_CREAT = False, O_TRUNC = False, O_APPEND = False\<rparr>"

definition wr_trunc :: flags where
  "wr_trunc = \<lparr>O_WRONLY = True, O_CREAT = True, O_TRUNC = True, O_APPEND = False\<rparr>"

definition wr_append :: flags where
  "wr_append = \<lparr>O_WRONLY = True, O_CREAT = True, O_TRUNC = False, O_APPEND = True\<rparr>"

definition out_redirect_main :: "string \<Rightarrow> int prog" where
  "out_redirect_main err = do {
     sys_close 1;
     fd \<leftarrow> sys_open log_txt wr_trunc;
     if fd < 0 then do { perror ''open'' err; State_Monad.return 1 }
     else do {
       stdout_put (line (''fd: '' @ show_int fd));
       stdout_flush;
       sys_close fd;
       State_Monad.return 0
     }
   }"

text \<open>1019 has the same program without \<open>fflush\<close>.\<close>

definition lost_main :: "string \<Rightarrow> int prog" where
  "lost_main err = do {
     sys_close 1;
     fd \<leftarrow> sys_open log_txt wr_trunc;
     if fd < 0 then do { perror ''open'' err; State_Monad.return 0 }
     else do {
       stdout_put (line (''hello world: '' @ show_int fd));
       sys_close fd;
       State_Monad.return 0
     }
   }"

definition append_main :: "string \<Rightarrow> int prog" where
  "append_main err = do {
     sys_close 1;
     fd \<leftarrow> sys_open log_txt wr_append;
     if fd < 0 then do { perror ''open'' err; State_Monad.return 1 }
     else do {
       stdout_put (line ''you can see me, success'');
       State_Monad.return 0
     }
   }"

definition dup2_main :: "string \<Rightarrow> string list \<Rightarrow> int prog" where
  "dup2_main err argv =
     (if length argv \<noteq> 2 then State_Monad.return 2
      else do {
        fd \<leftarrow> sys_open log_txt wr_trunc;
        if fd < 0 then do { perror ''open'' err; State_Monad.return 1 }
        else do {
          sys_dup2 fd 1;
          stdout_put (line (c_str (argv ! 1)));
          sys_close fd;
          State_Monad.return 0
        }
      })"

text \<open>
  The world after one of these programs: its exit status, the terminal and the file.
\<close>

definition outcome :: "int prog \<Rightarrow> unix \<Rightarrow> int \<times> byte list option \<times> byte list option" where
  "outcome m w =
     (let (status, v) = run_main m w in (status, ux_files v Tty, ux_files v (Path log_txt)))"

definition old_log :: "(string \<Rightarrow> byte list option) \<Rightarrow> byte list" where
  "old_log fs = (case fs log_txt of None \<Rightarrow> [] | Some d \<Rightarrow> d)"

text \<open>After \<open>close(1)\<close> the next file opened is descriptor 1.\<close>

definition redirected :: "flags \<Rightarrow> (string \<Rightarrow> byte list option) \<Rightarrow> string list \<Rightarrow> unix" where
  "redirected fl fs denied =
     \<lparr>ux_files = (\<lambda>n. case n of Tty \<Rightarrow> Some []
                | Path p \<Rightarrow> if p = log_txt then Some (if O_TRUNC fl then [] else old_log fs) else fs p),
      ux_opened = [tty_file, \<lparr>of_node = Path log_txt, of_pos = 0, of_append = O_APPEND fl,
        of_read = \<not> O_WRONLY fl, of_write = O_WRONLY fl\<rparr>], ux_denied = denied,
      ux_proc = \<lparr>pr_fds = [Some 0, Some 1, Some 0], pr_mode = None, pr_buf = []\<rparr>\<rparr>"

lemma files_upd: "(\<lambda>n. case n of Tty \<Rightarrow> a | Path p \<Rightarrow> f p)(Path q \<mapsto> d) =
    (\<lambda>n. case n of Tty \<Rightarrow> a | Path p \<Rightarrow> if p = q then Some d else f p)"
  by (auto simp: fun_eq_iff split: node.splits)

lemma open_as_1:
  assumes "log_txt \<notin> set denied" and "O_CREAT fl"
  shows "run_state (sys_open log_txt fl) (after (sys_close 1) (on_terminal fs denied)) = (1, redirected fl fs denied)"
  using assms by (cases "fs log_txt") (simp_all add: sys_open_def sys_close_def on_terminal_def with_fds_def
      fd_set_def lowest_free_def redirected_def Let_def files_upd old_log_def cong: if_cong)

lemma denied_open:
  assumes "log_txt \<in> set denied"
  shows "run_state (sys_open log_txt fl) (after (sys_close 1) (on_terminal fs denied)) =
     (-1, after (sys_close 1) (on_terminal fs denied))"
  using assms by (simp add: sys_open_def sys_close_def on_terminal_def with_fds_def Let_def)

lemma redirected_facts:
  "stdout_mode (redirected fl fs denied) = Full_buffered" "pr_buf (ux_proc (redirected fl fs denied)) = []"
  "pr_fds (ux_proc (redirected fl fs denied)) = [Some 0, Some 1, Some 0]"
  "ux_files (redirected fl fs denied) Tty = Some []"
  "O_WRONLY fl \<Longrightarrow> O_TRUNC fl \<Longrightarrow> out_to (Path log_txt) (redirected fl fs denied) []"
  "O_WRONLY fl \<Longrightarrow> O_APPEND fl \<Longrightarrow> \<not> O_TRUNC fl \<Longrightarrow> out_to (Path log_txt) (redirected fl fs denied) (old_log fs)"
  by (simp_all add: redirected_def stdout_mode_def open_file_def fd_get_def tty_file_def out_to_def)

lemma put_small: "stdout_mode w = Full_buffered \<Longrightarrow> length (pr_buf (ux_proc w) @ s) \<le> BUFSIZ \<Longrightarrow>
   run_state (stdout_put s) w = ((), set_stdout Full_buffered (pr_buf (ux_proc w) @ s) w)"
  by (simp add: stdout_put_def Let_def)

lemma run_flush: "run_state stdout_flush w = ((), set_stdout (stdout_mode w) [] (after (sys_write 1 (pr_buf (ux_proc w))) w))"
  by (simp add: stdout_flush_def)

lemma flush_nothing: "out_to n w d \<Longrightarrow> out_to n (after (sys_write 1 []) w) d"
  using write_out(1) [of n w d "[]"] by simp

lemma outcome_run: "outcome m w = (fst (run_state m w), ux_files (after stdout_flush (after m w)) Tty,
    ux_files (after stdout_flush (after m w)) (Path log_txt))"
  by (simp add: outcome_def run_main_def case_prod_beta)

lemma close_keeps: "ux_files (after (sys_close fd) w) = ux_files w"
  "pr_buf (ux_proc (after (sys_close fd) w)) = pr_buf (ux_proc w)"
  "stdout_mode (after (sys_close fd) (set_stdout m b w)) = m"
  by (simp_all add: sys_close_def with_fds_def stdout_mode_def set_stdout_def)

text \<open>With descriptor 1 closed, what is in the buffer goes nowhere.\<close>

lemma closed_write: "run_state (sys_write 1 bs) (after (sys_close 1) w) = ((), after (sys_close 1) w)"
  by (simp add: sys_write_def sys_close_def with_fds_def)

lemma out_redirect_outcome:
  assumes "log_txt \<notin> set denied"
  shows "outcome (out_redirect_main err) (on_terminal fs denied) = (0, Some [], Some (line ''fd: 1''))"
proof -
  let ?r = "redirected wr_trunc fs denied" and ?s = "line ''fd: 1''"
  have o: "out_to (Path log_txt) ?r []" by (simp add: redirected_facts wr_trunc_def)
  have sm: "length ?s \<le> BUFSIZ" by (simp add: BUFSIZ_def)
  have "show_int 1 = ''1''" by code_simp
  then have p: "after (out_redirect_main err) (on_terminal fs denied) =
      after (sys_close 1) (set_stdout Full_buffered [] (after (sys_write 1 ?s) (set_stdout Full_buffered ?s ?r)))"
    "fst (run_state (out_redirect_main err) (on_terminal fs denied)) = 0"
    using open_as_1 [OF assms, of wr_trunc fs] put_small [of ?r ?s] sm
    by (simp_all add: out_redirect_main_def redirected_facts run_flush wr_trunc_def)
  have "out_to (Path log_txt) (after (sys_write 1 ?s) (set_stdout Full_buffered ?s ?r)) ?s"
    using write_out(1) [of "Path log_txt" "set_stdout Full_buffered ?s ?r" "[]" ?s] o by simp
  moreover have "ux_files (after (sys_write 1 ?s) (set_stdout Full_buffered ?s ?r)) Tty = Some []"
    using write_out(3) [of "Path log_txt" "set_stdout Full_buffered ?s ?r" "[]" Tty ?s] o by (simp add: redirected_facts)
  ultimately show ?thesis
    unfolding outcome_run p by (simp add: run_flush closed_write close_keeps out_to_file del: One_nat_def)
qed

lemma lost_outcome:
  assumes "log_txt \<notin> set denied"
  shows "outcome (lost_main err) (on_terminal fs denied) = (0, Some [], Some [])"
proof -
  let ?r = "redirected wr_trunc fs denied" and ?s = "line ''hello world: 1''"
  have o: "out_to (Path log_txt) ?r []" by (simp add: redirected_facts wr_trunc_def)
  have sm: "length ?s \<le> BUFSIZ" by (simp add: BUFSIZ_def)
  have "show_int 1 = ''1''" by code_simp
  then have "after (lost_main err) (on_terminal fs denied) = after (sys_close 1) (set_stdout Full_buffered ?s ?r)"
    "fst (run_state (lost_main err) (on_terminal fs denied)) = 0"
    using open_as_1 [OF assms, of wr_trunc fs] put_small [of ?r ?s] sm
    by (simp_all add: lost_main_def redirected_facts wr_trunc_def)
  then show ?thesis
    unfolding outcome_run using out_to_file [OF o]
    by (simp add: run_flush closed_write close_keeps redirected_facts del: One_nat_def)
qed

lemma append_outcome:
  assumes "log_txt \<notin> set denied"
  shows "outcome (append_main err) (on_terminal fs denied) =
     (0, Some [], Some (old_log fs @ line ''you can see me, success''))"
proof -
  let ?r = "redirected wr_append fs denied" and ?s = "line ''you can see me, success''"
  have o: "out_to (Path log_txt) ?r (old_log fs)" by (simp add: redirected_facts wr_append_def)
  have sm: "length ?s \<le> BUFSIZ" by (simp add: BUFSIZ_def)
  have p: "after (append_main err) (on_terminal fs denied) = set_stdout Full_buffered ?s ?r"
    "fst (run_state (append_main err) (on_terminal fs denied)) = 0"
    using open_as_1 [OF assms, of wr_append fs] put_small [of ?r ?s] sm
    by (simp_all add: append_main_def redirected_facts wr_append_def)
  have "out_to (Path log_txt) (set_stdout Full_buffered ?s ?r) (old_log fs)" using o by simp
  from write_out(1) [OF this, of ?s] write_out(3) [OF this, of Tty ?s] show ?thesis
    unfolding outcome_run p by (simp add: run_flush out_to_file redirected_facts del: One_nat_def)
qed

lemma denied_outcome:
  assumes "log_txt \<in> set denied"
  shows "outcome (out_redirect_main err) (on_terminal fs denied) = (1, Some (line (''open: '' @ err)), fs log_txt)"
    "outcome (lost_main err) (on_terminal fs denied) = (0, Some (line (''open: '' @ err)), fs log_txt)"
    "outcome (append_main err) (on_terminal fs denied) = (1, Some (line (''open: '' @ err)), fs log_txt)"
proof -
  let ?w = "after (sys_close 1) (on_terminal fs denied)"
  let ?v = "after (perror ''open'' err) ?w"
  have b: "pr_buf (ux_proc ?v) = []" "ux_files ?v Tty = Some (line (''open: '' @ err))"
    "ux_files ?v (Path log_txt) = fs log_txt" "run_state (sys_write 1 []) ?v = ((), ?v)"
    by (simp_all add: perror_def sys_write_def sys_close_def with_fds_def on_terminal_def fd_get_def fd_set_def
        write_at_def Let_def tty_file_def splice_bytes_def)
  then show "outcome (out_redirect_main err) (on_terminal fs denied) = (1, Some (line (''open: '' @ err)), fs log_txt)"
    "outcome (lost_main err) (on_terminal fs denied) = (0, Some (line (''open: '' @ err)), fs log_txt)"
    "outcome (append_main err) (on_terminal fs denied) = (1, Some (line (''open: '' @ err)), fs log_txt)"
    by (simp_all add: outcome_run out_redirect_main_def lost_main_def append_main_def denied_open [OF assms]
        run_flush del: One_nat_def)
qed

text \<open>\<open>dup2_main\<close> opens the file as descriptor 3 and keeps it open as 1 after closing 3.\<close>

lemma dup2_outcome:
  assumes "log_txt \<notin> set denied" and "length argv = 2" and "length (argv ! 1) < BUFSIZ"
  shows "outcome (dup2_main err argv) (on_terminal fs denied) = (0, Some [], Some (line (c_str (argv ! 1))))"
proof -
  let ?s = "line (c_str (argv ! 1))"
  let ?f = "\<lparr>of_node = Path log_txt, of_pos = 0, of_append = False, of_read = False, of_write = True\<rparr>"
  let ?w = "\<lambda>fds. \<lparr>ux_files = (\<lambda>n. case n of Tty \<Rightarrow> Some [] | Path p \<Rightarrow> if p = log_txt then Some [] else fs p),
      ux_opened = [tty_file, ?f], ux_denied = denied, ux_proc = \<lparr>pr_fds = fds, pr_mode = None, pr_buf = []\<rparr>\<rparr>"
  have op: "run_state (sys_open log_txt wr_trunc) (on_terminal fs denied) = (3, ?w [Some 0, Some 0, Some 0, Some 1])"
    using assms(1) by (simp add: sys_open_def on_terminal_def with_fds_def fd_set_def lowest_free_def
        Let_def files_upd wr_trunc_def)
  have du: "run_state (sys_dup2 3 1) (?w [Some 0, Some 0, Some 0, Some 1]) = ((), ?w [Some 0, Some 1, Some 0, Some 1])"
    by (simp add: sys_dup2_def with_fds_def fd_get_def fd_set_def)
  let ?u = "?w [Some 0, Some 1, Some 0, Some 1]" and ?c = "?w [Some 0, Some 1, Some 0, None]"
  have m: "stdout_mode ?u = Full_buffered" by (simp add: stdout_mode_def open_file_def fd_get_def)
  have sm: "length (pr_buf (ux_proc ?u) @ ?s) \<le> BUFSIZ"
    using length_c_str_le [of "argv ! 1"] assms(3) by simp
  have cl: "run_state (sys_close 3) (set_stdout Full_buffered ?s ?u) = ((), set_stdout Full_buffered ?s ?c)"
    by (simp add: sys_close_def with_fds_def set_stdout_def fd_set_def)
  have p: "after (dup2_main err argv) (on_terminal fs denied) = set_stdout Full_buffered ?s ?c"
    "fst (run_state (dup2_main err argv) (on_terminal fs denied)) = 0"
    using assms(2) op du put_small [OF m sm] cl by (simp_all add: dup2_main_def del: One_nat_def)
  have "out_to (Path log_txt) (set_stdout Full_buffered ?s ?c) []" by (simp add: out_to_def fd_get_def)
  from write_out(1) [OF this, of ?s] write_out(3) [OF this, of Tty ?s] show ?thesis
    unfolding outcome_run p by (simp add: run_flush out_to_file del: One_nat_def)
qed

text \<open>
  C38. Closing descriptor 1 and opening a file makes the file the standard output, and so does
  \<open>dup2\<close>: nothing reaches the terminal. With \<open>O_APPEND\<close> the old content stays in front. The program of
  1019 closes the descriptor before \<open>stdout\<close> is flushed: its line reaches neither file nor
  terminal, and the exit status is 0 all the same. When the file cannot be opened \<open>perror\<close>
  still shows the reason, and the file stays as it was.
\<close>

theorem redirections:
  assumes "length argv = 2" and "length (argv ! 1) < BUFSIZ"
  shows "(log_txt \<notin> set denied \<longrightarrow>
      outcome (out_redirect_main err) (on_terminal fs denied) = (0, Some [], Some (line ''fd: 1'')) \<and>
      outcome (append_main err) (on_terminal fs denied) = (0, Some [], Some (old_log fs @ line ''you can see me, success'')) \<and>
      outcome (dup2_main err argv) (on_terminal fs denied) = (0, Some [], Some (line (c_str (argv ! 1)))) \<and>
      outcome (lost_main err) (on_terminal fs denied) = (0, Some [], Some [])) \<and>
    (log_txt \<in> set denied \<longrightarrow>
      outcome (out_redirect_main err) (on_terminal fs denied) = (1, Some (line (''open: '' @ err)), fs log_txt) \<and>
      outcome (append_main err) (on_terminal fs denied) = (1, Some (line (''open: '' @ err)), fs log_txt) \<and>
      outcome (lost_main err) (on_terminal fs denied) = (0, Some (line (''open: '' @ err)), fs log_txt))"
  by (intro conjI impI out_redirect_outcome append_outcome dup2_outcome lost_outcome denied_outcome assms)

theorem redirections_witness:
  "outcome (dup2_main [] [''./myfile'', ''hello'']) (on_terminal (\<lambda>_. None) []) = (0, Some [], Some (line ''hello'')) \<and>
   outcome (lost_main ''Permission denied'') (on_terminal (\<lambda>_. None) [log_txt]) =
     (0, Some (line ''open: Permission denied''), None)"
  using redirections [of "[''./myfile'', ''hello'']" "[]" "[]" "\<lambda>_. None"]
    redirections [of "[''./myfile'', ''hello'']" "[log_txt]" "''Permission denied''" "\<lambda>_. None"]
  by (simp add: BUFSIZ_def nul_def)

section \<open>Standard output and standard error: 1019/myfile.cc\<close>

text \<open>\<open>std::cout\<close> writes through \<open>stdout\<close>, and \<open>std::endl\<close> flushes it; \<open>std::cerr\<close> is not buffered.\<close>

definition stderr_main :: "string \<Rightarrow> int prog" where
  "stderr_main err = do {
     stdout_put (line ''hello printf'');
     stdout_put (line ''hello fprintf'');
     perror ''hello perror'' err;
     sys_write 1 (line ''hello write 1'');
     sys_write 2 (line ''hello write 2'');
     stdout_put (line ''hello cout'');
     stdout_flush;
     sys_write 2 (line ''hello cerr'');
     State_Monad.return 0
   }"

text \<open>Into a file goes what descriptor 1 gets, and only that, in the order of the flushes.\<close>

lemma stderr_split:
  "ux_files (snd (run_main (stderr_main err) (to_file fs log_txt))) Tty =
     Some (line (''hello perror: '' @ err) @ line ''hello write 2'' @ line ''hello cerr'') \<and>
   ux_files (snd (run_main (stderr_main err) (to_file fs log_txt))) (Path log_txt) =
     Some (line ''hello write 1'' @ line ''hello printf'' @ line ''hello fprintf'' @ line ''hello cout'')"
  by (simp add: stderr_main_def run_main_def to_file_def sys_write_def write_at_def stdout_put_def
      stdout_flush_def set_stdout_def stdout_mode_def open_file_def fd_get_def tty_file_def splice_bytes_def
      perror_def Let_def BUFSIZ_def)

section \<open>Leaving without a flush: 0914/myproc.c\<close>

text \<open>The text has no newline, and \<open>_exit\<close> does not flush.\<close>

definition asked :: string where
  "asked = utf8 [0xE4, 0xBD, 0xA0, 0xE5, 0x8F, 0xAF, 0xE4, 0xBB, 0xA5, 0xE7, 0x9C, 0x8B, 0xE8, 0xA7, 0x81,
     0xE6, 0x88, 0x91, 0xE5, 0x90, 0x97, 0xEF, 0xBC, 0x9F]"

definition exit_main :: "int prog" where
  "exit_main = do { stdout_put asked; State_Monad.return 13 }"

lemma exit_main_silent:
  "ux_files (after exit_main (on_terminal fs denied)) Tty = Some [] \<and>
   ux_files (snd (run_main exit_main (on_terminal fs denied))) Tty = Some asked"
proof -
  have "whole_lines asked = []" "last_line asked = asked" by code_simp+
  then show ?thesis
    by (simp add: exit_main_def run_main_def on_terminal_def sys_write_def write_at_def stdout_put_def
      stdout_flush_def set_stdout_def stdout_mode_def open_file_def fd_get_def tty_file_def splice_bytes_def
      Let_def)
qed

text \<open>
  The write through a null pointer, undefined in C, kills the process; like \<open>_exit\<close> this flushes nothing. The
  lines after it are never reached.
\<close>

definition crash_main :: "unit prog" where
  "crash_main = do {
     stdout_put (line ''hello world1'');
     stdout_put (line ''hello world1'');
     stdout_put (line ''hello world1'');
     stdout_put (line ''hello world1'')
   }"

lemma crash_main_ops: "after crash_main w = after (out_run (replicate 4 (Printf (line ''hello world1'')))) w"
  by (simp add: crash_main_def numeral_eq_Suc)

lemma crash_text: "in_order (replicate n (Printf l)) = concat (replicate n l)"
  "printed (replicate n (Printf l)) = concat (replicate n l)" "written (replicate n (Printf l)) = []"
  by (induction n) simp_all

text \<open>
  On a terminal the four lines are there when the process is killed; into a file none of them is.
\<close>

theorem crash_loses_buffer:
  "ux_files (after crash_main (on_terminal fs denied)) Tty = Some (concat (replicate 4 (line ''hello world1''))) \<and>
   ux_files (after crash_main (to_file fs p)) (Path p) = Some []"
proof
  let ?os = "replicate 4 (Printf (line ''hello world1''))"
  have "\<forall>x \<in> set ?os. is_lines x" by (simp add: is_lines_def)
  from out_run_line [OF terminal_out(1,3,2) this]
  show "ux_files (after crash_main (on_terminal fs denied)) Tty = Some (concat (replicate 4 (line ''hello world1'')))"
    by (simp add: crash_main_ops crash_text out_to_file)
  have "Fflush \<notin> set ?os" by simp
  moreover have "length (pr_buf (ux_proc (to_file fs p))) + length (printed ?os) \<le> BUFSIZ"
    by (simp add: to_file_out(2) crash_text BUFSIZ_def numeral_eq_Suc)
  ultimately have "out_to (Path p) (after (out_run ?os) (to_file fs p)) ([] @ written ?os)"
    using out_run_full [OF to_file_out(1,3)] by blast
  then show "ux_files (after crash_main (to_file fs p)) (Path p) = Some []"
    by (simp add: crash_main_ops crash_text out_to_file)
qed

text \<open>The table of the messages for the error numbers below 150.\<close>

definition strerror_main :: "(nat \<Rightarrow> string) \<Rightarrow> int prog" where
  "strerror_main strerror = do {
     out_run (map (\<lambda>number. Printf (show_nat number @ '': '' @ strerror number @ [newline])) [0..<150]);
     State_Monad.return 0
   }"

lemma in_order_map: "in_order (map (\<lambda>n. Printf (f n)) ns) = concat (map f ns)"
  by (induction ns) simp_all

lemma strerror_main_lines:
  "ux_files (after (strerror_main strerror) (on_terminal fs denied)) Tty =
     Some (concat (map (\<lambda>n. show_nat n @ '': '' @ strerror n @ [newline]) [0..<150]))"
proof -
  let ?os = "map (\<lambda>number. Printf (show_nat number @ '': '' @ strerror number @ [newline])) [0..<150]"
  have "\<forall>x \<in> set ?os. is_lines x" by (auto simp: is_lines_def)
  from conjunct1 [OF out_run_line [OF terminal_out(1,3,2) this]]
  have "ux_files (after (out_run ?os) (on_terminal fs denied)) Tty = Some ([] @ in_order ?os)" by (rule out_to_file)
  then show ?thesis by (simp add: strerror_main_def in_order_map del: map_upt_Suc upt_rec_numeral)
qed

end
