(* ===== verification/Stdio_Read.thy ===== *)
theory Stdio_Read
  imports Stdio_Demos "HOL-Library.Word"
begin

unbundle bit_operations_syntax

text \<open>
  The lessons that read: \<open>fgets\<close> line by line (1010/myfile1.c), \<open>read\<close> into a buffer
  (1010/myfile2.c), the redirection of the standard input (1012/myfile1.c), and the flags
  passed in the bits of an \<open>int\<close> (1010/myfile1.c).
\<close>

section \<open>\<open>fgets\<close>\<close>

fun thru_newline :: "byte list \<Rightarrow> byte list" where
  "thru_newline [] = []"
| "thru_newline (c # s) = (if c = newline then [c] else c # thru_newline s)"

text \<open>What is left of a stream, and a buffer of \<open>n\<close> bytes: the bytes stored before the final zero, and the rest.\<close>

definition fgets :: "nat \<Rightarrow> byte list \<Rightarrow> (byte list \<times> byte list) option" where
  "fgets n s =
     (if s = [] then None
      else let l = thru_newline (take (n - 1) s) in Some (l, drop (length l) s))"

lemma thru_newline_prefix: "thru_newline s @ drop (length (thru_newline s)) s = s"
  by (induction s) auto

lemma thru_newline_take: "take (length (thru_newline (take n s))) s = thru_newline (take n s)"
proof -
  have "take (length (thru_newline u)) u = thru_newline u" for u
    using thru_newline_prefix [of u] by (metis append_eq_conv_conj)
  from this [of "take n s"] show ?thesis
    by (metis length_take min.absorb_iff2 min.commute nle_le take_all take_take thru_newline_prefix)
qed

lemma fgets_split: "fgets n s = Some (l, r) \<Longrightarrow> s = l @ r"
  unfolding fgets_def Let_def using thru_newline_take [of "n - 1" s]
  by (auto split: if_splits) (metis append_take_drop_id)

lemma fgets_bounds:
  assumes "fgets n s = Some (l, r)" and "1 < n"
  shows "l \<noteq> [] \<and> length l < n \<and> newline \<notin> set (butlast l)"
proof -
  have l: "l = thru_newline (take (n - 1) s)" "s \<noteq> []" using assms(1) by (auto simp: fgets_def Let_def split: if_splits)
  have "length (thru_newline u) \<le> length u \<and> (u \<noteq> [] \<longrightarrow> thru_newline u \<noteq> []) \<and>
      newline \<notin> set (butlast (thru_newline u))" for u
    by (induction u) auto
  from this [of "take (n - 1) s"] l assms(2) show ?thesis by auto
qed

section \<open>Copying a file to the standard output: 1010/myfile1.c\<close>

function fgets_copy :: "byte list \<Rightarrow> byte list" where
  "fgets_copy s = (case fgets 64 s of None \<Rightarrow> [] | Some (l, r) \<Rightarrow> c_str l @ fgets_copy r)"
  by pat_completeness auto
termination
proof (relation "measure length", simp)
  fix s x l r
  assume f: "fgets 64 s = Some x" "(l, r) = x"
  then have "s = l @ r" "l \<noteq> []" using fgets_split [of 64 s l r] fgets_bounds [of 64 s l r] by auto
  then show "(r, s) \<in> measure length" by simp
qed

declare fgets_copy.simps [simp del]

text \<open>The exit status and what goes to the two streams; \<open>fopen\<close> gives the content or fails.\<close>

definition cat_main :: "(string \<Rightarrow> byte list option) \<Rightarrow> string \<Rightarrow> string list \<Rightarrow> int \<times> byte list \<times> byte list" where
  "cat_main fopen err argv =
     (if length argv \<noteq> 2 then (1, line ''argv error!'', [])
      else (case fopen (argv ! 1) of
              None \<Rightarrow> (2, [], line (''fopen: '' @ err))
            | Some d \<Rightarrow> (0, fgets_copy d, [])))"

lemma fgets_copy_id: "nul \<notin> set s \<Longrightarrow> fgets_copy s = s"
proof (induction s rule: fgets_copy.induct)
  case (1 s)
  show ?case
  proof (cases "fgets 64 s")
    case None
    then show ?thesis by (subst fgets_copy.simps) (auto simp: fgets_def Let_def split: if_splits)
  next
    case (Some x)
    obtain l r where x: "x = (l, r)" by (cases x)
    with Some have s: "s = l @ r" using fgets_split by simp
    have "fgets_copy r = r" using 1 Some x s by auto
    with Some x s "1.prems" show ?thesis by (subst fgets_copy.simps) simp
  qed
qed

lemma fgets_copy_line:
  assumes "newline \<notin> set a" and "length a < 63"
  shows "fgets_copy (a @ newline # b) = c_str (a @ [newline]) @ fgets_copy b"
proof -
  have t: "thru_newline (a @ newline # u) = a @ [newline]" for u using assms(1) by (induction a) auto
  have "take 63 (a @ newline # b) = a @ newline # take (62 - length a) b"
    using assms(2) by (simp add: take_Cons')
  with t have "fgets 64 (a @ newline # b) = Some (a @ [newline], b)" by (simp add: fgets_def Let_def)
  then show ?thesis by (subst fgets_copy.simps) simp
qed

text \<open>
  The program copies every file without a zero byte unchanged to its standard output, however
  long the lines are: a line that does not fit into the 64 bytes comes in pieces. In a line
  with a zero byte the rest of the line is dropped, the newline with it.
\<close>

theorem cat_copies:
  assumes "length argv = 2" and "fopen (argv ! 1) = Some d"
  shows "(nul \<notin> set d \<longrightarrow> cat_main fopen err argv = (0, d, [])) \<and>
     (\<forall>a b c. d = a @ nul # b @ newline # c \<and> newline \<notin> set (a @ b) \<and> nul \<notin> set (a @ c) \<and>
        length a + length b < 62 \<longrightarrow> cat_main fopen err argv = (0, a @ c, []))"
proof -
  have e: "cat_main fopen err argv = (0, fgets_copy d, [])" using assms by (simp add: cat_main_def)
  have "fgets_copy d = a @ c" if d: "d = a @ nul # b @ newline # c" and nl: "newline \<notin> set (a @ b)"
    and nu: "nul \<notin> set (a @ c)" and le: "length a + length b < 62" for a b c
  proof -
    have nn: "newline \<noteq> nul" by (simp add: newline_def nul_def)
    then have "fgets_copy ((a @ nul # b) @ newline # c) = c_str ((a @ nul # b) @ [newline]) @ fgets_copy c"
      using nl le by (intro fgets_copy_line) auto
    with d nu show ?thesis by (simp add: fgets_copy_id)
  qed
  with e show ?thesis by (auto simp: fgets_copy_id)
qed

theorem cat_copies_witness:
  "cat_main (\<lambda>_. Some (line ''ab'' @ ''c'')) [] [''./myfile'', ''x''] = (0, line ''ab'' @ ''c'', [])"
  using cat_copies [of "[''./myfile'', ''x'']" "\<lambda>_. Some (line ''ab'' @ ''c'')" "line ''ab'' @ ''c''" "[]"]
  by (simp add: nul_def newline_def)

section \<open>\<open>read\<close> into a buffer: 1010/myfile2.c\<close>

text \<open>
  The buffer of 64 bytes is cleared and \<open>read\<close> may fill all of it; \<open>printf\<close> with \<open>%s\<close> then reads on
  behind it, which is \<open>None\<close>.
\<close>

definition read_buffer :: "byte list \<Rightarrow> byte list" where
  "read_buffer got = got @ replicate (64 - length got) nul"

definition read_main :: "string \<Rightarrow> int option prog" where
  "read_main err = do {
     fd \<leftarrow> sys_open log_txt rd_only;
     if fd < 0 then do { perror ''open'' err; State_Monad.return (Some 1) }
     else do {
       stdout_put (line (''open success, fd: '' @ show_int fd));
       got \<leftarrow> sys_read (nat fd) 64;
       if nul \<in> set (read_buffer got) then do {
         stdout_put (c_str (read_buffer got));
         sys_close fd;
         State_Monad.return (Some 0)
       }
       else State_Monad.return None
     }
   }"

lemma open_3:
  assumes "fs log_txt = Some d"
  shows "run_state (sys_open log_txt rd_only) (on_terminal fs []) =
     (3, (on_terminal fs [])\<lparr>ux_files := (\<lambda>n. case n of Tty \<Rightarrow> Some [] | Path p \<Rightarrow> fs p),
        ux_opened := [tty_file, \<lparr>of_node = Path log_txt, of_pos = 0, of_append = False, of_read = True, of_write = False\<rparr>],
        ux_proc := \<lparr>pr_fds = [Some 0, Some 0, Some 0, Some 1], pr_mode = None, pr_buf = []\<rparr>\<rparr>)"
proof -
  have "(\<lambda>p. if p = log_txt then Some d else fs p) = fs" using assms by auto
  then show ?thesis
    using assms by (simp add: sys_open_def on_terminal_def with_fds_def fd_set_def lowest_free_def Let_def
        files_upd rd_only_def)
qed

text \<open>Reading and closing other descriptors leaves the output alone.\<close>

lemma out_to_read:
  assumes "out_to n w d" and "fd_get fd (pr_fds (ux_proc w)) \<noteq> fd_get 1 (pr_fds (ux_proc w))"
  shows "out_to n (after (sys_read fd k) w) d" and "ux_proc (after (sys_read fd k) w) = ux_proc w"
  using assms by (auto simp: out_to_def sys_read_def Let_def split: option.splits)

lemma out_to_close:
  assumes "out_to n w d" and "fd \<noteq> 1"
  shows "out_to n (after (sys_close fd) w) d" and "pr_buf (ux_proc (after (sys_close fd) w)) = pr_buf (ux_proc w)"
  using assms by (auto simp: out_to_def sys_close_def with_fds_def)

lemma put_flush:
  assumes "out_to n w d"
  shows "\<exists>e. out_to n (after (stdout_put s) w) (d @ e) \<and> e @ pr_buf (ux_proc (after (stdout_put s) w)) = pr_buf (ux_proc w) @ s"
  using put_out [OF assms, of s] by auto

lemma c_str_pad: "c_str (s @ replicate k nul) = c_str s"
  unfolding c_str_def by (induction s) (simp_all add: takeWhile_replicate)

lemma main_flush_file:
  assumes "out_to n (after m w) d" and "d @ pr_buf (ux_proc (after m w)) = e"
  shows "ux_files (snd (run_main m w)) n = Some e"
  using out_to_file [OF flush_out(1) [OF assms(1)]] assms(2) by (simp add: main_out)

lemma read_main_run:
  assumes "fs log_txt = Some d"
  shows "\<exists>u. out_to Tty u (line ''open success, fd: 3'') \<and> pr_buf (ux_proc u) = [] \<and>
     run_state (read_main err) (on_terminal fs []) =
       (if nul \<in> set (read_buffer (take 64 d))
        then (Some 0, after (sys_close 3) (after (stdout_put (c_str (read_buffer (take 64 d)))) u)) else (None, u))"
proof -
  let ?hd = "''open success, fd: 3''" and ?b = "read_buffer (take 64 d)"
  obtain w where op: "run_state (sys_open log_txt rd_only) (on_terminal fs []) = (3, w)"
    and w: "out_to Tty w []" "stdout_mode w = Line_buffered" "pr_buf (ux_proc w) = []"
    "pr_fds (ux_proc w) = [Some 0, Some 0, Some 0, Some 1]" "ux_files w (Path log_txt) = Some d"
    "ux_opened w ! 1 = \<lparr>of_node = Path log_txt, of_pos = 0, of_append = False, of_read = True, of_write = False\<rparr>"
    using assms by (simp add: open_3 [of fs d] out_to_def stdout_mode_def open_file_def fd_get_def tty_file_def)
  define v where "v = after (stdout_put (line ?hd)) w"
  from put_line [OF w(1-3), of ?hd] have v: "out_to Tty v (line ?hd)" "pr_buf (ux_proc v) = []" by (simp_all add: v_def)
  have vo: "pr_fds (ux_proc v) = [Some 0, Some 0, Some 0, Some 1]" "ux_opened v ! 1 = ux_opened w ! 1"
    "ux_files v (Path log_txt) = Some d"
    unfolding v_def using put_other(1) [where w = w and j = 1] put_other(2) [where w = w] put_other(3) [OF w(1), of "Path log_txt"] w(4,5)
    by (simp_all add: fd_get_def)
  then have got: "fst (run_state (sys_read 3 64) v) = take 64 d"
    using w(6) by (simp add: sys_read_def fd_get_def Let_def)
  have u: "out_to Tty (after (sys_read 3 64) v) (line ?hd)" "pr_buf (ux_proc (after (sys_read 3 64) v)) = []"
    using out_to_read [OF v(1), of 3 64] vo(1) v(2) by (simp_all add: fd_get_def)
  have "show_int 3 = ''3''" by code_simp
  then have "run_state (read_main err) (on_terminal fs []) =
      (if nul \<in> set ?b then (Some 0, after (sys_close 3) (after (stdout_put (c_str ?b)) (after (sys_read 3 64) v)))
       else (None, after (sys_read 3 64) v))"
    using got by (simp add: read_main_def op v_def [simplified, symmetric])
  with u show ?thesis by blast
qed

text \<open>
  A file of less than 64 bytes, or with a zero byte among the first 64, is shown up to its first zero
  byte. From 64 bytes on the call to \<open>read\<close> overwrites the zero byte meant to end the string,
  and \<open>printf\<close> reads outside the buffer.
\<close>

theorem read_main_overreads:
  assumes "fs log_txt = Some d"
  shows "(length d < 64 \<or> nul \<in> set (take 64 d) \<longrightarrow>
       fst (run_main (read_main err) (on_terminal fs [])) = Some 0 \<and>
       ux_files (snd (run_main (read_main err) (on_terminal fs []))) Tty =
         Some (line ''open success, fd: 3'' @ c_str (take 64 d))) \<and>
     (64 \<le> length d \<and> nul \<notin> set (take 64 d) \<longrightarrow>
       fst (run_main (read_main err) (on_terminal fs [])) = None)"
proof -
  let ?hd = "''open success, fd: 3''" and ?b = "read_buffer (take 64 d)"
  obtain u where u: "out_to Tty u (line ?hd)" "pr_buf (ux_proc u) = []"
    and run: "run_state (read_main err) (on_terminal fs []) =
      (if nul \<in> set ?b then (Some 0, after (sys_close 3) (after (stdout_put (c_str ?b)) u)) else (None, u))"
    using read_main_run [of fs d err, OF assms] by blast
  obtain e where e: "out_to Tty (after (stdout_put (c_str ?b)) u) (line ?hd @ e)"
    "e @ pr_buf (ux_proc (after (stdout_put (c_str ?b)) u)) = c_str ?b"
    using put_flush [OF u(1), of "c_str ?b"] u(2) by auto
  note cl = out_to_close [OF e(1), of 3]
  have z: "nul \<in> set ?b \<longleftrightarrow> length d < 64 \<or> nul \<in> set (take 64 d)" by (auto simp: read_buffer_def)
  have "ux_files (snd (run_main (read_main err) (on_terminal fs []))) Tty = Some (line ?hd @ c_str (take 64 d))"
    if "nul \<in> set ?b"
  proof (rule main_flush_file)
    show "out_to Tty (after (read_main err) (on_terminal fs [])) (line ?hd @ e)" using cl that by (simp add: run)
    show "(line ?hd @ e) @ pr_buf (ux_proc (after (read_main err) (on_terminal fs []))) = line ?hd @ c_str (take 64 d)"
      using cl e(2) that by (simp add: run read_buffer_def c_str_pad)
  qed
  then show ?thesis using z by (auto simp: run_main_def run)
qed

theorem read_main_overreads_witness:
  "fst (run_main (read_main []) (on_terminal (\<lambda>_. Some (replicate 64 newline)) [])) = None"
  using read_main_overreads [of "\<lambda>_. Some (replicate 64 newline)" "replicate 64 newline" "[]"]
  by (simp add: newline_def nul_def)

section \<open>Standard input from a file: 1012/myfile1.c\<close>

text \<open>
  The first read on \<open>stdin\<close> fetches a block; \<open>fgets\<close> at the end of the file leaves the buffer
  uninitialised, and printing it is \<open>None\<close>.
\<close>

definition in_redirect_main :: "string \<Rightarrow> int option prog" where
  "in_redirect_main err = do {
     sys_close 0;
     fd \<leftarrow> sys_open log_txt rd_only;
     if fd < 0 then do { perror ''open'' err; State_Monad.return (Some 1) }
     else do {
       stdout_put (line (''fd: '' @ show_int fd));
       block \<leftarrow> sys_read 0 BUFSIZ;
       case fgets 64 block of
         None \<Rightarrow> State_Monad.return None
       | Some (buffer, rest) \<Rightarrow> do {
           stdout_put (line (c_str buffer));
           sys_close fd;
           State_Monad.return (Some 0)
         }
     }
   }"

lemma open_0:
  assumes "fs log_txt = Some d"
  shows "run_state (sys_open log_txt rd_only) (after (sys_close 0) (on_terminal fs [])) =
     (0, (on_terminal fs [])\<lparr>ux_files := (\<lambda>n. case n of Tty \<Rightarrow> Some [] | Path p \<Rightarrow> fs p),
        ux_opened := [tty_file, \<lparr>of_node = Path log_txt, of_pos = 0, of_append = False, of_read = True, of_write = False\<rparr>],
        ux_proc := \<lparr>pr_fds = [Some 1, Some 0, Some 0], pr_mode = None, pr_buf = []\<rparr>\<rparr>)"
proof -
  have "(\<lambda>p. if p = log_txt then Some d else fs p) = fs" using assms by auto
  then show ?thesis
    using assms by (simp add: sys_open_def sys_close_def on_terminal_def with_fds_def fd_set_def lowest_free_def Let_def
        files_upd rd_only_def)
qed

text \<open>
  The file is opened as descriptor 0, and \<open>fgets\<close> on \<open>stdin\<close> reads its first line, or 63 bytes
  of it; nothing of this holds for an empty file, where the program prints an uninitialised
  buffer.
\<close>

theorem in_redirect_reads_file:
  assumes "fs log_txt = Some d" and "run_main (in_redirect_main err) (on_terminal fs []) = (r, w)"
  shows "(d \<noteq> [] \<longrightarrow> r = Some 0 \<and>
        ux_files w Tty = Some (line ''fd: 0'' @ line (c_str (thru_newline (take 63 d))))) \<and>
     (d = [] \<longrightarrow> r = None)"
proof -
  have rw: "r = fst (run_state (in_redirect_main err) (on_terminal fs []))"
    "w = snd (run_main (in_redirect_main err) (on_terminal fs []))"
    using assms(2) by (simp_all add: run_main_def)
  obtain w where op: "run_state (sys_open log_txt rd_only) (after (sys_close 0) (on_terminal fs [])) = (0, w)"
    and w: "out_to Tty w []" "stdout_mode w = Line_buffered" "pr_buf (ux_proc w) = []"
    "pr_fds (ux_proc w) = [Some 1, Some 0, Some 0]" "ux_files w (Path log_txt) = Some d"
    "ux_opened w ! 1 = \<lparr>of_node = Path log_txt, of_pos = 0, of_append = False, of_read = True, of_write = False\<rparr>"
    using assms(1) by (simp add: open_0 [of fs d] out_to_def stdout_mode_def open_file_def fd_get_def tty_file_def)
  define v where "v = after (stdout_put (line ''fd: 0'')) w"
  from put_line [OF w(1-3), of "''fd: 0''"] have v: "out_to Tty v (line ''fd: 0'')" "pr_buf (ux_proc v) = []"
    "stdout_mode v = Line_buffered" by (simp_all add: v_def)
  have vo: "pr_fds (ux_proc v) = [Some 1, Some 0, Some 0]" "ux_opened v ! 1 = ux_opened w ! 1"
    "ux_files v (Path log_txt) = Some d"
    unfolding v_def using put_other(1) [where w = w and j = 1] put_other(2) [where w = w] put_other(3) [OF w(1), of "Path log_txt"] w(4,5)
    by (simp_all add: fd_get_def)
  then have got: "fst (run_state (sys_read 0 BUFSIZ) v) = take BUFSIZ d"
    using w(6) by (simp add: sys_read_def fd_get_def Let_def)
  define u where "u = after (sys_read 0 BUFSIZ) v"
  have "pr_mode (ux_proc v) = Some Line_buffered" by (simp add: v_def stdout_put_def Let_def w(2))
  then have u: "out_to Tty u (line ''fd: 0'')" "pr_buf (ux_proc u) = []" "stdout_mode u = Line_buffered"
    using out_to_read [OF v(1), of 0 BUFSIZ] vo(1) v(2) by (simp_all add: u_def fd_get_def stdout_mode_def)
  have sh: "show_int 0 = ''0''" by code_simp
  note run = in_redirect_main_def op sh v_def [simplified, symmetric] u_def [symmetric] got
  show ?thesis
  proof (cases "d = []")
    case True
    then show ?thesis using rw(1) by (simp add: run fgets_def)
  next
    case False
    let ?l = "thru_newline (take 63 d)"
    have "fgets 64 (take BUFSIZ d) = Some (?l, drop (length ?l) (take BUFSIZ d))"
      using False by (simp add: fgets_def Let_def BUFSIZ_def)
    then have m: "run_state (in_redirect_main err) (on_terminal fs []) =
        (Some 0, after (sys_close 0) (after (stdout_put (line (c_str ?l))) u))"
      by (simp add: run)
    note p = put_line [OF u(1,3,2), of "c_str ?l"]
    from out_to_close [OF p(1), of 0] p(2) have "ux_files (snd (run_main (in_redirect_main err) (on_terminal fs []))) Tty =
        Some (line ''fd: 0'' @ line (c_str ?l))"
      by (intro main_flush_file [where d = "line ''fd: 0'' @ line (c_str ?l)"]) (simp_all add: m)
    with rw m False show ?thesis by simp
  qed
qed

section \<open>Flags in bits: 1010/myfile1.c\<close>

definition show_flags :: "32 word \<Rightarrow> byte list" where
  "show_flags flags =
     (if flags AND 1 \<noteq> 0 then line ''hello one!'' else []) @
     (if flags AND 2 \<noteq> 0 then line ''hello two!'' else []) @
     (if flags AND 4 \<noteq> 0 then line ''hello three!'' else [])"

definition flags_main :: "byte list" where
  "flags_main = show_flags 1 @ show_flags 2 @ show_flags (1 OR 2) @ show_flags (1 OR 2 OR 4)"

lemma flags_main_output:
  "flags_main = line ''hello one!'' @ line ''hello two!'' @ line ''hello one!'' @ line ''hello two!'' @
     line ''hello one!'' @ line ''hello two!'' @ line ''hello three!''"
  by code_simp

end
