(* ===== verification/Exec_Env.thy ===== *)
theory Exec_Env
  imports Stdio_Demos
begin

text \<open>
  Replacing the program of a process: 0921/exec.c runs 0921/mycmd.c in a child, with an
  environment of its own, and prints the exit code; 0919/myproc2.cc names a program that is
  not there. \<open>exec\<close> keeps the descriptors and drops the buffer of \<open>stdout\<close> with the old image.
\<close>

section \<open>\<open>fork\<close>, \<open>exec\<close> and \<open>wait\<close>\<close>

text \<open>
  What the child does, from the copy \<open>p\<close> of the process that \<open>fork\<close> made up to its end, then the parent
  again with its own descriptors and buffer: it is in \<open>waitpid\<close> meanwhile.
\<close>

definition in_child :: "process \<Rightarrow> 'a prog \<Rightarrow> 'a prog" where
  "in_child p m = do {
     w \<leftarrow> State_Monad.get;
     State_Monad.update (\<lambda>v. v\<lparr>ux_proc := p\<rparr>);
     x \<leftarrow> m;
     State_Monad.update (\<lambda>v. v\<lparr>ux_proc := ux_proc w\<rparr>);
     State_Monad.return x
   }"

text \<open>The new image runs \<open>main\<close> and flushes when it exits.\<close>

definition exec_image :: "'a prog \<Rightarrow> 'a prog" where
  "exec_image main = do {
     State_Monad.update (\<lambda>v. v\<lparr>ux_proc := (ux_proc v)\<lparr>pr_mode := None, pr_buf := []\<rparr>\<rparr>);
     x \<leftarrow> main;
     stdout_flush;
     State_Monad.return x
   }"

section \<open>mycmd.c\<close>

definition env_text :: string where
  "env_text = utf8 [0xE8, 0x8E, 0xB7, 0xE5, 0x8F, 0x96, 0xE7, 0x8E, 0xAF, 0xE5, 0xA2, 0x83, 0xE5, 0x8F, 0x98, 0xE9,
     0x87, 0x8F] @ '': MY_105_VAL: ''"

text \<open>\<open>getenv\<close>: the part behind the first \<open>=\<close> of the first entry with the name.\<close>

fun getenv :: "string list \<Rightarrow> string \<Rightarrow> string option" where
  "getenv [] name = None"
| "getenv (e # es) name =
     (if take (length name + 1) e = name @ ''='' then Some (drop (length name + 1) e) else getenv es name)"

text \<open>The exit status, or \<open>None\<close> where \<open>printf\<close> gets the null pointer for a variable that is not set.\<close>

definition mycmd_main :: "string list \<Rightarrow> string list \<Rightarrow> int option prog" where
  "mycmd_main argv env =
     (if length argv \<noteq> 2 then do {
        stdout_put (line ''can not execute! '');
        State_Monad.return (Some 1)
      }
      else
        (case getenv env ''MY_105_VAL'' of
           None \<Rightarrow> State_Monad.return None
         | Some v \<Rightarrow> do {
             stdout_put (line (env_text @ v));
             stdout_put (if argv ! 1 = ''-a'' then line ''hello a!''
                         else if argv ! 1 = ''b'' then line ''hello b!'' else line ''default!'');
             State_Monad.return (Some 0)
           }))"

section \<open>exec.c\<close>

definition runs_text :: string where
  "runs_text = utf8 [0xE8, 0xBF, 0x9B, 0xE7, 0xA8, 0x8B, 0xE5, 0xBC, 0x80, 0xE5, 0xA7, 0x8B, 0xE8, 0xBF, 0x90,
     0xE8, 0xA1, 0x8C] @ '', pid: ''"

definition child_text :: string where "child_text = utf8 [0xE5, 0xAD, 0x90] @ runs_text"

definition parent_text :: string where "parent_text = utf8 [0xE7, 0x88, 0xB6] @ runs_text"

definition exec_env :: "string list" where "exec_env = [''MY_105_VAL=888777666'']"

text \<open>
  \<open>found\<close> says whether \<open>./mycmd\<close> can be executed; \<open>cpid\<close> and \<open>ppid\<close> are the process numbers. A
  child that does not get through \<open>execle\<close> exits with 1. \<open>early\<close>: the parent prints before the
  child runs, or after it has ended; the child's copy is from before in both cases. \<open>fork\<close> succeeds.
\<close>

definition exec_child :: "bool \<Rightarrow> int \<Rightarrow> int option prog" where
  "exec_child found cpid = do {
     stdout_put (line (child_text @ show_int cpid));
     if found then exec_image (mycmd_main [''mycmd'', ''-a''] exec_env)
     else do { stdout_flush; State_Monad.return (Some 1) }
   }"

definition exec_main :: "bool \<Rightarrow> bool \<Rightarrow> int \<Rightarrow> int \<Rightarrow> int option prog" where
  "exec_main early found cpid ppid = do {
     w \<leftarrow> State_Monad.get;
     (if early then stdout_put (line (parent_text @ show_int ppid)) else State_Monad.return ());
     result \<leftarrow> in_child (ux_proc w) (exec_child found cpid);
     (if early then State_Monad.return () else stdout_put (line (parent_text @ show_int ppid)));
     case result of
       None \<Rightarrow> State_Monad.return None
     | Some n \<Rightarrow> do {
         stdout_put (line (''wait success, exit code: '' @ show_int (n mod 256)));
         State_Monad.return (Some 0)
       }
   }"

text \<open>0919/myproc2.cc: \<open>lssss\<close> is the program \<open>/usr/bin/lssss\<close>, if there is one.\<close>

definition this_text :: string where
  "this_text = utf8 [0xE5, 0xBD, 0x93, 0xE5, 0x89, 0x8D, 0xE8, 0xBF, 0x9B, 0xE7, 0xA8, 0x8B, 0xE7, 0x9A, 0x84]"

definition code_text :: string where
  "code_text = utf8 [0xE4, 0xBB, 0xA3, 0xE7, 0xA0, 0x81] @ ''!''"

definition start_text :: string where
  "start_text = this_text @ utf8 [0xE5, 0xBC, 0x80, 0xE5, 0xA7, 0x8B] @ code_text"

definition end_text :: string where
  "end_text = this_text @ utf8 [0xE7, 0xBB, 0x93, 0xE6, 0x9D, 0x9F] @ code_text"

definition myproc2_main :: "int prog option \<Rightarrow> int prog" where
  "myproc2_main lssss = do {
     stdout_put (line start_text);
     case lssss of
       Some main \<Rightarrow> exec_image main
     | None \<Rightarrow> do {
         stdout_put (line end_text);
         State_Monad.return 0
       }
   }"

section \<open>What comes out\<close>

definition child_says :: "int \<Rightarrow> byte list" where "child_says cpid = line (child_text @ show_int cpid)"

definition parent_says :: "int \<Rightarrow> byte list" where "parent_says ppid = line (parent_text @ show_int ppid)"

definition mycmd_lines :: "byte list" where
  "mycmd_lines = line (env_text @ ''888777666'') @ line ''hello a!''"

definition exit_line :: "int \<Rightarrow> byte list" where
  "exit_line n = line (''wait success, exit code: '' @ show_int n)"

lemma mycmd_env: "getenv exec_env ''MY_105_VAL'' = Some ''888777666''"
  by code_simp

lemma texts_short:
  "length (show_int n) \<le> 20 \<Longrightarrow> length (child_says n) \<le> 60 \<and> length (parent_says n) \<le> 60"
  "length mycmd_lines \<le> 100"
  by (simp_all add: child_says_def parent_says_def child_text_def parent_text_def runs_text_def utf8_def
      mycmd_lines_def env_text_def)

text \<open>
  What a program keeps: descriptor 1 writes to \<open>n\<close>, whose content is \<open>d\<close>, and \<open>b\<close> is still in the
  buffer of the process.
\<close>

definition outs :: "node \<Rightarrow> nat option list \<Rightarrow> unix \<Rightarrow> byte list \<Rightarrow> byte list \<Rightarrow> bool" where
  "outs n fds w d b \<longleftrightarrow> out_to n w d \<and> pr_buf (ux_proc w) = b \<and> pr_fds (ux_proc w) = fds \<and>
     stdout_mode w = (if n = Tty then Line_buffered else Full_buffered)"

lemma outs_put_full:
  assumes "outs n fds w d b" and "n \<noteq> Tty" and "length b + length s \<le> BUFSIZ"
  shows "outs n fds (after (stdout_put s) w) d (b @ s)"
  using put_full [of n w d s] put_other(2) assms by (auto simp: outs_def)

lemma outs_put_line:
  assumes "outs Tty fds w d []"
  shows "outs Tty fds (after (stdout_put (line s)) w) (d @ line s) []"
  using put_line [of Tty w d s] put_other(2) assms by (auto simp: outs_def)

lemma outs_flush:
  assumes "outs n fds w d b"
  shows "outs n fds (after stdout_flush w) (d @ b) []"
  using flush_out [of n w d] assms write_other(2) by (auto simp: outs_def stdout_flush_def)

lemma outs_fresh:
  assumes "outs n fds w d b"
  shows "outs n fds (w\<lparr>ux_proc := (ux_proc w)\<lparr>pr_mode := None, pr_buf := []\<rparr>\<rparr>) d []"
  using assms by (auto simp: outs_def out_to_def stdout_mode_def open_file_def)

lemma outs_restore:
  assumes "outs n fds v d' b'" and "outs n fds w d b"
  shows "outs n fds (v\<lparr>ux_proc := ux_proc w\<rparr>) d' b"
  using assms by (auto simp: outs_def out_to_def stdout_mode_def open_file_def split: option.splits)

lemma mycmd_full:
  assumes "outs n fds w d []" and "n \<noteq> Tty"
  shows "fst (run_state (mycmd_main [''mycmd'', ''-a''] exec_env) w) = Some 0 \<and>
     outs n fds (after (mycmd_main [''mycmd'', ''-a''] exec_env) w) d mycmd_lines"
proof -
  let ?l = "line (env_text @ ''888777666'')"
  have le: "length ?l \<le> BUFSIZ" "length ?l + length (line ''hello a!'') \<le> BUFSIZ"
    by (simp_all add: env_text_def utf8_def BUFSIZ_def)
  have "outs n fds (after (stdout_put ?l) w) d ?l" using outs_put_full [OF assms, of ?l] le by simp
  from outs_put_full [OF this assms(2) le(2)] show ?thesis
    by (simp add: mycmd_main_def mycmd_env mycmd_lines_def)
qed

lemma mycmd_tty:
  assumes "outs Tty fds w d []"
  shows "fst (run_state (mycmd_main [''mycmd'', ''-a''] exec_env) w) = Some 0 \<and>
     outs Tty fds (after (mycmd_main [''mycmd'', ''-a''] exec_env) w) (d @ mycmd_lines) []"
  using outs_put_line [OF outs_put_line [OF assms, of "env_text @ ''888777666''"], of "''hello a!''"]
  by (simp add: mycmd_main_def mycmd_env mycmd_lines_def)

text \<open>
  The child, seen from the parent, with the state \<open>w\<close> at the \<open>fork\<close>: into a file its own line is
  lost when \<open>exec\<close> succeeds.
\<close>

lemma child_full:
  assumes w: "outs n fds w d0 []" and v: "outs n fds v d b" and n: "n \<noteq> Tty"
    and l: "length (show_int cpid) \<le> 20"
  shows "fst (run_state (in_child (ux_proc w) (exec_child found cpid)) v) = Some (if found then 0 else 1) \<and>
     outs n fds (after (in_child (ux_proc w) (exec_child found cpid)) v)
       (d @ (if found then mycmd_lines else child_says cpid)) b"
proof -
  let ?f = "v\<lparr>ux_proc := ux_proc w\<rparr>"
  let ?v = "after (stdout_put (child_says cpid)) ?f"
  have v': "outs n fds ?v d ([] @ child_says cpid)"
    using texts_short(1) [OF l] by (intro outs_put_full [OF outs_restore [OF v w] n]) (simp add: BUFSIZ_def)
  have e: "line (child_text @ show_int cpid) = child_says cpid" by (simp add: child_says_def)
  show ?thesis
  proof (cases found)
    case True
    note m = mycmd_full [OF outs_fresh [OF v'] n]
    from outs_restore [OF outs_flush [OF conjunct2 [OF m]] v] conjunct1 [OF m] True show ?thesis
      by (simp add: in_child_def exec_child_def exec_image_def e [simplified])
  next
    case False
    from outs_restore [OF outs_flush [OF v'] v] False show ?thesis
      by (simp add: in_child_def exec_child_def e [simplified])
  qed
qed

lemma child_tty:
  assumes w: "outs Tty fds w d0 []" and v: "outs Tty fds v d []"
  shows "fst (run_state (in_child (ux_proc w) (exec_child found cpid)) v) = Some (if found then 0 else 1) \<and>
     outs Tty fds (after (in_child (ux_proc w) (exec_child found cpid)) v)
       (d @ child_says cpid @ (if found then mycmd_lines else [])) []"
proof -
  let ?f = "v\<lparr>ux_proc := ux_proc w\<rparr>"
  have e: "line (child_text @ show_int cpid) = child_says cpid" by (simp add: child_says_def)
  have v': "outs Tty fds (after (stdout_put (child_says cpid)) ?f) (d @ child_says cpid) []"
    using outs_put_line [OF outs_restore [OF v w], of "child_text @ show_int cpid"] e by simp
  show ?thesis
  proof (cases found)
    case True
    note m = mycmd_tty [OF outs_fresh [OF v']]
    from outs_restore [OF outs_flush [OF conjunct2 [OF m]] v] conjunct1 [OF m] True show ?thesis
      by (simp add: in_child_def exec_child_def exec_image_def e [simplified])
  next
    case False
    from outs_restore [OF outs_flush [OF v'] v] False show ?thesis
      by (simp add: in_child_def exec_child_def e [simplified])
  qed
qed

lemma start_outs:
  "outs Tty [Some 0, Some 0, Some 0] (on_terminal fs denied) [] []"
  "outs (Path p) [Some 0, Some 1, Some 0] (to_file fs p) [] []"
  using terminal_out to_file_out by (simp_all add: outs_def) (simp_all add: on_terminal_def to_file_def)

lemma outs_main:
  assumes "outs n fds (after m w) d b"
  shows "ux_files (snd (run_main m w)) n = Some (d @ b)"
  using out_to_file outs_flush [OF assms] by (auto simp: main_out outs_def)

lemma mod_01: "(if found then 0 else 1) mod 256 = (if found then 0 else 1 :: int)"
  by simp

lemma exec_main_full:
  assumes w: "outs n fds w [] []" and n: "n \<noteq> Tty"
    and l: "length (show_int cpid) \<le> 20" "length (show_int ppid) \<le> 20"
  shows "ux_files (snd (run_main (exec_main early found cpid ppid) w)) n =
     Some (if found then mycmd_lines @ parent_says ppid @ exit_line 0
           else child_says cpid @ parent_says ppid @ exit_line 1)"
proof -
  let ?p = "parent_says ppid" and ?c = "in_child (ux_proc w) (exec_child found cpid)" and ?x = "if found then 0 else 1 :: int"
  have e: "line (parent_text @ show_int ppid) = ?p" by (simp add: parent_says_def)
  have pl: "length ?p \<le> 60" using texts_short(1) [OF l(2)] by simp
  have xl: "length (exit_line ?x) \<le> 60" unfolding exit_line_def by (cases found) (simp_all, code_simp, code_simp)
  have fit: "length ([] @ ?p) \<le> BUFSIZ" "length ([] @ ?p) + length (exit_line ?x) \<le> BUFSIZ"
    using pl xl by (simp_all add: BUFSIZ_def)
  show ?thesis
  proof (cases early)
    case True
    have a: "outs n fds (after (stdout_put ?p) w) [] ?p" using outs_put_full [OF w n, of ?p] fit by simp
    note c = child_full [OF w a n l(1), of found]
    have c1: "fst (run_state ?c (after (stdout_put ?p) w)) = Some ?x"
      and c2: "outs n fds (after ?c (after (stdout_put ?p) w)) (if found then mycmd_lines else child_says cpid) ?p"
      using c by auto
    have "outs n fds (after (stdout_put (exit_line ?x)) (after ?c (after (stdout_put ?p) w)))
        (if found then mycmd_lines else child_says cpid) (?p @ exit_line ?x)"
      using fit by (intro outs_put_full [OF c2 n]) simp
    then have "outs n fds (after (exec_main early found cpid ppid) w)
        (if found then mycmd_lines else child_says cpid) (?p @ exit_line ?x)"
      using True c1 by (simp add: exec_main_def e [simplified] exit_line_def mod_01)
    from outs_main [OF this] True show ?thesis by simp
  next
    case False
    note c = child_full [OF w w n l(1), of found]
    have c1: "fst (run_state ?c w) = Some ?x"
      and c2: "outs n fds (after ?c w) (if found then mycmd_lines else child_says cpid) []" using c by auto
    have a: "outs n fds (after (stdout_put ?p) (after ?c w)) (if found then mycmd_lines else child_says cpid) ?p"
      using outs_put_full [OF c2 n, of ?p] fit by simp
    have "outs n fds (after (stdout_put (exit_line ?x)) (after (stdout_put ?p) (after ?c w)))
        (if found then mycmd_lines else child_says cpid) (?p @ exit_line ?x)"
      using fit by (intro outs_put_full [OF a n]) simp
    then have "outs n fds (after (exec_main early found cpid ppid) w)
        (if found then mycmd_lines else child_says cpid) (?p @ exit_line ?x)"
      using False c1 by (simp add: exec_main_def e [simplified] exit_line_def mod_01)
    from outs_main [OF this] False show ?thesis by simp
  qed
qed

lemma exec_main_tty:
  assumes w: "outs Tty fds w [] []"
  shows "ux_files (snd (run_main (exec_main early found cpid ppid) w)) Tty =
     Some ((if early then parent_says ppid else []) @ child_says cpid @ (if found then mycmd_lines else []) @
           (if early then [] else parent_says ppid) @ exit_line (if found then 0 else 1))"
proof -
  let ?p = "parent_says ppid" and ?c = "in_child (ux_proc w) (exec_child found cpid)" and ?x = "if found then 0 else 1 :: int"
  let ?run = "child_says cpid @ (if found then mycmd_lines else [])"
  have e: "line (parent_text @ show_int ppid) = ?p" by (simp add: parent_says_def)
  have pw: "outs Tty fds (after (stdout_put ?p) v) (d @ ?p) []" if "outs Tty fds v d []" for v d
    using outs_put_line [OF that, of "parent_text @ show_int ppid"] e by simp
  have xw: "outs Tty fds (after (stdout_put (exit_line ?x)) v) (d @ exit_line ?x) []" if "outs Tty fds v d []" for v d
    using outs_put_line [OF that, of "''wait success, exit code: '' @ show_int ?x"] by (simp add: exit_line_def)
  show ?thesis
  proof (cases early)
    case True
    note c = child_tty [OF w pw [OF w], where cpid = cpid and found = found]
    from xw [OF conjunct2 [OF c]] conjunct1 [OF c] True
    have "outs Tty fds (after (exec_main early found cpid ppid) w) (?p @ ?run @ exit_line ?x) []"
      by (simp add: exec_main_def e [simplified] exit_line_def mod_01)
    from outs_main [OF this] True show ?thesis by simp
  next
    case False
    note c = child_tty [OF w w, where cpid = cpid and found = found]
    from xw [OF pw [OF conjunct2 [OF c]]] conjunct1 [OF c] False
    have "outs Tty fds (after (exec_main early found cpid ppid) w) (?run @ ?p @ exit_line ?x) []"
      by (simp add: exec_main_def e [simplified] exit_line_def mod_01)
    from outs_main [OF this] False show ?thesis by simp
  qed
qed

text \<open>
  Parent, child and \<open>mycmd\<close> together. On a terminal all lines appear, the exit code last.
  Into a file, whichever of the two processes is first, the line the child prints before
  \<open>execle\<close> is lost with its buffer, and the parent's lines come after those of \<open>mycmd\<close>; only
  when \<open>execle\<close> fails does the child's line appear.
\<close>

theorem exec_demo_output:
  assumes "length (show_int cpid) \<le> 20" and "length (show_int ppid) \<le> 20"
  shows "ux_files (snd (run_main (exec_main early found cpid ppid) (on_terminal fs denied))) Tty =
       Some ((if early then parent_says ppid else []) @ child_says cpid @ (if found then mycmd_lines else []) @
             (if early then [] else parent_says ppid) @ exit_line (if found then 0 else 1)) \<and>
     ux_files (snd (run_main (exec_main early True cpid ppid) (to_file fs p))) (Path p) =
       Some (mycmd_lines @ parent_says ppid @ exit_line 0) \<and>
     ux_files (snd (run_main (exec_main early False cpid ppid) (to_file fs p))) (Path p) =
       Some (child_says cpid @ parent_says ppid @ exit_line 1)"
  using exec_main_tty [OF start_outs(1)] exec_main_full [OF start_outs(2) _ assms, where early = early] by simp

theorem exec_demo_output_witness:
  "ux_files (snd (run_main (exec_main True True 12 11) (to_file (\<lambda>_. None) ''out''))) (Path ''out'') =
     Some (mycmd_lines @ parent_says 11 @ exit_line 0)"
proof -
  have "length (show_int 12) \<le> 20" "length (show_int 11) \<le> 20" by code_simp+
  from exec_demo_output [OF this, of True True "\<lambda>_. None" "[]" "''out''"] show ?thesis by blast
qed

text \<open>
  0919/myproc2.cc prints its second line exactly when there is no such program; into a file,
  its first line too is lost when there is one.
\<close>

lemma myproc2_output:
  assumes "outs n fds w [] []" and "n \<noteq> Tty"
  shows "ux_files (snd (run_main (myproc2_main None) w)) n = Some (line start_text @ line end_text) \<and>
     ux_files (snd (run_main (myproc2_main (Some (State_Monad.return x))) w)) n = Some []"
proof -
  have le: "length (line start_text) + length (line end_text) \<le> BUFSIZ"
    by (simp add: start_text_def end_text_def this_text_def code_text_def utf8_def BUFSIZ_def)
  then have a: "outs n fds (after (stdout_put (line start_text)) w) [] (line start_text)"
    using outs_put_full [OF assms, of "line start_text"] by simp
  from outs_put_full [OF this assms(2), of "line end_text"] le
  have "outs n fds (after (myproc2_main None) w) [] (line start_text @ line end_text)"
    by (simp add: myproc2_main_def)
  moreover have "outs n fds (after (myproc2_main (Some (State_Monad.return x))) w) ([] @ []) []"
    using outs_flush [OF outs_fresh [OF a]] by (simp add: myproc2_main_def exec_image_def)
  ultimately show ?thesis using outs_main by fastforce
qed

text \<open>
  The comment on \<open>mycmd\<close> names the options -a, -b and -c. The code tests for b without the dash:
  -b is answered like every unknown option.
\<close>

theorem mycmd_options:
  assumes "getenv env ''MY_105_VAL'' = Some v"
  shows "mycmd_main [c, ''-b''] env = mycmd_main [c, ''-z''] env \<and>
     mycmd_main [c, ''-a''] env = do { stdout_put (line (env_text @ v)); stdout_put (line ''hello a!''); State_Monad.return (Some 0) } \<and>
     mycmd_main [c, ''b''] env = do { stdout_put (line (env_text @ v)); stdout_put (line ''hello b!''); State_Monad.return (Some 0) } \<and>
     mycmd_main [c, ''-b''] env = do { stdout_put (line (env_text @ v)); stdout_put (line ''default!''); State_Monad.return (Some 0) }"
  using assms by (simp add: mycmd_main_def)

end
