(* ===== verification/Thread_Names.thy ===== *)
theory Thread_Names
  imports Pthread
begin

text \<open>
  0109/mythread.cc: \<open>main\<close> prints the name of each new thread into the same buffer and passes
  the buffer's address; a thread copies the name when it first runs. The names differ in
  their last byte only, so a copy made during \<open>snprintf\<close> is one of the two names; the steps
  are therefore whole copies.
\<close>

section \<open>The program\<close>

definition name_threads :: nat where "name_threads = 5"

definition thread_name :: "nat \<Rightarrow> string" where
  "thread_name i = snprintf_buf 64 (''thread-'' @ show_nat i)"

datatype name_main = Nm_Write nat | Nm_Create nat | Nm_Sleep nat | Nm_Loop

datatype name_thread = Nt_New | Nt_Named string

record name_sys =
  nm_buf :: string
  nm_main :: name_main
  nm_threads :: "name_thread list"

datatype name_event = Named tid string

definition name_init :: "name_sys \<Rightarrow> bool" where
  "name_init s \<longleftrightarrow> (\<exists>junk. s = \<lparr>nm_buf = junk, nm_main = Nm_Write 0, nm_threads = []\<rparr>)"

text \<open>
  \<open>slow\<close> threads may not have run when \<open>main\<close>'s \<open>sleep(1)\<close> is over; without it every thread copies
  its name within the second.
\<close>

inductive name_step :: "bool \<Rightarrow> name_sys \<Rightarrow> name_event option \<Rightarrow> name_sys \<Rightarrow> bool" for slow :: bool where
  print: "nm_main s = Nm_Write i \<Longrightarrow> i < name_threads \<Longrightarrow>
    name_step slow s None (s\<lparr>nm_buf := thread_name i, nm_main := Nm_Create i\<rparr>)"
| create: "nm_main s = Nm_Create i \<Longrightarrow>
    name_step slow s None (s\<lparr>nm_threads := nm_threads s @ [Nt_New], nm_main := Nm_Sleep i\<rparr>)"
| wake: "nm_main s = Nm_Sleep i \<Longrightarrow> slow \<or> nm_threads s ! i \<noteq> Nt_New \<Longrightarrow>
    name_step slow s None (s\<lparr>nm_main := Nm_Write (Suc i)\<rparr>)"
| loop: "nm_main s = Nm_Write i \<Longrightarrow> \<not> i < name_threads \<Longrightarrow> name_step slow s None (s\<lparr>nm_main := Nm_Loop\<rparr>)"
| copy: "t < length (nm_threads s) \<Longrightarrow> nm_threads s ! t = Nt_New \<Longrightarrow>
    name_step slow s (Some (Named t (nm_buf s))) (s\<lparr>nm_threads := (nm_threads s)[t := Nt_Named (nm_buf s)]\<rparr>)"

definition name_exec :: "tid option \<Rightarrow> name_sys \<Rightarrow> (name_event option \<times> name_sys) option" where
  "name_exec c s =
     (case c of
        None \<Rightarrow>
          (case nm_main s of
             Nm_Write i \<Rightarrow>
               if i < name_threads then Some (None, s\<lparr>nm_buf := thread_name i, nm_main := Nm_Create i\<rparr>)
               else Some (None, s\<lparr>nm_main := Nm_Loop\<rparr>)
           | Nm_Create i \<Rightarrow> Some (None, s\<lparr>nm_threads := nm_threads s @ [Nt_New], nm_main := Nm_Sleep i\<rparr>)
           | Nm_Sleep i \<Rightarrow> Some (None, s\<lparr>nm_main := Nm_Write (Suc i)\<rparr>)
           | Nm_Loop \<Rightarrow> None)
      | Some t \<Rightarrow>
          if t < length (nm_threads s) \<and> nm_threads s ! t = Nt_New
          then Some (Some (Named t (nm_buf s)), s\<lparr>nm_threads := (nm_threads s)[t := Nt_Named (nm_buf s)]\<rparr>)
          else None)"

lemma name_exec_sound: "name_exec c s = Some (l, s') \<Longrightarrow> name_step True s l s'"
  by (auto simp: name_exec_def intro: name_step.intros split: option.splits name_main.splits if_splits)

lemma name_schedule_run: "schedule name_exec s cs = Some (es, s') \<Longrightarrow> Lts.run (name_step True) s es s'"
  by (erule schedule_run) (rule name_exec_sound)

section \<open>Which name a thread gets\<close>

text \<open>The threads created so far, and the name in the buffer once a thread can read it.\<close>

fun created :: "name_main \<Rightarrow> nat" where
  "created (Nm_Write i) = i"
| "created (Nm_Create i) = i"
| "created (Nm_Sleep i) = Suc i"
| "created Nm_Loop = name_threads"

fun in_buf :: "name_main \<Rightarrow> nat" where
  "in_buf (Nm_Write i) = i - 1"
| "in_buf (Nm_Create i) = i"
| "in_buf (Nm_Sleep i) = i"
| "in_buf Nm_Loop = name_threads - 1"

fun name_ok :: "bool \<Rightarrow> tid \<Rightarrow> name_thread \<Rightarrow> bool" where
  "name_ok slow t Nt_New \<longleftrightarrow> True"
| "name_ok slow t (Nt_Named n) \<longleftrightarrow> (\<exists>j. t \<le> j \<and> j < name_threads \<and> (slow \<or> j = t) \<and> n = thread_name j)"

lemma all_nth_update:
  "\<forall>u < length xs. P u (xs ! u) \<Longrightarrow> P t x \<Longrightarrow> \<forall>u < length xs. P u (xs[t := x] ! u)"
  by (metis nth_list_update_eq nth_list_update_neq)

definition name_inv :: "bool \<Rightarrow> name_sys \<Rightarrow> bool" where
  "name_inv slow s \<longleftrightarrow> length (nm_threads s) = created (nm_main s) \<and> created (nm_main s) \<le> name_threads \<and>
     (created (nm_main s) > 0 \<or> nm_main s = Nm_Create 0 \<longrightarrow>
        in_buf (nm_main s) < name_threads \<and> nm_buf s = thread_name (in_buf (nm_main s))) \<and>
     (\<not> slow \<longrightarrow> (\<forall>t < length (nm_threads s). nm_threads s ! t = Nt_New \<longrightarrow> nm_main s = Nm_Sleep t)) \<and>
     (\<forall>t < length (nm_threads s). name_ok slow t (nm_threads s ! t))"

lemma name_step_inv: "name_step slow s l s' \<Longrightarrow> name_inv slow s \<Longrightarrow> name_inv slow s'"
proof (induction rule: name_step.induct)
  case (print s i)
  then show ?case by (auto simp: name_inv_def)
next
  case (create s i)
  then show ?case by (auto simp: name_inv_def nth_append less_Suc_eq)
next
  case (wake s i)
  then show ?case by (auto simp: name_inv_def)
next
  case (loop s i)
  then show ?case by (auto simp: name_inv_def)
next
  case (copy t s)
  have n: "length (nm_threads s) = created (nm_main s)" "created (nm_main s) > 0 \<Longrightarrow>
      in_buf (nm_main s) < name_threads \<and> nm_buf s = thread_name (in_buf (nm_main s))"
    "\<not> slow \<Longrightarrow> nm_main s = Nm_Sleep t"
    using copy unfolding name_inv_def by blast+
  have m: "t < created (nm_main s)" using copy.hyps(1) n(1) by simp
  have b: "t \<le> in_buf (nm_main s)" using m by (cases "nm_main s") auto
  have b: "t \<le> in_buf (nm_main s)" "in_buf (nm_main s) < name_threads"
    "nm_buf s = thread_name (in_buf (nm_main s))" "\<not> slow \<longrightarrow> in_buf (nm_main s) = t"
    using m b n(2) n(3) by auto
  have j: "name_ok slow t (Nt_Named (nm_buf s))"
    by (simp, rule exI [of _ "in_buf (nm_main s)"]) (use b in auto)
  have o: "\<forall>u < length (nm_threads s). \<not> slow \<longrightarrow> nm_threads s ! u = Nt_New \<longrightarrow> u = t"
    using copy.prems n(3) unfolding name_inv_def by auto
  let ?ts = "(nm_threads s)[t := Nt_Named (nm_buf s)]"
  have "\<forall>u < length ?ts. \<not> slow \<longrightarrow> ?ts ! u \<noteq> Nt_New"
    using o by (metis length_list_update name_thread.distinct(1) nth_list_update_eq nth_list_update_neq)
  moreover have "\<forall>u < length (nm_threads s). name_ok slow u (?ts ! u)"
    by (rule all_nth_update) (use copy.prems j name_inv_def in auto)
  moreover have "length ?ts = created (nm_main s)" "created (nm_main s) \<le> name_threads"
    "created (nm_main s) > 0 \<or> nm_main s = Nm_Create 0 \<longrightarrow>
       in_buf (nm_main s) < name_threads \<and> nm_buf s = thread_name (in_buf (nm_main s))"
    using copy.prems unfolding name_inv_def by simp_all
  ultimately show ?case unfolding name_inv_def by simp
qed

interpretation nm: inductive_invariant name_init "name_step slow" "name_inv slow" for slow
proof
  fix s assume "name_init s" then show "name_inv slow s" by (auto simp: name_init_def name_inv_def)
next
  fix s l s' assume "name_inv slow s" "name_step slow s l s'"
  then show "name_inv slow s'" using name_step_inv by blast
qed

lemma thread_names_distinct:
  "i < name_threads \<Longrightarrow> j < name_threads \<Longrightarrow> thread_name i = thread_name j \<Longrightarrow> i = j"
  using length_show_nat_le [of i 0] length_show_nat_le [of j 0]
  by (simp add: name_threads_def thread_name_def snprintf_buf_fits)

text \<open>The schedule in which no thread runs before \<open>main\<close> has printed the last name.\<close>

definition late_copies :: "tid option list" where
  "late_copies = replicate 16 None @ map Some [0 ..< 5]"

definition all_last :: name_sys where
  "all_last = \<lparr>nm_buf = ''thread-4'', nm_main = Nm_Loop, nm_threads = replicate 5 (Nt_Named ''thread-4'')\<rparr>"

lemma late_copies_run:
  "schedule name_exec \<lparr>nm_buf = [], nm_main = Nm_Write 0, nm_threads = []\<rparr> late_copies =
   Some (map (\<lambda>t. Named t ''thread-4'') [0 ..< 5], all_last)"
  by code_simp

lemma all_last_reachable: "reachable name_init (name_step True) all_last"
  using reachable_run [OF _ name_schedule_run [OF late_copies_run]] by (auto simp: name_init_def)

text \<open>
  x
\<close>
theorem thread_names:
  "reachable name_init (name_step slow) s \<Longrightarrow> t < length (nm_threads s) \<Longrightarrow> nm_threads s ! t = Nt_Named n \<Longrightarrow>
   (\<exists>j. t \<le> j \<and> j < name_threads \<and> (slow \<or> j = t) \<and> n = thread_name j) \<and>
   reachable name_init (name_step True) all_last"
  using nm.inv_reachable [of slow s] all_last_reachable unfolding name_inv_def by (metis name_ok.simps(2))

lemma thread_names_witness:
  "\<exists>j \<ge> 0. j < name_threads \<and> ''thread-4'' = thread_name j"
  using thread_names [OF all_last_reachable, of 0 "''thread-4''"] by (auto simp: all_last_def)

end
