(* ===== verification/Thread_Local.thy ===== *)
theory Thread_Local
  imports Pthread
begin

text \<open>
  0110/mythread1.cc and mythread2.cc (the same program): a counter declared \<open>__thread\<close>, so that
  each thread has its own, and a thread that calls \<open>execl\<close>. \<open>found\<close> says whether the call
  succeeds; the program that then runs is not modelled, it has no step here.
\<close>

datatype tl_pc = Tl_Sleep | Tl_Loop

record tl_sys =
  tl_replaced :: bool
  tl_pc :: tl_pc
  tl_main_val :: int
  tl_thread_val :: int

text \<open>A line shows the thread's own \<open>g_val\<close>.\<close>

datatype tl_event = Main_line int | Thread_line int

definition tl_init :: "tl_sys \<Rightarrow> bool" where
  "tl_init s \<longleftrightarrow> s = \<lparr>tl_replaced = False, tl_pc = Tl_Sleep, tl_main_val = 0, tl_thread_val = 0\<rparr>"

inductive tl_step :: "bool \<Rightarrow> tl_sys \<Rightarrow> tl_event option \<Rightarrow> tl_sys \<Rightarrow> bool" for found :: bool where
  main_line: "\<not> tl_replaced s \<Longrightarrow> tl_step found s (Some (Main_line (tl_main_val s))) s"
| exec_runs: "\<not> tl_replaced s \<Longrightarrow> tl_pc s = Tl_Sleep \<Longrightarrow> found \<Longrightarrow>
    tl_step found s None (s\<lparr>tl_replaced := True\<rparr>)"
| exec_fails: "\<not> tl_replaced s \<Longrightarrow> tl_pc s = Tl_Sleep \<Longrightarrow> \<not> found \<Longrightarrow>
    tl_step found s None (s\<lparr>tl_pc := Tl_Loop\<rparr>)"
| thread_line: "\<not> tl_replaced s \<Longrightarrow> tl_pc s = Tl_Loop \<Longrightarrow>
    tl_step found s (Some (Thread_line (tl_thread_val s))) (s\<lparr>tl_thread_val := tl_thread_val s + 1\<rparr>)"

text \<open>The threads seen from outside: the number of lines of the second one is the state.\<close>

fun tl_spec :: "bool \<Rightarrow> nat \<Rightarrow> tl_event \<Rightarrow> nat option" where
  "tl_spec found n (Main_line v) = (if v = 0 then Some n else None)"
| "tl_spec found n (Thread_line v) = (if \<not> found \<and> v = int n then Some (Suc n) else None)"

definition tl_inv :: "bool \<Rightarrow> tl_sys \<Rightarrow> bool" where
  "tl_inv found s \<longleftrightarrow> tl_main_val s = 0 \<and> 0 \<le> tl_thread_val s \<and> (found \<longrightarrow> tl_pc s = Tl_Sleep) \<and>
     (tl_replaced s \<longrightarrow> found)"

interpretation tl: trace_refinement tl_init "tl_step found" "tl_inv found" "\<lambda>s. nat (tl_thread_val s)" "tl_spec found"
  for found
proof
  fix s assume "tl_init s" then show "tl_inv found s" by (simp add: tl_init_def tl_inv_def)
next
  fix s l s' assume "tl_inv found s" "tl_step found s l s'"
  then show "tl_inv found s'" by (auto elim!: tl_step.cases simp: tl_inv_def)
next
  fix s s' assume "tl_inv found s" "tl_step found s None s'"
  then show "nat (tl_thread_val s') = nat (tl_thread_val s)" by (auto elim!: tl_step.cases)
next
  fix s e s' assume "tl_inv found s" "tl_step found s (Some e) s'"
  then show "tl_spec found (nat (tl_thread_val s)) e = Some (nat (tl_thread_val s'))"
    by (auto elim!: tl_step.cases simp: tl_inv_def nat_add_distrib)
qed

fun thread_lines :: "tl_event list \<Rightarrow> int list" where
  "thread_lines [] = []"
| "thread_lines (Main_line v # es) = thread_lines es"
| "thread_lines (Thread_line v # es) = v # thread_lines es"

lemma spec_lines:
  "abs_run (tl_spec found) n es = Some m \<Longrightarrow>
   thread_lines es = map int [n..<m] \<and> n \<le> m \<and> (\<forall>v. Main_line v \<in> set es \<longrightarrow> v = 0) \<and> (found \<longrightarrow> thread_lines es = [])"
proof (induction es arbitrary: n)
  case (Cons e es)
  show ?case
  proof (cases e)
    case (Main_line v)
    with Cons show ?thesis by (auto split: if_splits)
  next
    case (Thread_line v)
    with Cons.prems have v: "v = int n" "\<not> found" "abs_run (tl_spec found) (Suc n) es = Some m"
      by (auto split: if_splits)
    from Cons.IH [OF v(3)] have "Suc n \<le> m" "thread_lines es = map int [Suc n..<m]" by simp_all
    with Thread_line v Cons.IH [OF v(3)] show ?thesis by (simp add: upt_conv_Cons)
  qed
qed simp

text \<open>
  The counter of one thread is not the other's: \<open>main\<close> shows 0 in every line, whatever the second thread
  counts, and that one counts 0, 1, 2, ... without a gap. When \<open>execl\<close> succeeds the second thread
  never shows a line, and the whole process is gone with it, \<open>main\<close> included.
\<close>

theorem thread_local_counters:
  assumes "tl_init s0" and "Lts.run (tl_step found) s0 es s"
  shows "(\<forall>v. Main_line v \<in> set es \<longrightarrow> v = 0) \<and> (\<exists>m. thread_lines es = map int [0..<m]) \<and>
     (found \<longrightarrow> thread_lines es = [] \<and>
        (\<not> tl_replaced s \<longrightarrow> (\<exists>s'. tl_step found s None s' \<and> (\<forall>l s''. \<not> tl_step found s' l s''))))"
proof -
  have "abs_run (tl_spec found) 0 es = Some (nat (tl_thread_val s))"
    using tl.trace_refines [OF assms] assms(1) by (simp add: tl_init_def)
  note t = spec_lines [OF this]
  have "tl_inv found s" using tl.inv_run [OF assms(2)] tl.inv_init [OF assms(1)] by blast
  then have "\<exists>s'. tl_step found s None s' \<and> (\<forall>l s''. \<not> tl_step found s' l s'')" if "found" "\<not> tl_replaced s"
    using that tl_step.exec_runs [of s found]
    by (intro exI [of _ "s\<lparr>tl_replaced := True\<rparr>"]) (auto simp: tl_inv_def elim: tl_step.cases)
  with t show ?thesis by blast
qed

theorem thread_local_counters_witness:
  "\<exists>s. Lts.run (tl_step False) \<lparr>tl_replaced = False, tl_pc = Tl_Sleep, tl_main_val = 0, tl_thread_val = 0\<rparr>
     [Thread_line 0, Thread_line 1, Main_line 0] s \<and> (\<exists>m. thread_lines [Thread_line 0, Thread_line 1, Main_line 0] = map int [0..<m])"
proof -
  let ?s = "\<lambda>pc v. \<lparr>tl_replaced = False, tl_pc = pc, tl_main_val = 0, tl_thread_val = v\<rparr>"
  have "Lts.run (tl_step False) (?s Tl_Sleep 0) [] (?s Tl_Loop 0)"
    using run_one_tau [of "tl_step False" "?s Tl_Sleep 0"] tl_step.exec_fails [of "?s Tl_Sleep 0" False] by simp
  from run_vis [OF this, of "Thread_line 0" "?s Tl_Loop 1"] tl_step.thread_line [of "?s Tl_Loop 0" False]
  have "Lts.run (tl_step False) (?s Tl_Sleep 0) [Thread_line 0] (?s Tl_Loop 1)" by simp
  from run_vis [OF this, of "Thread_line 1" "?s Tl_Loop 2"] tl_step.thread_line [of "?s Tl_Loop 1" False]
  have "Lts.run (tl_step False) (?s Tl_Sleep 0) [Thread_line 0, Thread_line 1] (?s Tl_Loop 2)" by simp
  from run_vis [OF this, of "Main_line 0" "?s Tl_Loop 2"] tl_step.main_line [of "?s Tl_Loop 2" False]
  have r: "Lts.run (tl_step False) (?s Tl_Sleep 0) [Thread_line 0, Thread_line 1, Main_line 0] (?s Tl_Loop 2)" by simp
  have "tl_init (?s Tl_Sleep 0)" by (simp add: tl_init_def)
  from thread_local_counters [OF this r] r show ?thesis by blast
qed

end
