(* ===== verification/Sum_Lib.thy ===== *)
theory Sum_Lib
  imports Prelude
begin

text \<open>
  The library of 1031 and 1105 (mymath.c): the sum of a range, in the \<open>int\<close> arithmetic of C. Signed overflow
  is undefined behaviour, the value \<open>None\<close>.
\<close>

definition INT_MAX :: int where "INT_MAX = 2147483647"

definition int_fits :: "int \<Rightarrow> bool" where
  "int_fits x \<longleftrightarrow> - INT_MAX - 1 \<le> x \<and> x \<le> INT_MAX"

text \<open>The loop with its variables \<open>i\<close> and \<open>sum\<close>: the addition, then \<open>i++\<close>.\<close>

function sum_loop :: "int \<Rightarrow> int \<Rightarrow> int \<Rightarrow> int option" where
  "sum_loop to i s =
     (if i \<le> to then
        if int_fits (s + i) \<and> int_fits (i + 1) then sum_loop to (i + 1) (s + i) else None
      else Some s)"
  by pat_completeness auto
termination by (relation "measure (\<lambda>(to, i, s). nat (to + 1 - i))") auto

declare sum_loop.simps [simp del]

definition addToTarget :: "int \<Rightarrow> int \<Rightarrow> int option" where
  "addToTarget from to = sum_loop to from 0"

text \<open>The sum by Gauss' formula.\<close>

definition range_sum :: "int \<Rightarrow> int \<Rightarrow> int" where
  "range_sum from to = (from + to) * (to - from + 1) div 2"

lemma range_sum_step: "range_sum i to = i + range_sum (i + 1) to"
proof -
  have "(i + to) * (to - i + 1) = 2 * i + (i + 1 + to) * (to - (i + 1) + 1)" by (simp add: algebra_simps)
  then show ?thesis by (simp add: range_sum_def)
qed

lemma range_sum_empty [simp]: "range_sum (to + 1) to = 0"
  by (simp add: range_sum_def)

lemma range_sum_nonneg: "0 \<le> i \<Longrightarrow> i \<le> to + 1 \<Longrightarrow> 0 \<le> range_sum i to"
  by (cases "i = to + 1") (simp_all add: range_sum_def)

lemma sum_loop_up:
  assumes "0 \<le> i" and "i \<le> to + 1" and "to \<le> INT_MAX" and "0 \<le> s" and "s \<le> INT_MAX"
  shows "sum_loop to i s =
     (if i \<le> to \<and> (to = INT_MAX \<or> INT_MAX < s + range_sum i to) then None else Some (s + range_sum i to))"
  using assms
proof (induction to i s rule: sum_loop.induct)
  case (1 to i s)
  show ?case
  proof (cases "i \<le> to")
    case False
    then have "i = to + 1" using "1.prems" by simp
    then show ?thesis by (subst sum_loop.simps) simp
  next
    case True
    have rs: "range_sum i to = i + range_sum (i + 1) to" "0 \<le> range_sum (i + 1) to"
      using range_sum_step [of i to] range_sum_nonneg [of "i + 1" to] True "1.prems" by auto
    show ?thesis
    proof (cases "int_fits (s + i) \<and> int_fits (i + 1)")
      case False
      then have "to = INT_MAX \<or> INT_MAX < s + i"
        using "1.prems" True by (auto simp: int_fits_def INT_MAX_def)
      then have "to = INT_MAX \<or> INT_MAX < s + range_sum i to" using rs by auto
      then show ?thesis using False True by (subst sum_loop.simps) auto
    next
      case fits: True
      have IH: "sum_loop to (i + 1) (s + i) =
          (if i + 1 \<le> to \<and> (to = INT_MAX \<or> INT_MAX < s + i + range_sum (i + 1) to) then None
           else Some (s + i + range_sum (i + 1) to))"
        by (rule "1.IH" [OF True fits]) (use "1.prems" True fits in \<open>auto simp: int_fits_def\<close>)
      have e: "sum_loop to i s = sum_loop to (i + 1) (s + i)" using True fits by (subst sum_loop.simps) simp
      show ?thesis
      proof (cases "i + 1 \<le> to")
        case True
        then show ?thesis using IH e rs(1) by (simp add: add.assoc)
      next
        case False
        with True have i: "i = to" by simp
        then show ?thesis using IH e rs(1) fits by (simp add: int_fits_def)
      qed
    qed
  qed
qed

text \<open>myprint.c and the program: \<open>now\<close> is \<open>time(NULL)\<close> as an \<open>int\<close>; no output on an overflow is \<open>None\<close>.\<close>

definition Print :: "string \<Rightarrow> int \<Rightarrow> byte list" where
  "Print str now = str @ ''['' @ show_int now @ '']'' @ [CHR 0x0A]"

definition lib_main :: "int \<Rightarrow> byte list option" where
  "lib_main now =
     (case addToTarget 1 2 of
        None \<Rightarrow> None
      | Some n \<Rightarrow> Some (Print ''hello lib'' now @ show_int n @ [CHR 0x0A]))"

lemma lib_main_output: "lib_main now = Some (''hello lib['' @ show_int now @ '']'' @ [CHR 0x0A] @ ''3'' @ [CHR 0x0A])"
proof -
  have "addToTarget 1 2 = Some 3" "show_int 3 = ''3''" by code_simp+
  then show ?thesis by (simp add: lib_main_def Print_def)
qed

text \<open>
  For a range of natural numbers the function returns Gauss' sum, and 0 for an empty range, exactly as long as the
  sum fits into an \<open>int\<close> and the end is not the largest \<open>int\<close>, where the loop could not end;
  from 1, up to 65535.
\<close>

theorem addToTarget_sums:
  assumes "0 \<le> from" and "from \<le> INT_MAX" and "to \<le> INT_MAX"
  shows "addToTarget from to =
     (if to < from then Some 0
      else if to = INT_MAX \<or> INT_MAX < range_sum from to then None
      else Some (range_sum from to)) \<and>
     (from = 1 \<and> 0 \<le> to \<longrightarrow> (addToTarget from to \<noteq> None \<longleftrightarrow> to \<le> 65535))"
proof -
  have m: "0 \<le> INT_MAX" by (simp add: INT_MAX_def)
  have a: "addToTarget from to =
     (if to < from then Some 0
      else if to = INT_MAX \<or> INT_MAX < range_sum from to then None
      else Some (range_sum from to))"
  proof (cases "to < from")
    case True
    then show ?thesis by (simp add: addToTarget_def sum_loop.simps)
  next
    case False
    then show ?thesis using sum_loop_up [of "from" to 0] assms m by (simp add: addToTarget_def)
  qed
  have "INT_MAX < range_sum 1 to \<longleftrightarrow> 65535 < to" if "0 \<le> to"
  proof
    assume "65535 < to"
    then have "65537 * 65536 \<le> (1 + to) * to" by (intro mult_mono) auto
    then show "INT_MAX < range_sum 1 to" by (simp add: range_sum_def INT_MAX_def)
  next
    assume l: "INT_MAX < range_sum 1 to"
    show "65535 < to"
    proof (rule ccontr)
      assume "\<not> 65535 < to"
      then have "(1 + to) * to \<le> 65536 * 65535" using that by (intro mult_mono) auto
      then show False using l by (simp add: range_sum_def INT_MAX_def)
    qed
  qed
  then show ?thesis unfolding a by (auto simp: INT_MAX_def)
qed

theorem addToTarget_sums_witness:
  "addToTarget 100 200 = Some 15150 \<and> addToTarget 1 65536 = None"
  using addToTarget_sums [of 100 200] addToTarget_sums [of 1 65536] by (simp add: INT_MAX_def range_sum_def)

end
