(* ===== verification/Shell_Session.thy ===== *)
theory Shell_Session
  imports Shell Signals Stdio_Read
begin


type_synonym 'w commands = "'w \<Rightarrow> string list \<Rightarrow> ('w \<times> byte list \<times> nat) option"

text \<open>The child, up to its end, and the parent's line.\<close>

definition shell_command :: "'w commands \<Rightarrow> string list \<Rightarrow> 'w \<Rightarrow> byte list \<times> 'w" where
  "shell_command exec argv w =
     (case exec w argv of
        None \<Rightarrow> (line sh_child_text @ sh_exit_line None, w)
      | Some (w', out, status) \<Rightarrow> (line sh_child_text @ out @ sh_exit_line (Some status), w'))"





section \<open>What a session does\<close>











text \<open>The exit code of a command killed by a signal is shown as 0, that of one that cannot be executed as 1.\<close>

lemma killed_shows_0:
  assumes "exec w argv = Some (w', out, status_signaled sig core)" and "sig < 128"
  shows "shell_command exec argv w = (line sh_child_text @ out @ line ''exit code: 0'', w')"
proof -
  have "show_nat 0 = ''0''" by code_simp
  moreover have "WEXITSTATUS (status_signaled sig core) = 0"
    using assms(2) by (simp add: WEXITSTATUS_def status_signaled_def)
  ultimately show ?thesis using assms(1) by (simp add: shell_command_def sh_exit_line_def newline_def)
qed

end
