(* ===== verification/Child_Life.thy ===== *)
theory Child_Life
  imports Sig_Handlers Lts
begin

text \<open>
  Parent and child from \<open>fork\<close> to the end: the blocking waits of 0914/myproc.c, 0919/myproc.cc and
  0104/signal2.cc, and the parents of 0108/mysignal.cc that do not wait but catch or ignore
  \<open>SIGCHLD\<close>. A child that has ended is a zombie until its parent waits, unless the parent ignores
  the signal. What the child itself prints is left out.
\<close>

section \<open>A parent and its child\<close>

datatype kid = Kid_runs | Kid_zombie nat | Kid_gone

text \<open>
  The parent's statements after \<open>fork\<close>: print a line; \<open>waitpid(id, &status, 0)\<close>; print something
  that depends on what \<open>waitpid\<close> returned and on the status word, or nothing; and a loop for ever
  that prints some lines in each round.
\<close>

datatype par_stmt = P_say string | P_wait | P_report "int \<Rightarrow> nat \<Rightarrow> string option" | P_loop "string list"

text \<open>
  A program: the child's number, what is done with \<open>SIGCHLD\<close> and printed when it comes, the parent's
  statements, and the status words with which its child can end.
\<close>

record kid_prog =
  kp_pid :: int
  kp_sigchld :: disposition
  kp_handler :: string
  kp_parent :: "par_stmt list"
  kp_child :: "nat \<Rightarrow> bool"

text \<open>\<open>ks_rest\<close> is what the parent has still to do: a parent with nothing left has ended.\<close>

record kid_sys =
  ks_kid :: kid
  ks_rest :: "par_stmt list"
  ks_ret :: int
  ks_status :: nat
  ks_out :: "string list"

definition kid_init :: "kid_prog \<Rightarrow> kid_sys \<Rightarrow> bool" where
  "kid_init p s \<longleftrightarrow> s = \<lparr>ks_kid = Kid_runs, ks_rest = kp_parent p, ks_ret = 0, ks_status = 0, ks_out = []\<rparr>"

text \<open>
  \<open>waitpid\<close> blocks while the child runs, takes a zombie and gives its status word, and gives -1 when
  there is no child. A child whose parent has ended is waited for by \<open>init\<close>.
\<close>

inductive kid_step :: "kid_prog \<Rightarrow> kid_sys \<Rightarrow> nat option \<Rightarrow> kid_sys \<Rightarrow> bool" for p :: kid_prog where
  says: "ks_rest s = P_say t # r \<Longrightarrow> kid_step p s None (s\<lparr>ks_rest := r, ks_out := ks_out s @ [t]\<rparr>)"
| waited: "ks_rest s = P_wait # r \<Longrightarrow> ks_kid s = Kid_zombie st \<Longrightarrow>
    kid_step p s None (s\<lparr>ks_kid := Kid_gone, ks_rest := r, ks_ret := kp_pid p, ks_status := st\<rparr>)"
| no_child: "ks_rest s = P_wait # r \<Longrightarrow> ks_kid s = Kid_gone \<Longrightarrow>
    kid_step p s None (s\<lparr>ks_rest := r, ks_ret := -1\<rparr>)"
| reports: "ks_rest s = P_report f # r \<Longrightarrow>
    kid_step p s None
      (s\<lparr>ks_rest := r,
         ks_out := ks_out s @ (case f (ks_ret s) (ks_status s) of None \<Rightarrow> [] | Some t \<Rightarrow> [t])\<rparr>)"
| loops: "ks_rest s = P_loop ts # r \<Longrightarrow> kid_step p s None (s\<lparr>ks_out := ks_out s @ ts\<rparr>)"
| child_ends: "ks_kid s = Kid_runs \<Longrightarrow> kp_child p st \<Longrightarrow> ks_rest s \<noteq> [] \<Longrightarrow>
    kid_step p s (Some st)
      (s\<lparr>ks_kid := (if kp_sigchld p = Sig_ign then Kid_gone else Kid_zombie st),
         ks_out := ks_out s @ (if kp_sigchld p = Sig_catch then [kp_handler p] else [])\<rparr>)"
| orphan_ends: "ks_kid s = Kid_runs \<Longrightarrow> kp_child p st \<Longrightarrow> ks_rest s = [] \<Longrightarrow>
    kid_step p s (Some st) (s\<lparr>ks_kid := Kid_gone\<rparr>)"
| adopted: "ks_kid s = Kid_zombie st \<Longrightarrow> ks_rest s = [] \<Longrightarrow> kid_step p s None (s\<lparr>ks_kid := Kid_gone\<rparr>)"

section \<open>The programs\<close>

definition killed :: "nat \<Rightarrow> bool" where
  "killed st \<longleftrightarrow> (\<exists>sig \<in> set [1..<65]. default_fate sig = Ended \<and>
     (st = status_signaled sig True \<or> st = status_signaled sig False))"

text \<open>0914: the child's loop has no end, so it never comes to \<open>exit(105)\<close>.\<close>

definition par_text :: string where
  "par_text = utf8 [0xE6, 0x88, 0x91, 0xE6, 0x98, 0xAF, 0xE7, 0x88, 0xB6, 0xE8, 0xBF, 0x9B, 0xE7, 0xA8, 0x8B]"

definition kid_text :: string where
  "kid_text = utf8 [0xE5, 0xAD, 0x90, 0xE8, 0xBF, 0x9B, 0xE7, 0xA8, 0x8B]"

definition code_of_text :: string where
  "code_of_text = kid_text @ utf8 [0xE7, 0x9A, 0x84, 0xE9, 0x80, 0x80, 0xE5, 0x87, 0xBA, 0xE7, 0xA0, 0x81] @ '': ''"

definition report_0914 :: "int \<Rightarrow> nat \<Rightarrow> string" where
  "report_0914 ret status =
     utf8 [0xE7, 0xAD, 0x89, 0xE5, 0xBE, 0x85] @ kid_text @ utf8 [0xE6, 0x88, 0x90, 0xE5, 0x8A, 0x9F] @
     '', ret: '' @ show_int ret @ '', status: '' @ show_nat status @ '', '' @ kid_text @
     utf8 [0xE6, 0x94, 0xB6, 0xE5, 0x88, 0xB0, 0xE7, 0x9A, 0x84, 0xE4, 0xBF, 0xA1, 0xE5, 0x8F, 0xB7, 0xE7, 0xBC,
       0x96, 0xE5, 0x8F, 0xB7] @ '': '' @ show_nat (status mod 128) @ '', '' @ code_of_text @
     show_nat (status div 256 mod 256) @ [CHR 0x0A]"

definition prog_0914 :: "int \<Rightarrow> int \<Rightarrow> int \<Rightarrow> kid_prog" where
  "prog_0914 pid ppid kid =
     \<lparr>kp_pid = kid, kp_sigchld = Sig_dfl, kp_handler = [],
      kp_parent =
        [P_say (par_text @ '', pid: '' @ show_int pid @ '',ppid: '' @ show_int ppid @ [CHR 0x0A]),
         P_wait,
         P_report (\<lambda>ret status. if 0 < ret then Some (report_0914 ret status) else None)],
      kp_child = killed\<rparr>"

text \<open>
  0919, the blocking version under \<open>#if 0\<close> (the loop that is compiled, with \<open>WNOHANG\<close>, is
  \<open>wait_loop\<close>): the child exits with 11 unless a signal kills it.
\<close>

definition WIFEXITED :: "nat \<Rightarrow> bool" where "WIFEXITED status \<longleftrightarrow> status mod 128 = 0"

definition report_0919 :: "nat \<Rightarrow> string" where
  "report_0919 status =
     (if WIFEXITED status
      then kid_text @ utf8 [0xE6, 0x89, 0xA7, 0xE8, 0xA1, 0x8C, 0xE5, 0xAE, 0x8C, 0xE6, 0xAF, 0x95, 0xEF, 0xBC, 0x8C] @
        code_of_text @ show_nat (WEXITSTATUS status) @ [CHR 0x0A]
      else kid_text @ utf8 [0xE5, 0xBC, 0x82, 0xE5, 0xB8, 0xB8, 0xE9, 0x80, 0x80, 0xE5, 0x87, 0xBA] @ '': '' @
        show_nat (if WIFEXITED status then 1 else 0) @ [CHR 0x0A])"

definition prog_0919 :: "int \<Rightarrow> kid_prog" where
  "prog_0919 kid =
     \<lparr>kp_pid = kid, kp_sigchld = Sig_dfl, kp_handler = [],
      kp_parent = [P_wait, P_report (\<lambda>ret status. if 0 < ret then Some (report_0919 status) else None)],
      kp_child = (\<lambda>st. killed st \<or> st = status_exited 11)\<rparr>"

text \<open>0104: the child divides by zero; where that does not raise \<open>SIGFPE\<close>, it exits with 0.\<close>

definition report_0104 :: "int \<Rightarrow> int \<Rightarrow> nat \<Rightarrow> string" where
  "report_0104 pid cpid status =
     utf8 [0xE7, 0x88, 0xB6, 0xE8, 0xBF, 0x9B, 0xE7, 0xA8, 0x8B] @ '': '' @ show_int pid @ kid_text @ '': '' @ show_int cpid @
     '' exit sig: '' @ show_nat (exit_sig status) @ '' is core: '' @ show_nat (is_core status) @ [CHR 0x0A]"

definition prog_0104 :: "int \<Rightarrow> int \<Rightarrow> kid_prog" where
  "prog_0104 pid kid =
     \<lparr>kp_pid = kid, kp_sigchld = Sig_dfl, kp_handler = [],
      kp_parent = [P_wait, P_report (\<lambda>ret status. Some (report_0104 pid kid status))],
      kp_child = (\<lambda>st. killed st \<or> st = status_exited 0)\<rparr>"

text \<open>0108: the parent catches \<open>SIGCHLD\<close> (its loop prints nothing), or ignores it.\<close>

definition chld_text :: "nat \<Rightarrow> string" where
  "chld_text signum = kid_text @ utf8 [0xE9, 0x80, 0x80, 0xE5, 0x87, 0xBA] @ '': '' @ show_nat signum @ [CHR 0x0A]"

definition prog_0108_catch :: "int \<Rightarrow> kid_prog" where
  "prog_0108_catch kid =
     \<lparr>kp_pid = kid, kp_sigchld = Sig_catch, kp_handler = chld_text 17, kp_parent = [P_loop []],
      kp_child = (\<lambda>st. killed st \<or> st = status_exited 0)\<rparr>"

definition own_task_text :: "int \<Rightarrow> string" where
  "own_task_text pid = ''parent: '' @ show_int pid @ utf8 [0x20, 0xE6, 0x89, 0xA7, 0xE8, 0xA1, 0x8C, 0xE6, 0x88, 0x91, 0xE8,
     0x87, 0xAA, 0xE5, 0xB7, 0xB1, 0xE7, 0x9A, 0x84, 0xE4, 0xBB, 0xBB, 0xE5, 0x8A, 0xA1] @ ''!'' @ [CHR 0x0A]"

definition prog_0108_ignore :: "int \<Rightarrow> int \<Rightarrow> kid_prog" where
  "prog_0108_ignore pid kid =
     \<lparr>kp_pid = kid, kp_sigchld = Sig_ign, kp_handler = [], kp_parent = [P_loop [own_task_text pid]],
      kp_child = (\<lambda>st. killed st \<or> st = status_exited 0)\<rparr>"

section \<open>Waiting parents\<close>

text \<open>A parent that prints some lines, waits and reports, and what is true of it at each statement.\<close>

definition waiting :: "kid_prog \<Rightarrow> string list \<Rightarrow> (int \<Rightarrow> nat \<Rightarrow> string option) \<Rightarrow> bool" where
  "waiting p hs f \<longleftrightarrow> kp_parent p = map P_say hs @ [P_wait, P_report f] \<and> kp_sigchld p = Sig_dfl"

definition waits_before :: "string list \<Rightarrow> (int \<Rightarrow> nat \<Rightarrow> string option) \<Rightarrow> kid_sys \<Rightarrow> bool" where
  "waits_before hs f s \<longleftrightarrow> ks_kid s \<noteq> Kid_gone \<and>
     (\<exists>us. hs = ks_out s @ us \<and> ks_rest s = map P_say us @ [P_wait, P_report f])"

definition waits_after :: "kid_prog \<Rightarrow> string list \<Rightarrow> (int \<Rightarrow> nat \<Rightarrow> string option) \<Rightarrow> kid_sys \<Rightarrow> bool" where
  "waits_after p hs f s \<longleftrightarrow> ks_kid s = Kid_gone \<and>
     (ks_rest s = [P_report f] \<and> ks_ret s = kp_pid p \<and> kp_child p (ks_status s) \<and> ks_out s = hs \<or>
      ks_rest s = [] \<and>
        (\<exists>st. kp_child p st \<and> ks_out s = hs @ (case f (kp_pid p) st of None \<Rightarrow> [] | Some t \<Rightarrow> [t])))"

definition waits_inv :: "kid_prog \<Rightarrow> string list \<Rightarrow> (int \<Rightarrow> nat \<Rightarrow> string option) \<Rightarrow> kid_sys \<Rightarrow> bool" where
  "waits_inv p hs f s \<longleftrightarrow>
     (\<forall>st. ks_kid s = Kid_zombie st \<longrightarrow> kp_child p st) \<and> (waits_before hs f s \<or> waits_after p hs f s)"

lemma waits_before_step:
  assumes "kid_step p s l s'" and "kp_sigchld p = Sig_dfl" and "\<forall>st. ks_kid s = Kid_zombie st \<longrightarrow> kp_child p st"
    and "waits_before hs f s"
  shows "waits_inv p hs f s'"
proof -
  from assms(4) obtain us where k: "ks_kid s \<noteq> Kid_gone" "hs = ks_out s @ us"
    "ks_rest s = map P_say us @ [P_wait, P_report f]" by (auto simp: waits_before_def)
  from assms(1) show ?thesis
  proof cases
    case (says t r)
    then obtain vs where "us = t # vs" "r = map P_say vs @ [P_wait, P_report f]" using k(3) by (cases us) auto
    then have "waits_before hs f s'" using says k by (auto simp: waits_before_def)
    with says assms(3) show ?thesis by (simp add: waits_inv_def)
  next
    case (waited r st)
    then have "us = []" "r = [P_report f]" using k(3) by (cases us; simp)+
    then have "waits_after p hs f s'" using waited k assms(3) by (simp add: waits_after_def)
    with waited show ?thesis by (simp add: waits_inv_def)
  next
    case (child_ends st)
    then have "waits_before hs f s'" using k assms(2) by (auto simp: waits_before_def)
    with child_ends assms(2) show ?thesis by (simp add: waits_inv_def)
  qed (use k in \<open>cases us; simp\<close>)+
qed

lemma waits_after_step: "kid_step p s l s' \<Longrightarrow> waits_after p hs f s \<Longrightarrow> waits_inv p hs f s'"
  by (induction rule: kid_step.induct) (auto simp: waits_inv_def waits_after_def)

lemma waits_step: "kid_step p s l s' \<Longrightarrow> waiting p hs f \<Longrightarrow> waits_inv p hs f s \<Longrightarrow> waits_inv p hs f s'"
  using waits_before_step waits_after_step by (metis waiting_def waits_inv_def)

interpretation wt: inductive_invariant "\<lambda>s. waiting p hs f \<and> kid_init p s" "kid_step p"
  "\<lambda>s. waiting p hs f \<and> waits_inv p hs f s" for p hs f
proof
  fix s assume "waiting p hs f \<and> kid_init p s"
  then show "waiting p hs f \<and> waits_inv p hs f s"
    by (auto simp: kid_init_def waiting_def waits_inv_def waits_before_def)
next
  fix s l s' assume "waiting p hs f \<and> waits_inv p hs f s" "kid_step p s l s'"
  then show "waiting p hs f \<and> waits_inv p hs f s'" using waits_step by blast
qed

text \<open>When a waiting parent has ended, its child is gone and it has said what its report says of the status word.\<close>

lemma waiting_ended:
  assumes "reachable (kid_init p) (kid_step p) s" and "ks_rest s = []" and "waiting p hs f"
  shows "ks_kid s = Kid_gone \<and>
     (\<exists>st. kp_child p st \<and> ks_out s = hs @ (case f (kp_pid p) st of None \<Rightarrow> [] | Some t \<Rightarrow> [t]))"
proof -
  have "waits_inv p hs f s"
    using wt.inv_reachable [of p hs f s] assms(1,3) by (simp add: reachable_def)
  with assms(2) show ?thesis by (auto simp: waits_inv_def waits_before_def waits_after_def)
qed

lemma killed_status:
  assumes "killed st"
  shows "\<exists>sig core. 1 \<le> sig \<and> sig \<le> 64 \<and> default_fate sig = Ended \<and> core \<le> 1 \<and> st = sig + 128 * core \<and>
     st mod 128 = sig \<and> st div 128 mod 2 = core \<and> st div 256 mod 256 = 0 \<and> exit_sig st = sig \<and> is_core st = core \<and>
     \<not> WIFEXITED st"
proof -
  from assms obtain sig c where k: "1 \<le> sig" "sig \<le> 64" "default_fate sig = Ended" "st = status_signaled sig c"
    by (auto simp: killed_def)
  then show ?thesis
    by (intro exI [of _ sig] exI [of _ "if c then 1 else 0"])
      (auto simp: status_signaled_def exit_sig_def is_core_def WIFEXITED_def)
qed

text \<open>What the three parents are to print, written out.\<close>

definition lines_0914 :: "int \<Rightarrow> int \<Rightarrow> int \<Rightarrow> nat \<Rightarrow> nat \<Rightarrow> string list" where
  "lines_0914 pid ppid kid sig core =
     [utf8 [0xE6, 0x88, 0x91, 0xE6, 0x98, 0xAF, 0xE7, 0x88, 0xB6, 0xE8, 0xBF, 0x9B, 0xE7, 0xA8, 0x8B] @ '', pid: '' @
        show_int pid @ '',ppid: '' @ show_int ppid @ [CHR 0x0A],
      utf8 [0xE7, 0xAD, 0x89, 0xE5, 0xBE, 0x85, 0xE5, 0xAD, 0x90, 0xE8, 0xBF, 0x9B, 0xE7, 0xA8, 0x8B, 0xE6, 0x88, 0x90, 0xE5,
        0x8A, 0x9F] @ '', ret: '' @ show_int kid @ '', status: '' @ show_nat (sig + 128 * core) @ '', '' @
      utf8 [0xE5, 0xAD, 0x90, 0xE8, 0xBF, 0x9B, 0xE7, 0xA8, 0x8B, 0xE6, 0x94, 0xB6, 0xE5, 0x88, 0xB0, 0xE7, 0x9A, 0x84, 0xE4,
        0xBF, 0xA1, 0xE5, 0x8F, 0xB7, 0xE7, 0xBC, 0x96, 0xE5, 0x8F, 0xB7] @ '': '' @ show_nat sig @ '', '' @
      utf8 [0xE5, 0xAD, 0x90, 0xE8, 0xBF, 0x9B, 0xE7, 0xA8, 0x8B, 0xE7, 0x9A, 0x84, 0xE9, 0x80, 0x80, 0xE5, 0x87, 0xBA, 0xE7,
        0xA0, 0x81] @ '': 0'' @ [CHR 0x0A]]"

definition line_0919_code :: string where
  "line_0919_code =
     utf8 [0xE5, 0xAD, 0x90, 0xE8, 0xBF, 0x9B, 0xE7, 0xA8, 0x8B, 0xE6, 0x89, 0xA7, 0xE8, 0xA1, 0x8C, 0xE5, 0xAE, 0x8C, 0xE6,
       0xAF, 0x95, 0xEF, 0xBC, 0x8C, 0xE5, 0xAD, 0x90, 0xE8, 0xBF, 0x9B, 0xE7, 0xA8, 0x8B, 0xE7, 0x9A, 0x84, 0xE9, 0x80, 0x80,
       0xE5, 0x87, 0xBA, 0xE7, 0xA0, 0x81] @ '': 11'' @ [CHR 0x0A]"

definition line_0919_signal :: string where
  "line_0919_signal =
     utf8 [0xE5, 0xAD, 0x90, 0xE8, 0xBF, 0x9B, 0xE7, 0xA8, 0x8B, 0xE5, 0xBC, 0x82, 0xE5, 0xB8, 0xB8, 0xE9, 0x80, 0x80, 0xE5,
       0x87, 0xBA] @ '': 0'' @ [CHR 0x0A]"

definition line_0104 :: "int \<Rightarrow> int \<Rightarrow> nat \<Rightarrow> nat \<Rightarrow> string" where
  "line_0104 pid kid sig core =
     utf8 [0xE7, 0x88, 0xB6, 0xE8, 0xBF, 0x9B, 0xE7, 0xA8, 0x8B] @ '': '' @ show_int pid @
     utf8 [0xE5, 0xAD, 0x90, 0xE8, 0xBF, 0x9B, 0xE7, 0xA8, 0x8B] @ '': '' @ show_int kid @
     '' exit sig: '' @ show_nat sig @ '' is core: '' @ show_nat core @ [CHR 0x0A]"

lemma utf8_append: "utf8 xs @ utf8 ys @ s = utf8 (xs @ ys) @ s"
  by (simp add: utf8_def)

lemma shown_digits: "show_nat 0 = ''0''" "show_nat 11 = ''11''"
  by (simp_all add: show_nat_def show_base.simps digit_char_def char_of_def bit_0)

lemma report_0914_killed:
  assumes "killed st"
  shows "\<exists>sig core. 1 \<le> sig \<and> sig \<le> 64 \<and> core \<le> 1 \<and>
     [par_text @ '', pid: '' @ show_int pid @ '',ppid: '' @ show_int ppid @ [CHR 0x0A], report_0914 kid st] =
       lines_0914 pid ppid kid sig core"
proof -
  from killed_status [OF assms] obtain sig core where k: "1 \<le> sig" "sig \<le> 64" "core \<le> 1" "st = sig + 128 * core"
    "st mod 128 = sig" "st div 256 mod 256 = 0" by (elim exE conjE) (rule that; assumption)
  have "report_0914 kid st = lines_0914 pid ppid kid sig core ! 1"
    unfolding report_0914_def lines_0914_def k(5,6) shown_digits kid_text_def code_of_text_def
    unfolding k(4) by (simp only: utf8_append append_assoc append.simps nth_Cons_0 nth_Cons_Suc One_nat_def)
  with k(1-3) show ?thesis
    by (intro exI [of _ sig] exI [of _ core]) (simp add: lines_0914_def par_text_def)
qed

lemma report_0919_lines:
  "report_0919 (status_exited 11) = line_0919_code" "killed st \<Longrightarrow> report_0919 st = line_0919_signal"
  using killed_status [of st]
  by (auto simp: report_0919_def line_0919_code_def line_0919_signal_def WIFEXITED_def WEXITSTATUS_def status_exited_def
      kid_text_def code_of_text_def shown_digits utf8_def)

lemma report_0104_line:
  "killed st \<or> st = status_exited 0 \<Longrightarrow>
   \<exists>sig core. (1 \<le> sig \<and> sig \<le> 64 \<and> core \<le> 1 \<or> sig = 0 \<and> core = 0) \<and> report_0104 pid kid st = line_0104 pid kid sig core"
proof (elim disjE)
  assume "killed st"
  from killed_status [OF this] obtain sig core where "1 \<le> sig" "sig \<le> 64" "core \<le> 1" "exit_sig st = sig" "is_core st = core"
    by blast
  then show ?thesis
    by (rule_tac x = sig in exI, rule_tac x = core in exI) (simp add: report_0104_def line_0104_def kid_text_def)
next
  assume "st = status_exited 0"
  then show ?thesis
    by (intro exI [of _ "0 :: nat"]) (simp add: report_0104_def line_0104_def exit_sig_def is_core_def status_exited_def kid_text_def)
qed

text \<open>
  C40. When one of the three parents that wait has ended, its child is gone, and it has reported the
  child's end once, after its own lines. 0914 reports the child's number, the status word, a signal
  from 1 to 64 and the exit code 0, never the 105 of the source. The blocking version of 0919 reports
  the code 11, or for whatever signal the number 0. 0104 reports the signal and the core bit of
  the status word, or 0 and 0 where the division raises no signal.
\<close>

theorem child_reported:
  assumes "0 < kid"
  shows "(\<forall>s. reachable (kid_init (prog_0914 pid ppid kid)) (kid_step (prog_0914 pid ppid kid)) s \<and> ks_rest s = [] \<longrightarrow>
       ks_kid s = Kid_gone \<and>
       (\<exists>sig core. 1 \<le> sig \<and> sig \<le> 64 \<and> core \<le> 1 \<and> ks_out s = lines_0914 pid ppid kid sig core)) \<and>
     (\<forall>s. reachable (kid_init (prog_0919 kid)) (kid_step (prog_0919 kid)) s \<and> ks_rest s = [] \<longrightarrow>
       ks_kid s = Kid_gone \<and> ks_out s \<in> {[line_0919_code], [line_0919_signal]}) \<and>
     (\<forall>s. reachable (kid_init (prog_0104 pid kid)) (kid_step (prog_0104 pid kid)) s \<and> ks_rest s = [] \<longrightarrow>
       ks_kid s = Kid_gone \<and>
       (\<exists>sig core. (1 \<le> sig \<and> sig \<le> 64 \<and> core \<le> 1 \<or> sig = 0 \<and> core = 0) \<and>
          ks_out s = [line_0104 pid kid sig core]))"
proof (intro conjI allI impI; elim conjE)
  fix s assume r: "reachable (kid_init (prog_0914 pid ppid kid)) (kid_step (prog_0914 pid ppid kid)) s" "ks_rest s = []"
  have "waiting (prog_0914 pid ppid kid) [par_text @ '', pid: '' @ show_int pid @ '',ppid: '' @ show_int ppid @ [CHR 0x0A]]
      (\<lambda>ret status. if 0 < ret then Some (report_0914 ret status) else None)"
    by (simp add: waiting_def prog_0914_def)
  note w = waiting_ended [OF r this]
  then show "ks_kid s = Kid_gone" ..
  from w obtain st where "killed st" and
    o: "ks_out s = [par_text @ '', pid: '' @ show_int pid @ '',ppid: '' @ show_int ppid @ [CHR 0x0A], report_0914 kid st]"
    using assms by (auto simp: prog_0914_def)
  from report_0914_killed [OF this(1), of pid ppid kid]
  show "\<exists>sig core. 1 \<le> sig \<and> sig \<le> 64 \<and> core \<le> 1 \<and> ks_out s = lines_0914 pid ppid kid sig core" unfolding o .
next
  fix s assume r: "reachable (kid_init (prog_0919 kid)) (kid_step (prog_0919 kid)) s" "ks_rest s = []"
  have "waiting (prog_0919 kid) [] (\<lambda>ret status. if 0 < ret then Some (report_0919 status) else None)"
    by (simp add: waiting_def prog_0919_def)
  note w = waiting_ended [OF r this]
  then show "ks_kid s = Kid_gone" ..
  from w obtain st where "killed st \<or> st = status_exited 11" "ks_out s = [report_0919 st]"
    using assms by (auto simp: prog_0919_def)
  then show "ks_out s \<in> {[line_0919_code], [line_0919_signal]}" using report_0919_lines by auto
next
  fix s assume r: "reachable (kid_init (prog_0104 pid kid)) (kid_step (prog_0104 pid kid)) s" "ks_rest s = []"
  have "waiting (prog_0104 pid kid) [] (\<lambda>ret status. Some (report_0104 pid kid status))"
    by (simp add: waiting_def prog_0104_def)
  note w = waiting_ended [OF r this]
  then show "ks_kid s = Kid_gone" ..
  from w obtain st where "killed st \<or> st = status_exited 0" and o: "ks_out s = [report_0104 pid kid st]"
    by (auto simp: prog_0104_def)
  from report_0104_line [OF this(1), of pid kid]
  show "\<exists>sig core. (1 \<le> sig \<and> sig \<le> 64 \<and> core \<le> 1 \<or> sig = 0 \<and> core = 0) \<and> ks_out s = [line_0104 pid kid sig core]"
    unfolding o by simp
qed

text \<open>A run in which the child of 0914 is killed by signal 9 while the parent waits.\<close>

lemma kid_demo_run:
  "\<exists>s. reachable (kid_init (prog_0914 7 6 8)) (kid_step (prog_0914 7 6 8)) s \<and> ks_rest s = []"
proof -
  let ?p = "prog_0914 7 6 8"
  let ?f = "\<lambda>ret status. if 0 < ret then Some (report_0914 ret status) else None"
  obtain h where h: "kp_parent ?p = [P_say h, P_wait, P_report ?f]" by (simp add: prog_0914_def)
  let ?a = "\<lparr>ks_kid = Kid_runs, ks_rest = [P_say h, P_wait, P_report ?f], ks_ret = 0, ks_status = 0, ks_out = []\<rparr>"
  let ?b = "\<lparr>ks_kid = Kid_runs, ks_rest = [P_wait, P_report ?f], ks_ret = 0, ks_status = 0, ks_out = [h]\<rparr>"
  let ?c = "\<lparr>ks_kid = Kid_zombie 9, ks_rest = [P_wait, P_report ?f], ks_ret = 0, ks_status = 0, ks_out = [h]\<rparr>"
  let ?d = "\<lparr>ks_kid = Kid_gone, ks_rest = [P_report ?f], ks_ret = 8, ks_status = 9, ks_out = [h]\<rparr>"
  let ?e = "\<lparr>ks_kid = Kid_gone, ks_rest = [], ks_ret = 8, ks_status = 9, ks_out = [h, report_0914 8 9]\<rparr>"
  have p: "kp_sigchld ?p = Sig_dfl" "kp_pid ?p = 8" "kp_child ?p = killed" by (simp_all add: prog_0914_def)
  have k: "killed 9" unfolding killed_def
    by (rule bexI [of _ 9]) (simp_all add: default_fate_def status_signaled_def)
  have a: "reachable (kid_init ?p) (kid_step ?p) ?a" by (rule reachable_init) (simp add: kid_init_def h)
  have "kid_step ?p ?a None ?b" using kid_step.says [of ?a h] by simp
  note b = reachable_step [OF a this]
  have "kid_step ?p ?b (Some 9) ?c" using kid_step.child_ends [of ?b ?p 9] k p by simp
  note c = reachable_step [OF b this]
  have "kid_step ?p ?c None ?d" using kid_step.waited [of ?c _ 9 ?p] p by simp
  note d = reachable_step [OF c this]
  have "kid_step ?p ?d None ?e" using kid_step.reports [of ?d ?f "[]" ?p] by simp
  note e = reachable_step [OF d this]
  show ?thesis by (rule exI [of _ ?e]) (simp add: e)
qed

theorem child_reported_witness:
  "\<exists>(s :: kid_sys) sig core. ks_rest s = [] \<and> ks_kid s = Kid_gone \<and> ks_out s = lines_0914 7 6 8 sig core"
proof -
  from kid_demo_run obtain s where s: "reachable (kid_init (prog_0914 7 6 8)) (kid_step (prog_0914 7 6 8)) s" "ks_rest s = []"
    by blast
  have "(0 :: int) < 8" by simp
  from child_reported [OF this, of 7 6, THEN conjunct1] s obtain sig core where
    "ks_kid s = Kid_gone" "ks_out s = lines_0914 7 6 8 sig core" by blast
  with s(2) show ?thesis by blast
qed

section \<open>Parents that do not wait\<close>

definition catch_inv :: "kid_sys \<Rightarrow> bool" where
  "catch_inv s \<longleftrightarrow> ks_rest s = [P_loop []] \<and>
     (case ks_kid s of Kid_runs \<Rightarrow> ks_out s = [] | Kid_zombie st \<Rightarrow> ks_out s = [chld_text 17] | Kid_gone \<Rightarrow> False)"

definition ignore_inv :: "int \<Rightarrow> kid_sys \<Rightarrow> bool" where
  "ignore_inv pid s \<longleftrightarrow> ks_rest s = [P_loop [own_task_text pid]] \<and> (\<forall>st. ks_kid s \<noteq> Kid_zombie st) \<and>
     set (ks_out s) \<subseteq> {own_task_text pid}"

interpretation kc: inductive_invariant "kid_init (prog_0108_catch kid)" "kid_step (prog_0108_catch kid)" catch_inv for kid
proof
  fix s assume "kid_init (prog_0108_catch kid) s"
  then show "catch_inv s" by (simp add: kid_init_def catch_inv_def prog_0108_catch_def)
next
  fix s l s' assume "catch_inv s" "kid_step (prog_0108_catch kid) s l s'"
  then show "catch_inv s'"
    by (auto elim!: kid_step.cases simp: catch_inv_def prog_0108_catch_def split: kid.splits)
qed

interpretation ki: inductive_invariant "kid_init (prog_0108_ignore pid kid)" "kid_step (prog_0108_ignore pid kid)"
  "ignore_inv pid" for pid kid
proof
  fix s assume "kid_init (prog_0108_ignore pid kid) s"
  then show "ignore_inv pid s" by (simp add: kid_init_def ignore_inv_def prog_0108_ignore_def)
next
  fix s l s' assume "ignore_inv pid s" "kid_step (prog_0108_ignore pid kid) s l s'"
  then show "ignore_inv pid s'"
    by (auto elim!: kid_step.cases simp: ignore_inv_def prog_0108_ignore_def)
qed

text \<open>
  The parent of 0108 that catches \<open>SIGCHLD\<close> prints its line exactly once, when the child ends,
  and the child stays a zombie from then on; with the signal ignored there is never a zombie, and
  nothing but the parent's own lines is printed. Neither parent ever ends.
\<close>

theorem sigchld_zombies:
  "(\<forall>s. reachable (kid_init (prog_0108_catch kid)) (kid_step (prog_0108_catch kid)) s \<longrightarrow>
      ks_rest s \<noteq> [] \<and> ks_kid s \<noteq> Kid_gone \<and> ks_out s = (if ks_kid s = Kid_runs then [] else [chld_text 17])) \<and>
   (\<forall>s. reachable (kid_init (prog_0108_ignore pid kid)) (kid_step (prog_0108_ignore pid kid)) s \<longrightarrow>
      ks_rest s \<noteq> [] \<and> (\<forall>st. ks_kid s \<noteq> Kid_zombie st) \<and> set (ks_out s) \<subseteq> {own_task_text pid})"
  using kc.inv_reachable [of kid] ki.inv_reachable [of pid kid]
  by (fastforce simp: catch_inv_def ignore_inv_def split: kid.splits)

end
