(* ===== verification/Udp_Network.thy ===== *)
theory Udp_Network
  imports Udp_Chat Lts
begin

text \<open>
  The chat of 0215/udp as a whole: the server, any number of clients with their two threads and
  \<open>main\<close> (udp_client.cc), and the network between them. UDP may lose, repeat and reorder datagrams, so
  the network is the set of those sent, and any of them can arrive at any time. \<open>addr i\<close> is the
  address and port the kernel gives client \<open>i\<close>. Threads are created successfully, and \<open>recvfrom\<close>
  does not fail.
\<close>

section \<open>A client\<close>

text \<open>\<open>main\<close> up to the threads: the socket and the server's address, or an exit status.\<close>

definition udp_client_main ::
  "(string \<Rightarrow> 32 word) \<Rightarrow> int \<Rightarrow> string list \<Rightarrow> (int \<times> sockaddr_in) outcome" where
  "udp_client_main inet_addr sock argv =
     (if length argv \<noteq> 3 then Exit 1
      else if sock < 0 then Exit 2
      else Go (sock, udp_server_addr inet_addr (argv ! 1) (port_of_arg (argv ! 2))))"

text \<open>A thread that was not started, runs, has returned, or has undefined behaviour.\<close>

datatype thread_life = Not_started | Active | Returned | Undefined

datatype client_main = Start_sender | Start_recver | Join_sender | Join_recver | Close_sock | Main_returned

record udp_client =
  uc_main :: client_main
  uc_sender :: thread_life
  uc_recver :: thread_life
  uc_cin :: cin
  uc_message :: string

text \<open>\<open>Thread::join\<close> comes back when the thread has returned.\<close>

definition Thread_join :: "thread_life \<Rightarrow> bool" where
  "Thread_join t \<longleftrightarrow> t = Returned"

definition client_main_step :: "udp_client \<Rightarrow> udp_client option" where
  "client_main_step c =
     (case uc_main c of
        Start_sender \<Rightarrow> Some (c\<lparr>uc_main := Start_recver, uc_sender := Active\<rparr>)
      | Start_recver \<Rightarrow> Some (c\<lparr>uc_main := Join_sender, uc_recver := Active\<rparr>)
      | Join_sender \<Rightarrow> if Thread_join (uc_sender c) then Some (c\<lparr>uc_main := Join_recver\<rparr>) else None
      | Join_recver \<Rightarrow> if Thread_join (uc_recver c) then Some (c\<lparr>uc_main := Close_sock\<rparr>) else None
      | Close_sock \<Rightarrow> Some (c\<lparr>uc_main := Main_returned\<rparr>)
      | Main_returned \<Rightarrow> None)"

text \<open>One iteration of \<open>udpSend\<close>: the datagram sent, if any.\<close>

definition client_send_step :: "udp_client \<Rightarrow> (udp_client \<times> byte list option) option" where
  "client_send_step c =
     (if uc_sender c \<noteq> Active then None
      else
        let (m, cin') = getline (uc_message c) (uc_cin c); c' = c\<lparr>uc_cin := cin', uc_message := m\<rparr> in
        if m = ''quit'' then Some (c'\<lparr>uc_sender := Returned\<rparr>, None) else Some (c', Some m))"

text \<open>One iteration of \<open>udpRecv\<close> with the datagram \<open>d\<close>: the line printed, if any.\<close>

definition client_recv_step :: "byte list \<Rightarrow> udp_client \<Rightarrow> (udp_client \<times> string option) option" where
  "client_recv_step d c =
     (if uc_recver c \<noteq> Active then None
      else (case udpRecv_round (Some d) of
              None \<Rightarrow> Some (c\<lparr>uc_recver := Undefined\<rparr>, None)
            | Some l \<Rightarrow> Some (c, l)))"

lemma udpSend_step:
  "uc_sender c = Active \<Longrightarrow>
   udpSend (Suc n) (uc_message c) (uc_cin c) =
     (case client_send_step c of
        Some (c', Some m) \<Rightarrow> (let (out, ended) = udpSend n (uc_message c') (uc_cin c') in (m # out, ended))
      | _ \<Rightarrow> ([], True))"
  by (simp add: client_send_step_def Let_def case_prod_beta)

section \<open>The whole system\<close>

text \<open>\<open>un_server\<close> is \<open>None\<close> after undefined behaviour of the server.\<close>

record udp_net =
  un_server :: "udp_server option"
  un_clients :: "udp_client list"
  un_to_server :: "(sockaddr_in \<times> byte list) set"
  un_to_clients :: "(sockaddr_in \<times> byte list) set"

datatype chat_event = Typed nat string | Shown nat string

definition chat_init :: "16 word \<Rightarrow> udp_net \<Rightarrow> bool" where
  "chat_init port s \<longleftrightarrow>
     (\<exists>sock. un_server s = Some ((UdpServer_ctor port [])\<lparr>us_sock := sock\<rparr>)) \<and>
     (\<forall>c \<in> set (un_clients s). uc_main c = Start_sender \<and> uc_sender c = Not_started \<and>
        uc_recver c = Not_started \<and> uc_message c = []) \<and>
     un_to_server s = {} \<and> un_to_clients s = {}"

text \<open>\<open>key0\<close> is what the server finds in its uninitialised array.\<close>

inductive chat_step :: "(nat \<Rightarrow> sockaddr_in) \<Rightarrow> udp_net \<Rightarrow> chat_event option \<Rightarrow> udp_net \<Rightarrow> bool"
  for addr :: "nat \<Rightarrow> sockaddr_in" where
  main_moves: "i < length (un_clients s) \<Longrightarrow> client_main_step (un_clients s ! i) = Some c \<Longrightarrow>
    chat_step addr s None (s\<lparr>un_clients := (un_clients s)[i := c]\<rparr>)"
| sender_sends: "i < length (un_clients s) \<Longrightarrow> client_send_step (un_clients s ! i) = Some (c, Some m) \<Longrightarrow>
    chat_step addr s (Some (Typed i m))
      (s\<lparr>un_clients := (un_clients s)[i := c], un_to_server := insert (addr i, m) (un_to_server s)\<rparr>)"
| sender_quits: "i < length (un_clients s) \<Longrightarrow> client_send_step (un_clients s ! i) = Some (c, None) \<Longrightarrow>
    chat_step addr s None (s\<lparr>un_clients := (un_clients s)[i := c]\<rparr>)"
| server_round: "un_server s = Some srv \<Longrightarrow> r \<in> un_to_server s \<Longrightarrow>
    udp_round key0 (Some r) srv = Some (out, srv') \<Longrightarrow>
    chat_step addr s None (s\<lparr>un_server := Some srv', un_to_clients := un_to_clients s \<union> set out\<rparr>)"
| server_undefined: "un_server s = Some srv \<Longrightarrow> r \<in> un_to_server s \<Longrightarrow>
    udp_round key0 (Some r) srv = None \<Longrightarrow> chat_step addr s None (s\<lparr>un_server := None\<rparr>)"
| recver_shows: "i < length (un_clients s) \<Longrightarrow> (addr i, d) \<in> un_to_clients s \<Longrightarrow>
    client_recv_step d (un_clients s ! i) = Some (c, Some l) \<Longrightarrow>
    chat_step addr s (Some (Shown i l)) (s\<lparr>un_clients := (un_clients s)[i := c]\<rparr>)"
| recver_silent: "i < length (un_clients s) \<Longrightarrow> (addr i, d) \<in> un_to_clients s \<Longrightarrow>
    client_recv_step d (un_clients s ! i) = Some (c, None) \<Longrightarrow>
    chat_step addr s None (s\<lparr>un_clients := (un_clients s)[i := c]\<rparr>)"

section \<open>Nobody puts words in another's mouth\<close>

definition sent :: "chat_event list \<Rightarrow> (nat \<times> string) set" where
  "sent es = {(j, m). Typed j m \<in> set es}"

definition broadcast_text :: "(nat \<Rightarrow> sockaddr_in) \<Rightarrow> nat \<times> string \<Rightarrow> byte list" where
  "broadcast_text addr jm = push_message (client_key (addr (fst jm))) (take (SIZE - 1) (snd jm))"

lemma sent_append [simp]: "sent (es @ [Typed i m]) = insert (i, m) (sent es)" "sent (es @ [Shown i l]) = sent es"
  "sent [] = {}"
  by (auto simp: sent_def)

lemma round_text:
  assumes "m \<noteq> []"
  shows "udp_round key0 (Some (peer, m)) srv =
     Some (map (\<lambda>(k, q). (q, push_message (client_key peer) (take (SIZE - 1) m))) (us_users (add_user peer srv)),
           add_user peer srv)"
proof -
  have "us_users (add_user peer srv) \<noteq> []" by (auto simp: add_user_def)
  moreover have "c_str (client_key peer @ [nul]) = client_key peer" by simp
  ultimately show ?thesis using assms by (auto simp: udp_round_def SIZE_def)
qed

lemma add_user_peers: "snd ` set (us_users (add_user peer srv)) \<subseteq> insert peer (snd ` set (us_users srv))"
  by (auto simp: add_user_def)

lemma recv_shows:
  assumes "client_recv_step (broadcast_text addr jm) c = Some (c', Some l)"
  shows "l = broadcast_text addr jm @ [CHR 0x0A]" "c' = c"
proof -
  have "nul \<notin> set ('' # '')" by (simp add: nul_def)
  then have "nul \<notin> set (broadcast_text addr jm)" by (simp add: broadcast_text_def push_message_def)
  then show "l = broadcast_text addr jm @ [CHR 0x0A]" "c' = c"
    using assms by (auto simp: client_recv_step_def udpRecv_round_def Let_def split: if_splits)
qed

text \<open>What is under way and who is known, in terms of the messages \<open>S\<close> sent so far.\<close>

definition net_inv :: "(nat \<Rightarrow> sockaddr_in) \<Rightarrow> (nat \<times> string) set \<Rightarrow> udp_net \<Rightarrow> bool" where
  "net_inv addr S s \<longleftrightarrow>
     un_to_server s \<subseteq> (\<lambda>(j, m). (addr j, m)) ` S \<and>
     (\<exists>srv. un_server s = Some srv \<and> snd ` set (us_users srv) \<subseteq> addr ` fst ` S) \<and>
     un_to_clients s \<subseteq> addr ` fst ` S \<times> broadcast_text addr ` S"

definition shown_ok :: "(nat \<Rightarrow> sockaddr_in) \<Rightarrow> (nat \<times> string) set \<Rightarrow> nat \<times> string \<Rightarrow> bool" where
  "shown_ok addr S il \<longleftrightarrow>
     addr (fst il) \<in> addr ` fst ` S \<and> snd il \<in> (\<lambda>jm. broadcast_text addr jm @ [CHR 0x0A]) ` S"

definition shown :: "chat_event list \<Rightarrow> (nat \<times> string) set" where
  "shown es = {(i, l). Shown i l \<in> set es}"

lemma shown_append [simp]: "shown (es @ [Typed i m]) = shown es" "shown (es @ [Shown i l]) = insert (i, l) (shown es)"
  "shown [] = {}"
  by (auto simp: shown_def)

definition no_empty :: "chat_event list \<Rightarrow> bool" where
  "no_empty es \<longleftrightarrow> (\<forall>(j, m) \<in> sent es. m \<noteq> [])"

lemma shown_ok_mono: "S \<subseteq> S' \<Longrightarrow> shown_ok addr S il \<Longrightarrow> shown_ok addr S' il"
  unfolding shown_ok_def by blast

lemma net_inv_mono:
  assumes "S \<subseteq> S'" and "net_inv addr S s"
  shows "net_inv addr S' s"
proof -
  have m: "f ` S \<subseteq> f ` S'" for f :: "nat \<times> string \<Rightarrow> 'b" using assms(1) by (rule image_mono)
  have a: "addr ` fst ` S \<subseteq> addr ` fst ` S'" using assms(1) by (intro image_mono)
  from assms(2) obtain srv where "un_to_server s \<subseteq> (\<lambda>(j, m). (addr j, m)) ` S" "un_server s = Some srv"
    "snd ` set (us_users srv) \<subseteq> addr ` fst ` S" "un_to_clients s \<subseteq> addr ` fst ` S \<times> broadcast_text addr ` S"
    unfolding net_inv_def by blast
  with m a show ?thesis unfolding net_inv_def by (meson Sigma_mono subset_trans)
qed

lemma net_inv_clients: "net_inv addr S (s\<lparr>un_clients := cs\<rparr>) = net_inv addr S s"
  by (simp add: net_inv_def)

lemma net_inv_typed:
  assumes "net_inv addr S s"
  shows "net_inv addr (insert (i, m) S) (s\<lparr>un_clients := cs, un_to_server := insert (addr i, m) (un_to_server s)\<rparr>)"
proof -
  have "net_inv addr (insert (i, m) S) s" using net_inv_mono [OF subset_insertI assms] .
  then show ?thesis unfolding net_inv_def by simp
qed

lemma net_inv_server:
  assumes inv: "net_inv addr S s" and ne: "\<forall>(j, m) \<in> S. m \<noteq> []" and srv: "un_server s = Some srv"
    and r: "r \<in> un_to_server s"
  shows "\<exists>out srv'. udp_round key0 (Some r) srv = Some (out, srv') \<and>
     net_inv addr S (s\<lparr>un_server := Some srv', un_to_clients := un_to_clients s \<union> set out\<rparr>)"
proof -
  from inv srv have i: "un_to_server s \<subseteq> (\<lambda>(j, m). (addr j, m)) ` S"
    "snd ` set (us_users srv) \<subseteq> addr ` fst ` S" "un_to_clients s \<subseteq> addr ` fst ` S \<times> broadcast_text addr ` S"
    by (auto simp: net_inv_def)
  from i(1) r obtain j m where jm: "r = (addr j, m)" "(j, m) \<in> S" by auto
  let ?srv = "add_user (addr j) srv"
  have "addr j \<in> addr ` fst ` S" using jm(2) by force
  with i(2) have "insert (addr j) (snd ` set (us_users srv)) \<subseteq> addr ` fst ` S" by simp
  with add_user_peers have u: "snd ` set (us_users ?srv) \<subseteq> addr ` fst ` S" by (rule subset_trans)
  have "m \<noteq> []" using ne jm(2) by auto
  note rd = round_text [OF this, of key0 "addr j" srv]
  let ?out = "map (\<lambda>(k, q). (q, push_message (client_key (addr j)) (take (SIZE - 1) m))) (us_users ?srv)"
  have "push_message (client_key (addr j)) (take (SIZE - 1) m) = broadcast_text addr (j, m)"
    by (simp add: broadcast_text_def)
  then have t: "push_message (client_key (addr j)) (take (SIZE - 1) m) \<in> broadcast_text addr ` S"
    using jm(2) by (rule image_eqI)
  have "set ?out \<subseteq> addr ` fst ` S \<times> broadcast_text addr ` S"
  proof
    fix x assume "x \<in> set ?out"
    then obtain k q where x: "(k, q) \<in> set (us_users ?srv)"
      "x = (q, push_message (client_key (addr j)) (take (SIZE - 1) m))" by auto
    from x(1) have "q \<in> snd ` set (us_users ?srv)" by (intro rev_image_eqI [of "(k, q)"]) simp_all
    with u have "q \<in> addr ` fst ` S" by (rule subsetD)
    with x(2) t show "x \<in> addr ` fst ` S \<times> broadcast_text addr ` S" by simp
  qed
  then have "net_inv addr S (s\<lparr>un_server := Some ?srv, un_to_clients := un_to_clients s \<union> set ?out\<rparr>)"
    using i(1,3) u by (simp add: net_inv_def)
  with rd jm(1) show ?thesis by blast
qed

lemma net_inv_shows:
  assumes "net_inv addr S s" and "(addr i, d) \<in> un_to_clients s" and "client_recv_step d c = Some (c', Some l)"
  shows "shown_ok addr S (i, l)"
proof -
  have m: "addr i \<in> addr ` fst ` S" "d \<in> broadcast_text addr ` S" using assms(1,2) by (auto simp: net_inv_def)
  then obtain jm where d: "jm \<in> S" "d = broadcast_text addr jm" by blast
  have "l = broadcast_text addr jm @ [CHR 0x0A]" by (rule recv_shows(1) [OF assms(3) [unfolded d(2)]])
  then have "l \<in> (\<lambda>jm. broadcast_text addr jm @ [CHR 0x0A]) ` S" using d(1) by (rule image_eqI)
  with m(1) show ?thesis by (simp add: shown_ok_def)
qed

lemma chat_run_inv:
  assumes "Lts.run (chat_step addr) s0 es s" and "chat_init port s0" and "no_empty es"
  shows "net_inv addr (sent es) s \<and> (\<forall>il \<in> shown es. shown_ok addr (sent es) il)"
  using assms
proof (induction rule: run.induct)
  case (run_nil s)
  then show ?case by (auto simp: chat_init_def net_inv_def UdpServer_ctor_def)
next
  case (run_tau s es s' s'')
  then have inv: "net_inv addr (sent es) s'" "\<forall>il \<in> shown es. shown_ok addr (sent es) il" by blast+
  have ne: "\<forall>(j, m) \<in> sent es. m \<noteq> []" using run_tau.prems(2) by (simp add: no_empty_def)
  from run_tau.hyps(2) have "net_inv addr (sent es) s''"
  proof (cases rule: chat_step.cases)
    case (server_round srv r key0 out srv')
    with net_inv_server [OF inv(1) ne server_round(2,3), of key0] show ?thesis by auto
  next
    case (server_undefined srv r key0)
    with net_inv_server [OF inv(1) ne server_undefined(2,3), of key0] show ?thesis by auto
  qed (use inv(1) in \<open>simp_all add: net_inv_clients\<close>)
  with inv(2) show ?case by simp
next
  case (run_vis s es s' e s'')
  have "no_empty es" using run_vis.prems(2) by (cases e) (auto simp: no_empty_def)
  then have inv: "net_inv addr (sent es) s'" "\<forall>il \<in> shown es. shown_ok addr (sent es) il" using run_vis by blast+
  from run_vis.hyps(2) show ?case
  proof (cases rule: chat_step.cases)
    case (sender_sends i c m)
    with net_inv_typed [OF inv(1)] inv(2) shown_ok_mono [OF subset_insertI] show ?thesis by auto
  next
    case (recver_shows i d c l)
    with net_inv_shows [OF inv(1) recver_shows(4,5)] inv show ?thesis by (simp add: net_inv_clients)
  qed
qed

lemma run_prefix: "run S s (es @ es') s'' \<Longrightarrow> \<exists>s'. run S s es s'"
proof (induction s "es @ es'" s'' arbitrary: es' rule: run.induct)
  case (run_nil s)
  then show ?case using run.run_nil by fastforce
next
  case (run_vis s es1 s' e s'')
  then show ?case
    by (cases es' rule: rev_cases) (auto intro: run.run_vis)
qed blast

text \<open>
  C19. As long as nobody has sent an empty line, and however the network drops, repeats and reorders
  datagrams, whatever a client shows was typed before at one of the clients: it is the address and
  port of the client it was typed at and the text, and it is shown only at an address from which
  something was typed before. So nobody can speak in the name of another address, and nobody who
  has only listened hears anything. (After an empty line the server broadcasts a key it has not
  written, so nothing is promised from there on.)
\<close>

theorem chat_authentic:
  assumes "Lts.run (chat_step addr) s0 (es @ Shown i l # es') s" and "chat_init port s0"
    and "no_empty es"
  shows "(\<exists>j m. Typed j m \<in> set es \<and>
       l = inet_ntoa (sin_addr (addr j)) @ ''-'' @ show_nat (unat (ntohs (sin_port (addr j)))) @
           '' # '' @ c_str (take 1023 m) @ [CHR 0x0A]) \<and>
     (\<exists>k m. Typed k m \<in> set es \<and> addr k = addr i)"
proof -
  have "Lts.run (chat_step addr) s0 ((es @ [Shown i l]) @ es') s" using assms(1) by simp
  from run_prefix [OF this] obtain s' where r: "Lts.run (chat_step addr) s0 (es @ [Shown i l]) s'" ..
  have "no_empty (es @ [Shown i l])" using assms(3) by (simp add: no_empty_def)
  from chat_run_inv [OF r assms(2) this] have "shown_ok addr (sent es) (i, l)" by simp
  then obtain km jm where e: "km \<in> sent es" "addr i = addr (fst km)" "jm \<in> sent es"
    "l = broadcast_text addr jm @ [CHR 0x0A]" unfolding shown_ok_def by auto
  from e(1,3) have "Typed (fst km) (snd km) \<in> set es" "Typed (fst jm) (snd jm) \<in> set es"
    by (auto simp: sent_def)
  moreover have "l = inet_ntoa (sin_addr (addr (fst jm))) @ ''-'' @
      show_nat (unat (ntohs (sin_port (addr (fst jm))))) @ '' # '' @ c_str (take 1023 (snd jm)) @ [CHR 0x0A]"
    unfolding e(4) by (simp add: broadcast_text_def push_message_def client_key_exact SIZE_def)
  ultimately show ?thesis using e(2) by metis
qed

section \<open>Every message can still arrive\<close>

text \<open>The table of users stays well formed, whatever is received.\<close>

definition users_inv :: "(nat \<Rightarrow> sockaddr_in) \<Rightarrow> udp_net \<Rightarrow> bool" where
  "users_inv addr s \<longleftrightarrow> (\<forall>i. sin_family (addr i) = AF_INET) \<longrightarrow>
     fst ` un_to_server s \<subseteq> range addr \<and> (\<forall>srv. un_server s = Some srv \<longrightarrow> (\<exists>P. users_ok P srv))"

lemma round_users:
  "udp_round key0 (Some (peer, d)) srv = Some (out, srv') \<Longrightarrow> srv' \<in> {srv, add_user peer srv}"
  by (auto simp: udp_round_def Let_def split: if_splits)

lemma users_inv_step:
  assumes "users_inv addr s" and "chat_step addr s l s'"
  shows "users_inv addr s'"
  using assms(2)
proof (cases rule: chat_step.cases)
  case (sender_sends i c m)
  then show ?thesis using assms(1) by (simp add: users_inv_def)
next
  case (server_round srv r key0 out srv')
  show ?thesis unfolding users_inv_def
  proof (intro impI conjI allI)
    assume fam: "\<forall>i. sin_family (addr i) = AF_INET"
    with assms(1) have r: "fst ` un_to_server s \<subseteq> range addr" and "\<exists>P. users_ok P srv"
      using server_round(3) by (simp_all add: users_inv_def)
    then obtain P where P: "users_ok P srv" by blast
    show "fst ` un_to_server s' \<subseteq> range addr" using r server_round(2) by simp
    have "fst r \<in> range addr" using r server_round(4) by blast
    then have "sin_family (fst r) = AF_INET" using fam by auto
    then have "\<exists>P. users_ok P srv'"
      using round_users [of key0 "fst r" "snd r" srv out srv'] server_round(5) P add_user_ok [OF P] by auto
    then show "\<exists>P. users_ok P srv2" if "un_server s' = Some srv2" for srv2 using that server_round(2) by simp
  qed
qed (use assms(1) in \<open>simp_all add: users_inv_def\<close>)

lemma users_inv_init: "chat_init port s \<Longrightarrow> users_inv addr s"
proof -
  assume "chat_init port s"
  moreover have "users_ok {} ((UdpServer_ctor port [])\<lparr>us_sock := k\<rparr>)" for k
    by (simp add: users_ok_def UdpServer_ctor_def)
  ultimately obtain k where "un_server s = Some ((UdpServer_ctor port [])\<lparr>us_sock := k\<rparr>)" "un_to_server s = {}"
    "users_ok {} ((UdpServer_ctor port [])\<lparr>us_sock := k\<rparr>)" unfolding chat_init_def by blast
  then show ?thesis by (auto simp: users_inv_def intro: exI [of _ "{}"])
qed

interpretation chatu: inductive_invariant "chat_init port" "chat_step addr" "users_inv addr"
  by unfold_locales (fact users_inv_init, fact users_inv_step)

text \<open>A datagram that was sent is still under way: the network never forgets one.\<close>

lemma typed_under_way: "Lts.run (chat_step addr) s0 es s \<Longrightarrow> (\<lambda>(j, m). (addr j, m)) ` sent es \<subseteq> un_to_server s"
proof (induction rule: run.induct)
  case (run_tau s es s' s'')
  from run_tau.hyps(2) run_tau.IH show ?case by (cases rule: chat_step.cases) auto
next
  case (run_vis s es s' e s'')
  from run_vis.hyps(2) run_vis.IH show ?case by (cases rule: chat_step.cases) auto
qed simp

lemma add_user_mem: "users_ok P srv \<Longrightarrow> sin_family p = AF_INET \<Longrightarrow> p \<in> snd ` set (us_users (add_user p srv))"
  using add_user_ok [of P srv p] by (auto simp: users_ok_def)

lemma add_user_keeps: "q \<in> snd ` set (us_users srv) \<Longrightarrow> q \<in> snd ` set (us_users (add_user p srv))"
  by (auto simp: add_user_def)

lemma recv_broadcast:
  assumes "uc_recver c = Active" and "length (client_key (addr j)) + strlen (take (SIZE - 1) m) < 1021"
  shows "client_recv_step (broadcast_text addr (j, m)) c = Some (c, Some (broadcast_text addr (j, m) @ [CHR 0x0A]))"
proof -
  let ?d = "broadcast_text addr (j, m)"
  have "length ?d < READ_SEND_MAX_SIZE"
    using assms(2) by (simp add: broadcast_text_def push_message_def READ_SEND_MAX_SIZE_def strlen_def)
  moreover have "?d \<noteq> []" by (simp add: broadcast_text_def push_message_def)
  moreover have "nul \<notin> set ?d"
  proof -
    have "nul \<notin> set ('' # '')" by (simp add: nul_def)
    then show ?thesis by (simp add: broadcast_text_def push_message_def)
  qed
  ultimately show ?thesis using assms(1)
    by (simp add: client_recv_step_def udpRecv_round_def Let_def)
qed

text \<open>The server can take any datagram that was sent and not empty.\<close>

lemma server_takes:
  assumes "un_server s = Some srv" and "(addr j, m) \<in> un_to_server s" and "m \<noteq> []"
  shows "chat_step addr s None (s\<lparr>un_server := Some (add_user (addr j) srv), un_to_clients :=
     un_to_clients s \<union> set (map (\<lambda>(k, q). (q, broadcast_text addr (j, m))) (us_users (add_user (addr j) srv)))\<rparr>)"
  unfolding broadcast_text_def fst_conv snd_conv
  by (rule chat_step.server_round [OF assms(1,2) round_text [OF assms(3), of "[]"]])

text \<open>
  C20. As long as no empty message was sent, the server is alive, and whatever has happened, every
  message can still reach every client that has sent one itself and is receiving, if it fits the
  receiver's buffer of 1024 bytes: there are three steps in a row from the present state. In the
  first the server takes a datagram of the receiver, in the second it takes the message, in the
  third the receiver shows it.
\<close>

theorem chat_can_deliver:
  assumes "Lts.run (chat_step addr) s0 es s" and "chat_init port s0" and "no_empty es"
    and "\<forall>i. sin_family (addr i) = AF_INET" and "Typed j m \<in> set es" and "Typed i m' \<in> set es"
    and "i < length (un_clients s)" and "uc_recver (un_clients s ! i) = Active"
    and "length (client_key (addr j)) + strlen (take 1023 m) < 1021"
  shows "un_server s \<noteq> None \<and>
     (\<exists>s1 s2 s3. chat_step addr s None s1 \<and> chat_step addr s1 None s2 \<and>
        chat_step addr s2 (Some (Shown i (client_key (addr j) @ '' # '' @ c_str (take 1023 m) @ [CHR 0x0A]))) s3)"
proof -
  from chat_run_inv [OF assms(1-3)] obtain srv where srv: "un_server s = Some srv" by (auto simp: net_inv_def)
  have "users_inv addr s" using chatu.inv_run [OF assms(1) chatu.inv_init [OF assms(2)]] .
  with srv assms(4) obtain P where P: "users_ok P srv" by (auto simp: users_inv_def)
  have way: "(addr j, m) \<in> un_to_server s" "(addr i, m') \<in> un_to_server s"
    using typed_under_way [OF assms(1)] assms(5,6) by (auto simp: sent_def)
  have ne: "m \<noteq> []" "m' \<noteq> []" using assms(3,5,6) by (auto simp: no_empty_def sent_def)
  let ?srv1 = "add_user (addr i) srv" and ?srv2 = "add_user (addr j) (add_user (addr i) srv)"
  let ?s1 = "s\<lparr>un_server := Some ?srv1, un_to_clients :=
     un_to_clients s \<union> set (map (\<lambda>(k, q). (q, broadcast_text addr (i, m'))) (us_users ?srv1))\<rparr>"
  let ?s2 = "?s1\<lparr>un_server := Some ?srv2, un_to_clients :=
     un_to_clients ?s1 \<union> set (map (\<lambda>(k, q). (q, broadcast_text addr (j, m))) (us_users ?srv2))\<rparr>"
  have 1: "chat_step addr s None ?s1" by (rule server_takes) (fact srv way(2) ne(2))+
  have 2: "chat_step addr ?s1 None ?s2" by (rule server_takes) (use way(1) ne(1) in simp_all)
  have "addr i \<in> snd ` set (us_users ?srv2)" using add_user_keeps [OF add_user_mem [OF P]] assms(4) by blast
  then have arr: "(addr i, broadcast_text addr (j, m)) \<in> un_to_clients ?s2" by force
  have st: "client_recv_step (broadcast_text addr (j, m)) (un_clients ?s2 ! i) =
     Some (un_clients ?s2 ! i, Some (broadcast_text addr (j, m) @ [CHR 0x0A]))"
    by (rule recv_broadcast) (use assms(8,9) in \<open>simp_all add: SIZE_def\<close>)
  have "i < length (un_clients ?s2)" using assms(7) by simp
  from chat_step.recver_shows [where addr = addr and i = i, OF this arr st] obtain s3 where
    "chat_step addr ?s2 (Some (Shown i (broadcast_text addr (j, m) @ [CHR 0x0A]))) s3" by blast
  then have "\<exists>s3. chat_step addr ?s2 (Some (Shown i (client_key (addr j) @ '' # '' @ c_str (take 1023 m) @ [CHR 0x0A]))) s3"
    by (auto simp: broadcast_text_def push_message_def SIZE_def)
  with 1 2 have "\<exists>s1 s2 s3. chat_step addr s None s1 \<and> chat_step addr s1 None s2 \<and>
     chat_step addr s2 (Some (Shown i (client_key (addr j) @ '' # '' @ c_str (take 1023 m) @ [CHR 0x0A]))) s3"
    by blast
  then show ?thesis using srv by simp
qed

section \<open>A client that has quit\<close>

definition client_inv :: "udp_client \<Rightarrow> bool" where
  "client_inv c \<longleftrightarrow> uc_recver c \<noteq> Returned \<and> uc_main c \<notin> {Close_sock, Main_returned}"

lemma client_main_inv: "client_main_step c = Some c' \<Longrightarrow> client_inv c \<Longrightarrow> client_inv c'"
  by (auto simp: client_main_step_def client_inv_def Thread_join_def split: client_main.splits if_splits)

lemma client_send_inv: "client_send_step c = Some (c', m) \<Longrightarrow> client_inv c \<Longrightarrow> client_inv c'"
  by (auto simp: client_send_step_def client_inv_def Let_def case_prod_beta split: if_splits)

lemma client_recv_inv: "client_recv_step d c = Some (c', l) \<Longrightarrow> client_inv c \<Longrightarrow> client_inv c'"
  by (auto simp: client_recv_step_def client_inv_def split: option.splits if_splits)

lemma clients_inv_update:
  assumes "\<forall>c \<in> set cs. client_inv c" and "i < length cs" and "client_inv (cs ! i) \<Longrightarrow> client_inv c'"
  shows "\<forall>c \<in> set (cs[i := c']). client_inv c"
proof
  fix c assume "c \<in> set (cs[i := c'])"
  then have "c = c' \<or> c \<in> set cs" using set_update_subset_insert by fastforce
  with assms show "client_inv c" by auto
qed

lemma clients_inv_step:
  assumes "\<forall>c \<in> set (un_clients s). client_inv c" and "chat_step addr s l s'"
  shows "\<forall>c \<in> set (un_clients s'). client_inv c"
  using assms(2)
proof (cases rule: chat_step.cases)
  case (main_moves i c)
  from clients_inv_update [OF assms(1) main_moves(3) client_main_inv [OF main_moves(4)]]
  show ?thesis unfolding main_moves(2) by simp
next
  case (sender_sends i c m)
  from clients_inv_update [OF assms(1) sender_sends(3) client_send_inv [OF sender_sends(4)]]
  show ?thesis unfolding sender_sends(2) by simp
next
  case (sender_quits i c)
  from clients_inv_update [OF assms(1) sender_quits(3) client_send_inv [OF sender_quits(4)]]
  show ?thesis unfolding sender_quits(2) by simp
next
  case (recver_shows i d c l')
  from clients_inv_update [OF assms(1) recver_shows(3) client_recv_inv [OF recver_shows(5)]]
  show ?thesis unfolding recver_shows(2) by simp
next
  case (recver_silent i d c)
  from clients_inv_update [OF assms(1) recver_silent(3) client_recv_inv [OF recver_silent(5)]]
  show ?thesis unfolding recver_silent(2) by simp
qed (use assms(1) in simp_all)

lemma clients_inv_init: "chat_init port s \<Longrightarrow> \<forall>c \<in> set (un_clients s). client_inv c"
  unfolding chat_init_def client_inv_def by auto

interpretation chat: inductive_invariant "chat_init port" "chat_step addr"
  "\<lambda>s. \<forall>c \<in> set (un_clients s). client_inv c"
  by unfold_locales (fact clients_inv_init, fact clients_inv_step)

text \<open>
  \<open>udpRecv\<close> has no way out, so no client ever comes past the join of its receiving thread: after
  \<open>quit\<close> the process stays, and its socket is never closed.
\<close>

theorem client_never_closes:
  assumes "reachable (chat_init port) (chat_step addr) s" and "c \<in> set (un_clients s)"
  shows "uc_main c \<notin> {Close_sock, Main_returned} \<and> (uc_main c = Join_recver \<longrightarrow> client_main_step c = None)"
proof -
  have "client_inv c" using chat.inv_reachable [OF assms(1)] assms(2) by blast
  then show ?thesis by (auto simp: client_inv_def client_main_step_def Thread_join_def)
qed

section \<open>Schedules\<close>

datatype chat_choice = Main nat | Line nat | Serve "sockaddr_in \<times> byte list" | Recv nat "byte list"

fun chat_exec ::
  "(nat \<Rightarrow> sockaddr_in) \<Rightarrow> chat_choice \<Rightarrow> udp_net \<Rightarrow> (chat_event option \<times> udp_net) option" where
  "chat_exec addr (Main i) s =
     (if i < length (un_clients s)
      then (case client_main_step (un_clients s ! i) of
              None \<Rightarrow> None
            | Some c \<Rightarrow> Some (None, s\<lparr>un_clients := (un_clients s)[i := c]\<rparr>))
      else None)"
| "chat_exec addr (Line i) s =
     (if i < length (un_clients s)
      then (case client_send_step (un_clients s ! i) of
              None \<Rightarrow> None
            | Some (c, None) \<Rightarrow> Some (None, s\<lparr>un_clients := (un_clients s)[i := c]\<rparr>)
            | Some (c, Some m) \<Rightarrow> Some (Some (Typed i m),
                s\<lparr>un_clients := (un_clients s)[i := c], un_to_server := insert (addr i, m) (un_to_server s)\<rparr>))
      else None)"
| "chat_exec addr (Serve r) s =
     (case un_server s of
        None \<Rightarrow> None
      | Some srv \<Rightarrow>
          if r \<in> un_to_server s
          then (case udp_round [] (Some r) srv of
                  None \<Rightarrow> Some (None, s\<lparr>un_server := None\<rparr>)
                | Some (out, srv') \<Rightarrow>
                    Some (None, s\<lparr>un_server := Some srv', un_to_clients := un_to_clients s \<union> set out\<rparr>))
          else None)"
| "chat_exec addr (Recv i d) s =
     (if i < length (un_clients s) \<and> (addr i, d) \<in> un_to_clients s
      then (case client_recv_step d (un_clients s ! i) of
              None \<Rightarrow> None
            | Some (c, None) \<Rightarrow> Some (None, s\<lparr>un_clients := (un_clients s)[i := c]\<rparr>)
            | Some (c, Some l) \<Rightarrow> Some (Some (Shown i l), s\<lparr>un_clients := (un_clients s)[i := c]\<rparr>))
      else None)"

lemma chat_exec_step: "chat_exec addr c s = Some (l, s') \<Longrightarrow> chat_step addr s l s'"
  by (cases c) (auto split: if_splits option.splits prod.splits intro: chat_step.intros)

lemma chat_schedule: "schedule (chat_exec addr) s cs = Some (es, s') \<Longrightarrow> Lts.run (chat_step addr) s es s'"
  by (rule schedule_run) (auto dest: chat_exec_step)

definition demo_addr :: "nat \<Rightarrow> sockaddr_in" where
  "demo_addr i = demo_peer (of_nat (9000 + i))"

definition demo_net :: "string list list \<Rightarrow> udp_net" where
  "demo_net inputs =
     \<lparr>un_server = Some ((UdpServer_ctor 8080 [])\<lparr>us_sock := 3\<rparr>),
      un_clients = map (\<lambda>ls. \<lparr>uc_main = Start_sender, uc_sender = Not_started, uc_recver = Not_started,
         uc_cin = \<lparr>cin_lines = ls, cin_rest = [], cin_eof = False\<rparr>, uc_message = []\<rparr>) inputs,
      un_to_server = {}, un_to_clients = {}\<rparr>"

definition demo_choices :: "chat_choice list" where
  "demo_choices =
     [Main 0, Main 0, Main 1, Line 0, Line 1, Serve (demo_addr 0, ''a''), Serve (demo_addr 1, ''hi''),
      Recv 0 ''127.0.0.1-9001 # hi'', Line 0, Main 0]"

definition demo_events :: "chat_event list" where
  "demo_events = [Typed 0 ''a'', Typed 1 ''hi'', Shown 0 (''127.0.0.1-9001 # hi'' @ [CHR 0x0A])]"

lemma demo_init: "chat_init 8080 (demo_net inputs)"
  unfolding chat_init_def demo_net_def by auto





lemma demo_keys:
  "client_key (demo_addr 0) = ''127.0.0.1-9000''" "client_key (demo_addr (Suc 0)) = ''127.0.0.1-9001''"
  by (simp_all add: client_key_exact demo_addr_def demo_peer_def inet_ntoa_def addr_byte_def show_nat_def
      show_base.simps digit_char_def char_of_def bit_0)

lemma demo_addr_neq: "demo_addr 0 \<noteq> demo_addr (Suc 0)" "demo_addr (Suc 0) \<noteq> demo_addr 0"
  using demo_keys by auto

lemma demo_schedule:
  "\<exists>s. schedule (chat_exec demo_addr) (demo_net [[''a'', ''quit''], [''hi'']]) demo_choices = Some (demo_events, s) \<and>
     (\<exists>c \<in> set (un_clients s). uc_main c = Join_recver) \<and> 0 < length (un_clients s) \<and>
     uc_recver (un_clients s ! 0) = Active"
  by (simp add: demo_choices_def demo_events_def demo_net_def client_main_step_def client_send_step_def
      getline_def udp_round_def add_user_def UdpServer_ctor_def demo_keys demo_addr_neq client_recv_step_def
      udpRecv_round_def push_message_def Thread_join_def READ_SEND_MAX_SIZE_def SIZE_def c_str_def nul_def Let_def)

lemma demo_run:
  "\<exists>s. Lts.run (chat_step demo_addr) (demo_net [[''a'', ''quit''], [''hi'']]) demo_events s \<and>
     (\<exists>c \<in> set (un_clients s). uc_main c = Join_recver) \<and> 0 < length (un_clients s) \<and>
     uc_recver (un_clients s ! 0) = Active"
proof -
  let ?s0 = "demo_net [[''a'', ''quit''], [''hi'']]"
  obtain s where "schedule (chat_exec demo_addr) ?s0 demo_choices = Some (demo_events, s)"
    "\<exists>c \<in> set (un_clients s). uc_main c = Join_recver" "0 < length (un_clients s)"
    "uc_recver (un_clients s ! 0) = Active"
    using demo_schedule by blast
  then show ?thesis using chat_schedule by blast
qed

theorem chat_authentic_witness:
  "\<exists>m. Typed 1 m \<in> set [Typed 0 ''a'', Typed 1 ''hi''] \<and>
     ''127.0.0.1-9001 # hi'' @ [CHR 0x0A] =
       client_key (demo_addr 1) @ '' # '' @ c_str (take 1023 m) @ [CHR 0x0A]"
proof -
  from demo_run obtain s where
    "Lts.run (chat_step demo_addr) (demo_net [[''a'', ''quit''], [''hi'']]) demo_events s" by blast
  then have r: "Lts.run (chat_step demo_addr) (demo_net [[''a'', ''quit''], [''hi'']])
     ([Typed 0 ''a'', Typed 1 ''hi''] @ Shown 0 (''127.0.0.1-9001 # hi'' @ [CHR 0x0A]) # []) s"
    by (simp add: demo_events_def)
  have ne: "no_empty [Typed 0 ''a'', Typed 1 ''hi'']"
    by (auto simp: no_empty_def sent_def)
  from chat_authentic [OF r demo_init ne] obtain j m where jm:
    "Typed j m \<in> set [Typed 0 ''a'', Typed 1 ''hi'']"
    "''127.0.0.1-9001 # hi'' @ [CHR 0x0A] = client_key (demo_addr j) @ '' # '' @ c_str (take 1023 m) @ [CHR 0x0A]"
    by (auto simp: client_key_exact)
  then have "j = 1" using demo_keys by auto
  with jm show ?thesis by blast
qed

theorem chat_can_deliver_witness:
  "\<exists>s s1 s2 s3. chat_step demo_addr s None s1 \<and> chat_step demo_addr s1 None s2 \<and>
     chat_step demo_addr s2 (Some (Shown 0 (''127.0.0.1-9001 # hi'' @ [CHR 0x0A]))) s3"
proof -
  from demo_run obtain s where s:
    "Lts.run (chat_step demo_addr) (demo_net [[''a'', ''quit''], [''hi'']]) demo_events s"
    "0 < length (un_clients s)" "uc_recver (un_clients s ! 0) = Active" by blast
  have ne: "no_empty demo_events" by (auto simp: no_empty_def sent_def demo_events_def)
  have fam: "\<forall>i. sin_family (demo_addr i) = AF_INET" by (simp add: demo_addr_def demo_peer_def)
  have ty: "Typed 1 ''hi'' \<in> set demo_events" "Typed 0 ''a'' \<in> set demo_events" by (simp_all add: demo_events_def)
  have fits: "length (client_key (demo_addr 1)) + strlen (take 1023 ''hi'') < 1021"
    by (simp add: demo_keys strlen_def c_str_def nul_def)
  from chat_can_deliver [OF s(1) demo_init ne fam ty s(2,3) fits] show ?thesis
    by (auto simp: demo_keys c_str_def nul_def)
qed

theorem client_never_closes_witness:
  "\<exists>s :: udp_net. \<exists>c \<in> set (un_clients s). uc_main c = Join_recver \<and> client_main_step c = None"
proof -
  from demo_run obtain s c where s:
    "Lts.run (chat_step demo_addr) (demo_net [[''a'', ''quit''], [''hi'']]) demo_events s"
    "c \<in> set (un_clients s)" "uc_main c = Join_recver" by blast
  have "reachable (chat_init 8080) (chat_step demo_addr) s" by (rule reachable_run [OF _ s(1)]) (rule demo_init)
  from client_never_closes [OF this s(2)] s show ?thesis by blast
qed

end
