(* ===== verification/Log_Versions.thy ===== *)
theory Log_Versions
  imports Logging Stdio
begin

text \<open>
  The versions of \<open>logMessage\<close> as programs over descriptors and the buffer of \<open>stdout\<close>: what Logging
  calls the log file and standard output is here a file that is opened and closed, and the file or
  terminal behind descriptor 1 together with what is still in the buffer. The locale \<open>logger\<close> is the
  contract of a version; the last section is about a process that is killed while it runs, as the
  servers are. \<open>None\<close> is undefined behaviour, as in Logging.
\<close>

section \<open>The versions\<close>

definition log_record :: "int \<Rightarrow> int \<Rightarrow> string \<Rightarrow> string option" where
  "log_record level timestamp msg =
     (case std_buffer level timestamp of None \<Rightarrow> None | Some sb \<Rightarrow> Some (sb @ log_buffer msg))"

text \<open>\<open>fopen(LOGFILE, "a")\<close>.\<close>

definition fopen_a :: "string \<Rightarrow> int prog" where
  "fopen_a path = sys_open path \<lparr>O_WRONLY = True, O_CREAT = True, O_TRUNC = False, O_APPEND = True\<rparr>"

text \<open>
  0208 and 0211. A record is shorter than the buffer of \<open>fp\<close>, so \<open>fclose\<close> writes it in one piece.
\<close>

definition logMessage_file :: "string \<Rightarrow> int \<Rightarrow> int \<Rightarrow> string \<Rightarrow> unit option prog" where
  "logMessage_file LOGFILE level timestamp msg =
     (case log_record level timestamp msg of
        None \<Rightarrow> State_Monad.return None
      | Some r \<Rightarrow> do {
          fp \<leftarrow> fopen_a LOGFILE;
          (if fp < 0 then State_Monad.return None
           else do { sys_write (nat fp) r; sys_close fp; State_Monad.return (Some ()) }) })"

text \<open>0215/tcp/threadPool.\<close>

definition logMessage_pool :: "string \<Rightarrow> int \<Rightarrow> int \<Rightarrow> string \<Rightarrow> unit option prog" where
  "logMessage_pool LOGFILE level timestamp msg =
     (case log_record level timestamp msg of
        None \<Rightarrow> State_Monad.return None
      | Some r \<Rightarrow> do {
          fp \<leftarrow> fopen_a LOGFILE;
          stdout_put (r @ [newline]);
          stdout_flush;
          (if fp < 0 then State_Monad.return None else do { sys_close fp; State_Monad.return (Some ()) }) })"

text \<open>0215/udp.\<close>

definition logMessage_stdout :: "int \<Rightarrow> int \<Rightarrow> string \<Rightarrow> unit option prog" where
  "logMessage_stdout level timestamp msg =
     (case log_record level timestamp msg of
        None \<Rightarrow> State_Monad.return None
      | Some r \<Rightarrow> do { stdout_put (r @ [newline]); State_Monad.return (Some ()) })"

text \<open>0215/tcp/tcp_backup_1.\<close>

definition logMessage_flushed :: "int \<Rightarrow> int \<Rightarrow> string \<Rightarrow> unit option prog" where
  "logMessage_flushed level timestamp msg =
     (case log_record level timestamp msg of
        None \<Rightarrow> State_Monad.return None
      | Some r \<Rightarrow> do { stdout_put (r @ [newline]); stdout_flush; State_Monad.return (Some ()) })"

section \<open>What they implement\<close>

definition content :: "node \<Rightarrow> unix \<Rightarrow> byte list" where
  "content m w = (case ux_files w m of None \<Rightarrow> [] | Some d \<Rightarrow> d)"

definition log_view :: "node \<Rightarrow> string \<Rightarrow> unix \<Rightarrow> log_world" where
  "log_view n path w =
     \<lparr>logfile = content (Path path) w, log_opens = (path \<notin> set (ux_denied w)),
      stdout = content n w @ pr_buf (ux_proc w)\<rparr>"

definition same_fds :: "unix \<Rightarrow> unix \<Rightarrow> bool" where
  "same_fds w w' \<longleftrightarrow> (\<forall>fd. fd_get fd (pr_fds (ux_proc w')) = fd_get fd (pr_fds (ux_proc w)))"

text \<open>Descriptor 1 writes at the end of \<open>n\<close>, and \<open>n\<close> is not the log file.\<close>

definition log_ready :: "node \<Rightarrow> string \<Rightarrow> unix \<Rightarrow> bool" where
  "log_ready n path w \<longleftrightarrow> n \<noteq> Path path \<and> out_to n w (content n w)"

text \<open>One \<open>fopen\<close> and \<open>fclose\<close>.\<close>

lemma fopen_fails:
  "path \<in> set (ux_denied w) \<Longrightarrow> run_state (fopen_a path) w = (-1, w)"
  by (simp add: fopen_a_def sys_open_def Let_def)

lemma fopen_a_opens:
  assumes "path \<notin> set (ux_denied w)" and "n \<noteq> Path path" and "out_to n w d"
  defines "fd \<equiv> lowest_free (pr_fds (ux_proc w))" and "u \<equiv> after (fopen_a path) w"
  shows "fst (run_state (fopen_a path) w) = int fd" and "out_to n u d" and "fd \<noteq> 1"
    and "ux_files u = (ux_files w)(Path path \<mapsto> content (Path path) w)"
    and "pr_fds (ux_proc u) = fd_set fd (Some (length (ux_opened w))) (pr_fds (ux_proc w))"
    and "ux_opened u = ux_opened w @ [\<lparr>of_node = Path path, of_pos = 0, of_append = True, of_read = False, of_write = True\<rparr>]"
    and "pr_buf (ux_proc u) = pr_buf (ux_proc w)" and "ux_denied u = ux_denied w"
    and "pr_mode (ux_proc u) = pr_mode (ux_proc w)"
proof -
  have e: "run_state (fopen_a path) w = (int fd, with_fds (fd_set fd (Some (length (ux_opened w))))
     (w\<lparr>ux_files := (ux_files w)(Path path \<mapsto> content (Path path) w),
        ux_opened := ux_opened w @ [\<lparr>of_node = Path path, of_pos = 0, of_append = True, of_read = False, of_write = True\<rparr>]\<rparr>))"
    using assms(1) by (simp add: fopen_a_def sys_open_def Let_def content_def fd_def)
  have "fd_get 1 (pr_fds (ux_proc w)) \<noteq> None" using assms(3) by (auto simp: out_to_def)
  then show f: "fd \<noteq> 1" using lowest_free_free unfolding fd_def by metis
  show "fst (run_state (fopen_a path) w) = int fd" "ux_files u = (ux_files w)(Path path \<mapsto> content (Path path) w)"
    "pr_fds (ux_proc u) = fd_set fd (Some (length (ux_opened w))) (pr_fds (ux_proc w))"
    "ux_opened u = ux_opened w @ [\<lparr>of_node = Path path, of_pos = 0, of_append = True, of_read = False, of_write = True\<rparr>]"
    "pr_buf (ux_proc u) = pr_buf (ux_proc w)" "ux_denied u = ux_denied w" "pr_mode (ux_proc u) = pr_mode (ux_proc w)"
    by (simp_all add: u_def e with_fds_def)
  then show "out_to n u d" using assms(2,3) f by (auto simp: out_to_def nth_append)
qed

lemma fopen_log:
  assumes "path \<notin> set (ux_denied w)" and "log_ready n path w"
  shows "log_ready n path (after (fopen_a path) w)" and "log_view n path (after (fopen_a path) w) = log_view n path w"
proof -
  from assms(2) have o: "n \<noteq> Path path" "out_to n w (content n w)" by (simp_all add: log_ready_def)
  note f = fopen_a_opens [OF assms(1) o]
  have "content n (after (fopen_a path) w) = content n w" using f(4) o(1) by (simp add: content_def)
  moreover have "content (Path path) (after (fopen_a path) w) = content (Path path) w" using f(4) by (simp add: content_def)
  ultimately show "log_ready n path (after (fopen_a path) w)"
    "log_view n path (after (fopen_a path) w) = log_view n path w"
    using f(2,7,8) o(1) by (simp_all add: log_ready_def log_view_def)
qed

lemma stdout_denied [simp]:
  "ux_denied (after (sys_write fd bs) w) = ux_denied w" "ux_denied (after (stdout_put s) w) = ux_denied w"
  "ux_denied (after stdout_flush w) = ux_denied w"
  by (simp_all add: sys_write_def write_at_def stdout_put_def stdout_flush_def set_stdout_def Let_def
      split: option.splits)

lemma out_to_content: "out_to n w d \<Longrightarrow> content n w = d"
  by (simp add: out_to_def content_def)

lemma put_log:
  fixes s :: "byte list"
  assumes "log_ready n path w"
  defines "u \<equiv> after (stdout_put s) w"
  shows "log_ready n path u" and "log_view n path u = (log_view n path w)\<lparr>stdout := stdout (log_view n path w) @ s\<rparr>"
    and "pr_fds (ux_proc u) = pr_fds (ux_proc w)"
proof -
  from assms(1) have o: "n \<noteq> Path path" "out_to n w (content n w)" by (simp_all add: log_ready_def)
  from put_out [OF o(2), of s] obtain f b where fb: "pr_buf (ux_proc w) @ s = f @ b" "out_to n u (content n w @ f)"
    "pr_buf (ux_proc u) = b" unfolding u_def by blast
  note c = out_to_content [OF fb(2)]
  from fb(2) o(1) c show "log_ready n path u" by (simp add: log_ready_def)
  have "content (Path path) u = content (Path path) w"
    using put_other(3) [OF o(2) o(1) [symmetric], of s] by (simp add: content_def u_def)
  with c fb(1,3) show "log_view n path u = (log_view n path w)\<lparr>stdout := stdout (log_view n path w) @ s\<rparr>"
    by (simp add: log_view_def u_def)
  show "pr_fds (ux_proc u) = pr_fds (ux_proc w)" unfolding u_def by (rule put_other(2))
qed

lemma flush_log:
  assumes "log_ready n path w"
  defines "u \<equiv> after stdout_flush w"
  shows "log_ready n path u" and "log_view n path u = log_view n path w"
    and "pr_fds (ux_proc u) = pr_fds (ux_proc w)"
proof -
  from assms(1) have o: "n \<noteq> Path path" "out_to n w (content n w)" by (simp_all add: log_ready_def)
  have fl: "out_to n u (content n w @ pr_buf (ux_proc w))" "pr_buf (ux_proc u) = []"
    using flush_out(1,2) [OF o(2)] by (simp_all add: u_def)
  note c = out_to_content [OF fl(1)]
  from fl(1) o(1) c show "log_ready n path u" by (simp add: log_ready_def)
  have "content (Path path) u = content (Path path) w"
    using write_out(3) [OF o(2) o(1) [symmetric]] by (simp add: content_def u_def stdout_flush_def)
  with c fl(2) show "log_view n path u = log_view n path w" by (simp add: log_view_def u_def)
  show "pr_fds (ux_proc u) = pr_fds (ux_proc w)"
    using write_out(2) [OF o(2)] by (simp add: u_def stdout_flush_def)
qed

lemma close_log:
  assumes "log_ready n path w" and "fd \<noteq> 1"
  shows "log_ready n path (after (sys_close (int fd)) w)"
    and "log_view n path (after (sys_close (int fd)) w) = log_view n path w"
    and "pr_fds (ux_proc (after (sys_close (int fd)) w)) = fd_set fd None (pr_fds (ux_proc w))"
  using assms by (simp_all add: sys_close_def with_fds_def log_ready_def log_view_def content_def out_to_def)

text \<open>Writing to an open file of another node leaves descriptor 1 alone.\<close>

lemma out_to_write_at:
  assumes "out_to n u d" and "of_node (ux_opened u ! j) \<noteq> n"
  shows "out_to n (write_at j bs u) d"
proof -
  from assms(1) obtain i where i: "ux_files u n = Some d" "fd_get 1 (pr_fds (ux_proc u)) = Some i"
    "i < length (ux_opened u)" "of_node (ux_opened u ! i) = n" "of_write (ux_opened u ! i)"
    "of_append (ux_opened u ! i) \<or> of_pos (ux_opened u ! i) = length d" by (auto simp: out_to_def)
  then have "i \<noteq> j" using assms(2) by auto
  with i assms(2) show ?thesis by (simp add: out_to_def write_at_def Let_def)
qed

lemma same_fds_closed:
  assumes "pr_fds (ux_proc w') = fd_set fd None (fd_set fd x (pr_fds (ux_proc w)))"
    and "fd = lowest_free (pr_fds (ux_proc w))"
  shows "same_fds w w'"
  using assms lowest_free_free by (simp add: same_fds_def)

text \<open>A sequence of records, up to the first one that is undefined behaviour.\<close>

type_synonym log_args = "int \<times> int \<times> string"

fun log_all :: "(int \<Rightarrow> int \<Rightarrow> string \<Rightarrow> unit option prog) \<Rightarrow> log_args list \<Rightarrow> unit option prog" where
  "log_all log [] = State_Monad.return (Some ())"
| "log_all log ((l, t, m) # rs) =
     do { x \<leftarrow> log l t m; (case x of None \<Rightarrow> State_Monad.return None | Some u \<Rightarrow> log_all log rs) }"

fun spec_all ::
  "(int \<Rightarrow> int \<Rightarrow> string \<Rightarrow> log_world \<Rightarrow> log_world option) \<Rightarrow> log_args list \<Rightarrow> log_world \<Rightarrow> log_world option" where
  "spec_all f [] v = Some v"
| "spec_all f ((l, t, m) # rs) v = (case f l t m v of None \<Rightarrow> None | Some v' \<Rightarrow> spec_all f rs v')"

definition implements :: "node \<Rightarrow> string \<Rightarrow> unix \<Rightarrow> unit option prog \<Rightarrow> log_world option \<Rightarrow> bool" where
  "implements n path w p r \<longleftrightarrow>
     (case r of
        None \<Rightarrow> fst (run_state p w) = None
      | Some v \<Rightarrow> fst (run_state p w) = Some () \<and> log_view n path (after p w) = v \<and>
          log_ready n path (after p w) \<and> same_fds w (after p w))"

locale logger =
  fixes n :: node and path :: string
    and log :: "int \<Rightarrow> int \<Rightarrow> string \<Rightarrow> unit option prog"
    and spec :: "int \<Rightarrow> int \<Rightarrow> string \<Rightarrow> log_world \<Rightarrow> log_world option"
  assumes log_implements: "log_ready n path w \<Longrightarrow> implements n path w (log l t m) (spec l t m (log_view n path w))"
begin

lemma log_all_implements:
  "log_ready n path w \<Longrightarrow> implements n path w (log_all log rs) (spec_all spec rs (log_view n path w))"
proof (induction rs arbitrary: w)
  case Nil
  then show ?case by (simp add: implements_def same_fds_def)
next
  case (Cons r rs)
  obtain l t m where r: "r = (l, t, m)" by (cases r)
  note one = log_implements [OF Cons.prems, of l t m]
  show ?case
  proof (cases "spec l t m (log_view n path w)")
    case None
    with one show ?thesis by (simp add: implements_def r)
  next
    case (Some v)
    with one have o: "fst (run_state (log l t m) w) = Some ()" "log_view n path (after (log l t m) w) = v"
      "log_ready n path (after (log l t m) w)" "same_fds w (after (log l t m) w)"
      by (simp_all add: implements_def)
    from Cons.IH [OF o(3)] Some o(1,2,4) show ?thesis
      by (simp add: implements_def same_fds_def r split: option.splits)
  qed
qed

text \<open>What one record keeps, all of them keep.\<close>

lemma log_all_keeps:
  assumes "\<And>w l t m v. log_ready n path w \<Longrightarrow> Q w \<Longrightarrow> spec l t m (log_view n path w) = Some v \<Longrightarrow> Q (after (log l t m) w)"
  shows "log_ready n path w \<Longrightarrow> Q w \<Longrightarrow> spec_all spec rs (log_view n path w) = Some v \<Longrightarrow> Q (after (log_all log rs) w)"
proof (induction rs arbitrary: w)
  case (Cons r rs)
  obtain l t m where r: "r = (l, t, m)" by (cases r)
  from Cons.prems(3) obtain v' where v': "spec l t m (log_view n path w) = Some v'" "spec_all spec rs v' = Some v"
    by (auto simp: r split: option.splits)
  from log_implements [OF Cons.prems(1), of l t m] v'(1) have o: "fst (run_state (log l t m) w) = Some ()"
    "log_view n path (after (log l t m) w) = v'" "log_ready n path (after (log l t m) w)"
    by (simp_all add: implements_def)
  from Cons.IH [OF o(3) assms [OF Cons.prems(1,2) v'(1)]] o(1,2) v'(2) show ?case by (simp add: r)
qed simp

end

interpretation in_file: logger n path "logMessage_file path" logMessage for n path
proof
  fix w l t m
  assume rd: "log_ready n path w"
  show "implements n path w (logMessage_file path l t m) (logMessage l t m (log_view n path w))"
  proof (cases "std_buffer l t")
    case None
    then show ?thesis by (simp add: implements_def logMessage_file_def logMessage_def log_record_def)
  next
    case (Some sb)
    show ?thesis
    proof (cases "path \<in> set (ux_denied w)")
      case True
      with Some show ?thesis
        by (simp add: implements_def logMessage_file_def logMessage_def log_record_def fopen_fails log_view_def)
    next
      case False
      let ?r = "sb @ log_buffer m" and ?fd = "lowest_free (pr_fds (ux_proc w))"
      let ?u = "after (fopen_a path) w" and ?v = "after (sys_write ?fd ?r) (after (fopen_a path) w)"
      from rd have o: "n \<noteq> Path path" "out_to n w (content n w)" by (simp_all add: log_ready_def)
      note f = fopen_a_opens [OF False o] and fl = fopen_log [OF False rd]
      have wr: "?v = write_at (length (ux_opened w)) ?r ?u" using f(5,6) by (simp add: sys_write_def)
      have files: "ux_files ?v = (ux_files w)(Path path \<mapsto> content (Path path) w @ ?r)"
        using f(4,6) by (simp add: wr write_at_def Let_def)
      have proc: "ux_proc ?v = ux_proc ?u" by (rule write_other(2))
      have "of_node (ux_opened ?u ! length (ux_opened w)) \<noteq> n" using f(6) o(1) by simp
      from out_to_write_at [OF f(2) this] have ov: "out_to n ?v (content n w)" by (simp only: wr)
      then have "log_ready n path ?v" using o(1) out_to_content [OF ov] by (simp add: log_ready_def)
      note c = close_log [OF this f(3)]
      have "log_view n path ?v = (log_view n path w)\<lparr>logfile := content (Path path) w @ ?r\<rparr>"
        using files o(1) f(7,8) proc by (simp add: log_view_def content_def)
      with c Some False f(1) proc f(5) same_fds_closed show ?thesis
        by (simp add: implements_def logMessage_file_def logMessage_def log_record_def log_view_def)
    qed
  qed
qed

interpretation pool: logger n path "logMessage_pool path" logMessage_tcp for n path
proof
  fix w l t m
  assume rd: "log_ready n path w"
  show "implements n path w (logMessage_pool path l t m) (logMessage_tcp l t m (log_view n path w))"
  proof (cases "std_buffer l t")
    case None
    then show ?thesis by (simp add: implements_def logMessage_pool_def logMessage_tcp_def log_record_def)
  next
    case (Some sb)
    show ?thesis
    proof (cases "path \<in> set (ux_denied w)")
      case True
      with Some show ?thesis
        by (simp add: implements_def logMessage_pool_def logMessage_tcp_def log_record_def fopen_fails log_view_def)
    next
      case False
      let ?r = "sb @ log_buffer m @ [newline]" and ?u = "after (fopen_a path) w"
      from rd have o: "n \<noteq> Path path" "out_to n w (content n w)" by (simp_all add: log_ready_def)
      note f = fopen_a_opens [OF False o] and fl = fopen_log [OF False rd]
      note p = put_log [OF fl(1), of ?r]
      note q = flush_log [OF p(1)]
      note c = close_log [OF q(1) f(3)]
      from c q(2,3) p(2,3) fl(2) f(1,5) Some False same_fds_closed show ?thesis
        by (simp add: implements_def logMessage_pool_def logMessage_tcp_def log_record_def log_view_def newline_def)
    qed
  qed
qed

interpretation to_stdout: logger n path logMessage_stdout logMessage_udp for n path
proof
  fix w l t m
  assume rd: "log_ready n path w"
  show "implements n path w (logMessage_stdout l t m) (logMessage_udp l t m (log_view n path w))"
    using put_log [OF rd]
    by (simp add: implements_def logMessage_stdout_def logMessage_udp_def log_record_def newline_def same_fds_def
        split: option.split)
qed

interpretation flushed: logger n path logMessage_flushed logMessage_udp for n path
proof
  fix w l t m
  assume rd: "log_ready n path w"
  show "implements n path w (logMessage_flushed l t m) (logMessage_udp l t m (log_view n path w))"
    using put_log [OF rd] flush_log [OF put_log(1) [OF rd]]
    by (simp add: implements_def logMessage_flushed_def logMessage_udp_def log_record_def newline_def same_fds_def
        split: option.split)
qed

text \<open>
  C10. Each version does, on descriptors and buffers, exactly what Logging says it does with its log file
  and standard output, for any sequence of records: the same text in the same place, undefined
  behaviour for the same records, and the process ends up with the descriptors it had.
\<close>

theorem log_versions_refine:
  assumes "log_ready n path w"
  shows "implements n path w (log_all (logMessage_file path) rs) (spec_all logMessage rs (log_view n path w)) \<and>
     implements n path w (log_all (logMessage_pool path) rs) (spec_all logMessage_tcp rs (log_view n path w)) \<and>
     implements n path w (log_all logMessage_stdout rs) (spec_all logMessage_udp rs (log_view n path w)) \<and>
     implements n path w (log_all logMessage_flushed rs) (spec_all logMessage_udp rs (log_view n path w))"
  using in_file.log_all_implements [OF assms] pool.log_all_implements [OF assms]
    to_stdout.log_all_implements [OF assms] flushed.log_all_implements [OF assms] by blast

lemma ready_terminal: "log_ready Tty path (on_terminal fs denied)"
  by (simp add: log_ready_def on_terminal_def out_to_def content_def tty_file_def fd_get_def)

lemma ready_file: "p \<noteq> path \<Longrightarrow> log_ready (Path p) path (to_file fs p)"
  by (simp add: log_ready_def to_file_def out_to_def content_def fd_get_def)

theorem log_versions_refine_witness:
  "fst (run_state (log_all (logMessage_file ''a.log'') [(0, 1, ''x''), (9, 1, ''y'')]) (on_terminal (\<lambda>_. None) [])) = None"
  using conjunct1 [OF log_versions_refine [OF ready_terminal, of "''a.log''" "\<lambda>_. None" "[]" "[(0, 1, ''x''), (9, 1, ''y'')]"]]
    std_buffer_None [of 9 1] std_buffer_exact [of 0 1]
  by (simp add: implements_def logMessage_def log_view_def on_terminal_def)

section \<open>Killed\<close>

definition level_ok :: "log_args \<Rightarrow> bool" where
  "level_ok r \<longleftrightarrow> fst r \<in> {0, 1, 2, 3, 4}"

definition log_text :: "byte list \<Rightarrow> log_args list \<Rightarrow> byte list" where
  "log_text e rs = concat (map (\<lambda>(l, t, m). the (log_record l t m) @ e) rs)"

lemma level_ok_record: "level_ok (l, t, m) \<Longrightarrow> \<exists>sb. std_buffer l t = Some sb"
  using std_buffer_None [of l t] by (auto simp: level_ok_def)

lemma spec_all_appends:
  assumes "\<And>l t m v. level_ok (l, t, m) \<Longrightarrow> P v \<Longrightarrow> f l t m v = Some (g (the (log_record l t m) @ e) v)"
    and "\<And>x v. P v \<Longrightarrow> P (g x v)" and "\<And>x y v. g y (g x v) = g (x @ y) v" and "\<And>v. g [] v = v"
  shows "\<forall>r \<in> set rs. level_ok r \<Longrightarrow> P v \<Longrightarrow> spec_all f rs v = Some (g (log_text e rs) v)"
proof (induction rs arbitrary: v)
  case Nil
  then show ?case using assms(4) by (simp add: log_text_def)
next
  case (Cons r rs)
  obtain l t m where r: "r = (l, t, m)" by (cases r)
  have "level_ok (l, t, m)" using Cons.prems(1) by (simp add: r)
  from assms(1) [OF this Cons.prems(2)] Cons.IH [OF _ assms(2) [OF Cons.prems(2)]] Cons.prems(1)
  show ?case by (simp add: r log_text_def assms(3))
qed

lemma spec_all_file:
  "\<forall>r \<in> set rs. level_ok r \<Longrightarrow> log_opens v \<Longrightarrow>
   spec_all logMessage rs v = Some (v\<lparr>logfile := logfile v @ log_text [] rs\<rparr>)"
  by (rule spec_all_appends [where P = log_opens and g = "\<lambda>x v. v\<lparr>logfile := logfile v @ x\<rparr>"])
    (auto simp: logMessage_def log_record_def dest: level_ok_record)

lemma spec_all_udp:
  "\<forall>r \<in> set rs. level_ok r \<Longrightarrow>
   spec_all logMessage_udp rs v = Some (v\<lparr>stdout := stdout v @ log_text [newline] rs\<rparr>)"
  by (rule spec_all_appends [where P = "\<lambda>_. True" and g = "\<lambda>x v. v\<lparr>stdout := stdout v @ x\<rparr>"])
    (auto simp: logMessage_udp_def log_record_def newline_def dest: level_ok_record)

lemma spec_all_tcp:
  "\<forall>r \<in> set rs. level_ok r \<Longrightarrow> log_opens v \<Longrightarrow>
   spec_all logMessage_tcp rs v = Some (v\<lparr>stdout := stdout v @ log_text [newline] rs\<rparr>)"
  by (rule spec_all_appends [where P = log_opens and g = "\<lambda>x v. v\<lparr>stdout := stdout v @ x\<rparr>"])
    (auto simp: logMessage_tcp_def log_record_def newline_def dest: level_ok_record)

lemma flush_empties: "pr_buf (ux_proc (after stdout_flush w)) = []"
  by (simp add: stdout_flush_def)

lemma close_buf [simp]: "pr_buf (ux_proc (after (sys_close fd) w)) = pr_buf (ux_proc w)"
  by (simp add: sys_close_def with_fds_def)

lemma flushed_buf:
  "logMessage_udp l t m v = Some v' \<Longrightarrow> pr_buf (ux_proc (after (logMessage_flushed l t m) w)) = []"
  by (auto simp: logMessage_udp_def logMessage_flushed_def log_record_def flush_empties split: option.splits)

lemma pool_buf:
  "logMessage_tcp l t m v = Some v' \<Longrightarrow> pr_buf (ux_proc (after (logMessage_pool path l t m) w)) = []"
  by (auto simp: logMessage_tcp_def logMessage_pool_def log_record_def flush_empties split: option.splits if_splits)

lemma stdout_ops:
  "\<forall>r \<in> set rs. level_ok r \<Longrightarrow> after (log_all logMessage_stdout rs) w =
     after (out_run (map (\<lambda>(l, t, m). Printf (the (log_record l t m) @ [newline])) rs)) w"
proof (induction rs arbitrary: w)
  case (Cons r rs)
  obtain l t m where r: "r = (l, t, m)" by (cases r)
  from Cons.prems level_ok_record [of l t m] obtain sb where "std_buffer l t = Some sb" by (auto simp: r)
  with Cons r show ?case by (simp add: logMessage_stdout_def log_record_def)
qed simp

lemma printed_records:
  "printed (map (\<lambda>(l, t, m). Printf (the (log_record l t m) @ [newline])) rs) = log_text [newline] rs"
  "in_order (map (\<lambda>(l, t, m). Printf (the (log_record l t m) @ [newline])) rs) = log_text [newline] rs"
  "written (map (\<lambda>(l, t, m). Printf (the (log_record l t m) @ [newline])) rs) = []"
  by (induction rs) (auto simp: log_text_def)

text \<open>
  C11. What a process that is killed after the records \<open>rs\<close> leaves: all of them with the versions that
  close the file or flush. The version of 0215/udp leaves all of them on a terminal; into a file it
  leaves none, as long as they fit the buffer.
\<close>

theorem killed_process_log:
  assumes "log_ready n path w" and "pr_buf (ux_proc w) = []" and "path \<notin> set (ux_denied w)"
    and "\<forall>r \<in> set rs. level_ok r"
  shows "content (Path path) (after (log_all (logMessage_file path) rs) w) = content (Path path) w @ log_text [] rs \<and>
     content n (after (log_all (logMessage_pool path) rs) w) = content n w @ log_text [newline] rs \<and>
     content n (after (log_all logMessage_flushed rs) w) = content n w @ log_text [newline] rs \<and>
     (stdout_mode w = Line_buffered \<longrightarrow>
        content n (after (log_all logMessage_stdout rs) w) = content n w @ log_text [newline] rs) \<and>
     (stdout_mode w = Full_buffered \<and> length (log_text [newline] rs) \<le> BUFSIZ \<longrightarrow>
        content n (after (log_all logMessage_stdout rs) w) = content n w)"
proof -
  have op: "log_opens (log_view n path w)" using assms(3) by (simp add: log_view_def)
  note sf = spec_all_file [OF assms(4) op] and st = spec_all_tcp [OF assms(4) op] and su = spec_all_udp [OF assms(4)]
  from in_file.log_all_implements [OF assms(1), of rs, unfolded sf] have f1:
    "content (Path path) (after (log_all (logMessage_file path) rs) w) = content (Path path) w @ log_text [] rs"
    by (simp add: implements_def log_view_def)
  have "pr_buf (ux_proc (after (log_all (logMessage_pool path) rs) w)) = []"
    by (rule pool.log_all_keeps [where Q = "\<lambda>w. pr_buf (ux_proc w) = []", OF pool_buf assms(1,2) st])
  with pool.log_all_implements [OF assms(1), of rs, unfolded st] assms(2) have pool:
    "content n (after (log_all (logMessage_pool path) rs) w) = content n w @ log_text [newline] rs"
    by (simp add: implements_def log_view_def)
  have "pr_buf (ux_proc (after (log_all logMessage_flushed rs) w)) = []"
    by (rule flushed.log_all_keeps [where Q = "\<lambda>w. pr_buf (ux_proc w) = []", OF flushed_buf assms(1,2) su])
  with flushed.log_all_implements [OF assms(1), of rs, unfolded su] assms(2) have flushed:
    "content n (after (log_all logMessage_flushed rs) w) = content n w @ log_text [newline] rs"
    by (simp add: implements_def log_view_def)
  let ?os = "map (\<lambda>(l, t, m). Printf (the (log_record l t m) @ [newline])) rs"
  have o: "out_to n w (content n w)" using assms(1) by (simp add: log_ready_def)
  have "content n (after (log_all logMessage_stdout rs) w) = content n w @ log_text [newline] rs"
    if "stdout_mode w = Line_buffered"
  proof -
    have "\<forall>x \<in> set ?os. is_lines x" by (auto simp: is_lines_def)
    from conjunct1 [OF out_run_line [OF o that assms(2) this]] show ?thesis
      by (simp add: stdout_ops [OF assms(4)] out_to_content printed_records)
  qed
  moreover have "content n (after (log_all logMessage_stdout rs) w) = content n w"
    if "stdout_mode w = Full_buffered" "length (log_text [newline] rs) \<le> BUFSIZ"
  proof -
    have f: "Fflush \<notin> set ?os" by auto
    have "length (pr_buf (ux_proc w)) + length (printed ?os) \<le> BUFSIZ"
      using that(2) assms(2) by (simp add: printed_records)
    from conjunct1 [OF out_run_full [OF o that(1) f this]] show ?thesis
      by (simp add: stdout_ops [OF assms(4)] out_to_content printed_records)
  qed
  ultimately show ?thesis using f1 pool flushed by blast
qed

theorem killed_process_log_witness:
  "content (Path ''o'') (after (log_all logMessage_stdout [(1, 5, ''up'')]) (to_file (\<lambda>_. None) ''o'')) = [] \<and>
   content (Path ''o'') (after (log_all logMessage_flushed [(1, 5, ''up'')]) (to_file (\<lambda>_. None) ''o''))
     = log_text [newline] [(1, 5, ''up'')]"
proof -
  let ?w = "to_file (\<lambda>_. None) ''o''"
  have a: "log_ready (Path ''o'') ''a.log'' ?w" by (rule ready_file) simp
  have b: "pr_buf (ux_proc ?w) = []" "''a.log'' \<notin> set (ux_denied ?w)" "stdout_mode ?w = Full_buffered"
    "content (Path ''o'') ?w = []"
    by (simp_all add: to_file_def stdout_mode_def open_file_def fd_get_def content_def)
  have c: "\<forall>r \<in> set [(1, 5, ''up'')]. level_ok r" by (simp add: level_ok_def)
  have "std_buffer 1 5 = Some (''['' @ gLevelMap ! nat 1 @ ''] ['' @ show_int 5 @ ''] '')"
    by (rule std_buffer_exact) simp_all
  moreover have "length (log_buffer ''up'') < 1024" "length (show_int 5) \<le> 2"
    using length_log_buffer length_show_int [of 5 0] by simp_all
  ultimately have "length (log_text [newline] [(1, 5, ''up'')]) \<le> BUFSIZ"
    by (simp add: log_text_def log_record_def gLevelMap_def BUFSIZ_def)
  with killed_process_log [OF a b(1,2) c] b(3,4) show ?thesis by simp
qed

end
