(* ===== verification/Log_Threads.thy ===== *)
theory Log_Threads
  imports Log_Versions Lts
begin

text \<open>
  Threads of one process that log at the same time with the version of 0208 and 0211, as the workers
  of the thread pool and its \<open>main\<close> do: \<open>logMessage\<close> takes no lock, every call opens the file, writes
  and closes it, and the descriptors are the process's. A step is one system call of one thread.
\<close>

datatype log_pc = Lg_Idle | Lg_Write nat string | Lg_Close nat | Lg_Undefined

record log_sys =
  lg_unix :: unix
  lg_pcs :: "log_pc list"

definition log_init :: "unix \<Rightarrow> log_sys \<Rightarrow> bool" where
  "log_init w s \<longleftrightarrow> lg_unix s = w \<and> (\<forall>p \<in> set (lg_pcs s). p = Lg_Idle)"

inductive log_step :: "string \<Rightarrow> log_sys \<Rightarrow> (nat \<times> string) option \<Rightarrow> log_sys \<Rightarrow> bool"
  for LOGFILE :: string where
  opens: "t < length (lg_pcs s) \<Longrightarrow> lg_pcs s ! t = Lg_Idle \<Longrightarrow> log_record level timestamp msg = Some r \<Longrightarrow>
    run_state (fopen_a LOGFILE) (lg_unix s) = (int fd, w) \<Longrightarrow>
    log_step LOGFILE s None \<lparr>lg_unix = w, lg_pcs = (lg_pcs s)[t := Lg_Write fd r]\<rparr>"
| open_fails: "t < length (lg_pcs s) \<Longrightarrow> lg_pcs s ! t = Lg_Idle \<Longrightarrow> log_record level timestamp msg = Some r \<Longrightarrow>
    run_state (fopen_a LOGFILE) (lg_unix s) = (fp, w) \<Longrightarrow> fp < 0 \<Longrightarrow>
    log_step LOGFILE s None \<lparr>lg_unix = w, lg_pcs = (lg_pcs s)[t := Lg_Undefined]\<rparr>"
| writes: "t < length (lg_pcs s) \<Longrightarrow> lg_pcs s ! t = Lg_Write fd r \<Longrightarrow>
    log_step LOGFILE s (Some (t, r))
      \<lparr>lg_unix = after (sys_write fd r) (lg_unix s), lg_pcs = (lg_pcs s)[t := Lg_Close fd]\<rparr>"
| closes: "t < length (lg_pcs s) \<Longrightarrow> lg_pcs s ! t = Lg_Close fd \<Longrightarrow>
    log_step LOGFILE s None
      \<lparr>lg_unix = after (sys_close (int fd)) (lg_unix s), lg_pcs = (lg_pcs s)[t := Lg_Idle]\<rparr>"

section \<open>Every thread has its own descriptor\<close>

fun holds :: "log_pc \<Rightarrow> nat option" where
  "holds (Lg_Write fd r) = Some fd"
| "holds (Lg_Close fd) = Some fd"
| "holds _ = None"

text \<open>The descriptor refers to the log file, opened to append.\<close>

definition log_fd :: "string \<Rightarrow> unix \<Rightarrow> nat \<Rightarrow> bool" where
  "log_fd path w fd \<longleftrightarrow>
     (case fd_get fd (pr_fds (ux_proc w)) of
        None \<Rightarrow> False
      | Some i \<Rightarrow> i < length (ux_opened w) \<and> of_node (ux_opened w ! i) = Path path \<and>
          of_append (ux_opened w ! i) \<and> of_write (ux_opened w ! i))"

definition log_sys_inv :: "string \<Rightarrow> (nat \<Rightarrow> nat option) \<Rightarrow> log_sys \<Rightarrow> bool" where
  "log_sys_inv path F s \<longleftrightarrow>
     (\<forall>t < length (lg_pcs s). \<forall>fd. holds (lg_pcs s ! t) = Some fd \<longrightarrow> log_fd path (lg_unix s) fd \<and> F fd = None) \<and>
     (\<forall>t < length (lg_pcs s). \<forall>u < length (lg_pcs s). t \<noteq> u \<longrightarrow> holds (lg_pcs s ! t) \<noteq> None \<longrightarrow>
        holds (lg_pcs s ! t) \<noteq> holds (lg_pcs s ! u)) \<and>
     (\<forall>fd. (\<forall>t < length (lg_pcs s). holds (lg_pcs s ! t) \<noteq> Some fd) \<longrightarrow>
        fd_get fd (pr_fds (ux_proc (lg_unix s))) = F fd)"

lemma log_fd_used: "log_fd path w fd \<Longrightarrow> fd_get fd (pr_fds (ux_proc w)) \<noteq> None"
  by (auto simp: log_fd_def split: option.splits)

lemma fopen_result:
  "run_state (fopen_a path) w =
     (if path \<in> set (ux_denied w) then (-1, w)
      else (let fd = lowest_free (pr_fds (ux_proc w)) in
        (int fd, with_fds (fd_set fd (Some (length (ux_opened w))))
          (w\<lparr>ux_files := (ux_files w)(Path path \<mapsto> content (Path path) w),
             ux_opened := ux_opened w @ [\<lparr>of_node = Path path, of_pos = 0, of_append = True, of_read = False,
               of_write = True\<rparr>]\<rparr>))))"
  by (simp add: fopen_a_def sys_open_def Let_def content_def)

text \<open>One call keeps what the other threads rely on.\<close>

lemma log_fd_open:
  assumes "run_state (fopen_a path) w = (int fd, u)"
  shows "log_fd path u fd" and "fd_get fd (pr_fds (ux_proc w)) = None"
    and "log_fd path w fd' \<Longrightarrow> fd' \<noteq> fd \<and> log_fd path u fd'"
    and "f \<noteq> fd \<Longrightarrow> fd_get f (pr_fds (ux_proc u)) = fd_get f (pr_fds (ux_proc w))"
    and "content (Path path) u = content (Path path) w"
proof -
  have u: "fd = lowest_free (pr_fds (ux_proc w))" "u = with_fds (fd_set fd (Some (length (ux_opened w))))
     (w\<lparr>ux_files := (ux_files w)(Path path \<mapsto> content (Path path) w),
        ux_opened := ux_opened w @ [\<lparr>of_node = Path path, of_pos = 0, of_append = True, of_read = False, of_write = True\<rparr>]\<rparr>)"
    using assms by (auto simp: fopen_result Let_def split: if_splits)
  show n: "fd_get fd (pr_fds (ux_proc w)) = None" using lowest_free_free u(1) by simp
  show "log_fd path u fd" by (simp add: u(2) log_fd_def with_fds_def)
  show "f \<noteq> fd \<Longrightarrow> fd_get f (pr_fds (ux_proc u)) = fd_get f (pr_fds (ux_proc w))" by (simp add: u(2) with_fds_def)
  show "log_fd path w fd' \<Longrightarrow> fd' \<noteq> fd \<and> log_fd path u fd'"
    using n by (auto simp: u(2) log_fd_def with_fds_def nth_append split: option.splits)
  show "content (Path path) u = content (Path path) w" by (simp add: u(2) content_def with_fds_def)
qed

lemma log_fd_write:
  assumes "log_fd path w fd"
  shows "content (Path path) (after (sys_write fd bs) w) = content (Path path) w @ bs"
    and "log_fd path w fd' \<Longrightarrow> log_fd path (after (sys_write fd bs) w) fd'"
    and "pr_fds (ux_proc (after (sys_write fd bs) w)) = pr_fds (ux_proc w)"
proof -
  from assms obtain i where i: "fd_get fd (pr_fds (ux_proc w)) = Some i" "i < length (ux_opened w)"
    "of_node (ux_opened w ! i) = Path path" "of_append (ux_opened w ! i)" "of_write (ux_opened w ! i)"
    by (auto simp: log_fd_def split: option.splits)
  have w: "after (sys_write fd bs) w = write_at i bs w" using i(1,5) by (simp add: sys_write_def)
  show "content (Path path) (after (sys_write fd bs) w) = content (Path path) w @ bs"
    using i(3,4) by (simp add: w write_at_def content_def Let_def)
  show "log_fd path w fd' \<Longrightarrow> log_fd path (after (sys_write fd bs) w) fd'"
    using i by (auto simp: w log_fd_def write_at_def Let_def nth_list_update split: option.splits)
  show "pr_fds (ux_proc (after (sys_write fd bs) w)) = pr_fds (ux_proc w)" by (simp add: w write_at_def Let_def)
qed

lemma log_fd_close:
  "fd_get f (pr_fds (ux_proc (after (sys_close (int fd)) w))) = (if f = fd then None else fd_get f (pr_fds (ux_proc w)))"
  "f \<noteq> fd \<Longrightarrow> log_fd path w f \<Longrightarrow> log_fd path (after (sys_close (int fd)) w) f"
  "content m (after (sys_close (int fd)) w) = content m w"
  by (auto simp: sys_close_def with_fds_def log_fd_def content_def split: option.splits)

lemma log_sys_inv_update:
  assumes "log_sys_inv path F s" and "t < length (lg_pcs s)"
    and "\<And>fd. holds p = Some fd \<Longrightarrow> log_fd path w fd \<and> F fd = None"
    and "\<And>u fd. u < length (lg_pcs s) \<Longrightarrow> u \<noteq> t \<Longrightarrow> holds (lg_pcs s ! u) = Some fd \<Longrightarrow>
      log_fd path w fd \<and> holds p \<noteq> Some fd"
    and "\<And>fd. holds p \<noteq> Some fd \<Longrightarrow> \<forall>u < length (lg_pcs s). u \<noteq> t \<longrightarrow> holds (lg_pcs s ! u) \<noteq> Some fd \<Longrightarrow>
      fd_get fd (pr_fds (ux_proc w)) = F fd"
  shows "log_sys_inv path F \<lparr>lg_unix = w, lg_pcs = (lg_pcs s)[t := p]\<rparr>"
proof -
  from assms(1) have own: "log_fd path (lg_unix s) fd \<and> F fd = None"
    if "u < length (lg_pcs s)" "holds (lg_pcs s ! u) = Some fd" for u fd
    using that by (simp add: log_sys_inv_def)
  from assms(1) have dif: "holds (lg_pcs s ! u) \<noteq> holds (lg_pcs s ! v)"
    if "u < length (lg_pcs s)" "v < length (lg_pcs s)" "u \<noteq> v" "holds (lg_pcs s ! u) \<noteq> None" for u v
    using that by (simp add: log_sys_inv_def)
  have other: "holds p \<noteq> None \<Longrightarrow> holds p \<noteq> holds (lg_pcs s ! u)" "holds (lg_pcs s ! u) \<noteq> None \<Longrightarrow> holds (lg_pcs s ! u) \<noteq> holds p"
    if "u < length (lg_pcs s)" "u \<noteq> t" for u
    using assms(4) [OF that] by (cases "holds (lg_pcs s ! u)"; auto)+
  have 1: "\<forall>u < length (lg_pcs s). \<forall>fd. holds ((lg_pcs s)[t := p] ! u) = Some fd \<longrightarrow> log_fd path w fd \<and> F fd = None"
    using assms(2,3,4) own by (auto simp: nth_list_update)
  have 2: "\<forall>u < length (lg_pcs s). \<forall>v < length (lg_pcs s). u \<noteq> v \<longrightarrow> holds ((lg_pcs s)[t := p] ! u) \<noteq> None \<longrightarrow>
      holds ((lg_pcs s)[t := p] ! u) \<noteq> holds ((lg_pcs s)[t := p] ! v)"
  proof (intro allI impI)
    fix u v assume a: "u < length (lg_pcs s)" "v < length (lg_pcs s)" "u \<noteq> v" "holds ((lg_pcs s)[t := p] ! u) \<noteq> None"
    consider "u = t" "v \<noteq> t" | "v = t" "u \<noteq> t" | "u \<noteq> t" "v \<noteq> t" using a(3) by blast
    then show "holds ((lg_pcs s)[t := p] ! u) \<noteq> holds ((lg_pcs s)[t := p] ! v)"
      using assms(2) a other dif by cases auto
  qed
  have 3: "\<forall>fd. (\<forall>u < length (lg_pcs s). holds ((lg_pcs s)[t := p] ! u) \<noteq> Some fd) \<longrightarrow> fd_get fd (pr_fds (ux_proc w)) = F fd"
  proof (intro allI impI)
    fix fd assume a: "\<forall>u < length (lg_pcs s). holds ((lg_pcs s)[t := p] ! u) \<noteq> Some fd"
    show "fd_get fd (pr_fds (ux_proc w)) = F fd"
    proof (rule assms(5))
      show "holds p \<noteq> Some fd" using a assms(2) by (metis nth_list_update_eq)
      show "\<forall>u < length (lg_pcs s). u \<noteq> t \<longrightarrow> holds (lg_pcs s ! u) \<noteq> Some fd" using a by (metis nth_list_update_neq)
    qed
  qed
  from 1 2 3 show ?thesis by (simp add: log_sys_inv_def)
qed

lemma log_sys_inv_step:
  assumes "log_sys_inv path F s" and "log_step path s l s'"
  shows "log_sys_inv path F s'"
proof -
  from assms(1) have own: "log_fd path (lg_unix s) fd \<and> F fd = None"
    if "u < length (lg_pcs s)" "holds (lg_pcs s ! u) = Some fd" for u fd
    using that by (simp add: log_sys_inv_def)
  from assms(1) have dif: "holds (lg_pcs s ! v) \<noteq> Some fd"
    if "u < length (lg_pcs s)" "v < length (lg_pcs s)" "v \<noteq> u" "holds (lg_pcs s ! u) = Some fd" for u v fd
    using that by (metis log_sys_inv_def option.distinct(1))
  from assms(1) have free: "fd_get fd (pr_fds (ux_proc (lg_unix s))) = F fd"
    if "\<forall>u < length (lg_pcs s). holds (lg_pcs s ! u) \<noteq> Some fd" for fd
    using that by (simp add: log_sys_inv_def)
  have free': "fd_get fd (pr_fds (ux_proc (lg_unix s))) = F fd"
    if "t < length (lg_pcs s)" "holds (lg_pcs s ! t) \<noteq> Some fd"
      "\<forall>u < length (lg_pcs s). u \<noteq> t \<longrightarrow> holds (lg_pcs s ! u) \<noteq> Some fd" for t fd
    using that free by metis
  from assms(2) show ?thesis
  proof cases
    case (opens t level timestamp msg r fd w)
    note o = log_fd_open [OF opens(6)]
    have "\<forall>u < length (lg_pcs s). holds (lg_pcs s ! u) \<noteq> Some fd" using own o(2) log_fd_used by blast
    then have "F fd = None" using free o(2) by metis
    show ?thesis unfolding opens(2)
    proof (rule log_sys_inv_update [OF assms(1) opens(3)])
      show "\<And>fd'. holds (Lg_Write fd r) = Some fd' \<Longrightarrow> log_fd path w fd' \<and> F fd' = None"
        using o(1) \<open>F fd = None\<close> by simp
      show "\<And>u fd'. u < length (lg_pcs s) \<Longrightarrow> u \<noteq> t \<Longrightarrow> holds (lg_pcs s ! u) = Some fd' \<Longrightarrow>
          log_fd path w fd' \<and> holds (Lg_Write fd r) \<noteq> Some fd'" using own o(3) by fastforce
      show "\<And>fd'. holds (Lg_Write fd r) \<noteq> Some fd' \<Longrightarrow>
          \<forall>u < length (lg_pcs s). u \<noteq> t \<longrightarrow> holds (lg_pcs s ! u) \<noteq> Some fd' \<Longrightarrow> fd_get fd' (pr_fds (ux_proc w)) = F fd'"
        using free' [OF opens(3)] opens(4) o(4) by simp
    qed
  next
    case (open_fails t level timestamp msg r fp w)
    then have "w = lg_unix s" by (auto simp: fopen_result Let_def split: if_splits)
    then show ?thesis unfolding open_fails(2)
      using own free' [OF open_fails(3)] open_fails(4)
      by (intro log_sys_inv_update [OF assms(1) open_fails(3)]) auto
  next
    case (writes t fd r)
    have "holds (lg_pcs s ! t) = Some fd" using writes(4) by simp
    note w = log_fd_write [OF conjunct1 [OF own [OF writes(3) this]], where bs = r]
    show ?thesis unfolding writes(2)
      using own dif [OF writes(3)] free' [OF writes(3)] writes(3,4) w(2,3)
      by (intro log_sys_inv_update [OF assms(1) writes(3)]) auto
  next
    case (closes t fd)
    have h: "holds (lg_pcs s ! t) = Some fd" using closes(4) by simp
    note o = own [OF closes(3) h]
    have ne: "fd' \<noteq> fd" if "u < length (lg_pcs s)" "u \<noteq> t" "holds (lg_pcs s ! u) = Some fd'" for u fd'
      using dif [OF closes(3) that(1,2) h] that(3) by auto
    show ?thesis unfolding closes(2)
    proof (rule log_sys_inv_update [OF assms(1) closes(3)])
      show "\<And>u fd'. u < length (lg_pcs s) \<Longrightarrow> u \<noteq> t \<Longrightarrow> holds (lg_pcs s ! u) = Some fd' \<Longrightarrow>
          log_fd path (after (sys_close (int fd)) (lg_unix s)) fd' \<and> holds Lg_Idle \<noteq> Some fd'"
        using ne own log_fd_close(2) by simp
      show "\<And>fd'. \<forall>u < length (lg_pcs s). u \<noteq> t \<longrightarrow> holds (lg_pcs s ! u) \<noteq> Some fd' \<Longrightarrow>
          fd_get fd' (pr_fds (ux_proc (after (sys_close (int fd)) (lg_unix s)))) = F fd'"
        using o free' [OF closes(3)] h by (simp add: log_fd_close(1))
    qed simp
  qed
qed

section \<open>Records never mix\<close>

definition append_spec :: "byte list \<Rightarrow> nat \<times> string \<Rightarrow> byte list option" where
  "append_spec d e = Some (d @ snd e)"

lemma append_spec_run: "abs_run append_spec d es = Some (d @ concat (map snd es))"
  by (induction es arbitrary: d) (simp_all add: append_spec_def)

lemma log_init_inv: "log_init w s \<Longrightarrow> log_sys_inv path (\<lambda>fd. fd_get fd (pr_fds (ux_proc w))) s"
proof -
  assume i: "log_init w s"
  then have "holds (lg_pcs s ! t) = None" if "t < length (lg_pcs s)" for t
    using nth_mem [OF that] by (auto simp: log_init_def)
  with i show ?thesis by (simp add: log_init_def log_sys_inv_def)
qed

lemma log_step_content:
  assumes "log_sys_inv path F s" and "log_step path s l s'"
  shows "content (Path path) (lg_unix s') =
     (case l of None \<Rightarrow> content (Path path) (lg_unix s) | Some e \<Rightarrow> content (Path path) (lg_unix s) @ snd e)"
  using assms(2)
proof cases
  case (opens t level timestamp msg r fd w)
  with log_fd_open(5) [OF opens(6)] show ?thesis by simp
next
  case (open_fails t level timestamp msg r fp w)
  then show ?thesis by (auto simp: fopen_result Let_def split: if_splits)
next
  case (writes t fd r)
  then have "log_fd path (lg_unix s) fd" using assms(1) by (simp add: log_sys_inv_def)
  from log_fd_write(1) [OF this] writes show ?thesis by simp
next
  case (closes t fd)
  then show ?thesis by (simp add: log_fd_close(3))
qed

interpretation logs: trace_refinement "log_init w" "log_step path"
  "log_sys_inv path (\<lambda>fd. fd_get fd (pr_fds (ux_proc w)))" "\<lambda>s. content (Path path) (lg_unix s)" append_spec
  for w path
  by unfold_locales
    (auto intro: log_init_inv log_sys_inv_step simp: append_spec_def dest: log_step_content)

definition is_record :: "string \<Rightarrow> bool" where
  "is_record r \<longleftrightarrow> (\<exists>level timestamp msg. log_record level timestamp msg = Some r)"

definition pc_records :: "log_pc \<Rightarrow> bool" where
  "pc_records p \<longleftrightarrow> (\<forall>fd r. p = Lg_Write fd r \<longrightarrow> is_record r)"

lemma pc_records_simps [simp]:
  "pc_records Lg_Idle" "pc_records (Lg_Close fd)" "pc_records Lg_Undefined" "pc_records (Lg_Write fd r) = is_record r"
  by (simp_all add: pc_records_def)

lemma list_all_update: "list_all P xs \<Longrightarrow> P x \<Longrightarrow> list_all P (xs[i := x])"
  by (cases "i < length xs") (auto simp: list_all_length nth_list_update)

lemma log_step_records:
  assumes "log_step path s l s'" and "list_all pc_records (lg_pcs s)"
  shows "list_all pc_records (lg_pcs s') \<and> (\<forall>e. l = Some e \<longrightarrow> is_record (snd e))"
  using assms(1)
proof cases
  case (opens t level timestamp msg r fd w)
  then have "is_record r" by (auto simp: is_record_def)
  with opens assms(2) show ?thesis by (simp add: list_all_update)
next
  case (writes t fd r)
  then have "is_record r" using assms(2) by (metis list_all_length pc_records_simps(4))
  with writes assms(2) show ?thesis by (simp add: list_all_update)
qed (use assms(2) in \<open>simp_all add: list_all_update\<close>)

lemma log_run_records:
  "Lts.run (log_step path) s0 es s \<Longrightarrow> list_all pc_records (lg_pcs s0) \<Longrightarrow>
   list_all pc_records (lg_pcs s) \<and> (\<forall>e \<in> set es. is_record (snd e))"
  by (induction rule: run.induct) (auto dest: log_step_records)

text \<open>
  C9. However the threads interleave, the log file is the old one and after it whole records, in the
  order of the writes, one for each write: no record is lost, doubled or cut by another. When no
  thread is inside \<open>logMessage\<close>, the process has the descriptors it started with.
\<close>

theorem log_records_never_mix:
  assumes "log_init w s0" and "Lts.run (log_step path) s0 es s"
  shows "content (Path path) (lg_unix s) = content (Path path) w @ concat (map snd es) \<and>
     (\<forall>e \<in> set es. is_record (snd e)) \<and>
     ((\<forall>p \<in> set (lg_pcs s). holds p = None) \<longrightarrow> same_fds w (lg_unix s))"
proof (intro conjI impI)
  have "lg_unix s0 = w" using assms(1) by (simp add: log_init_def)
  then show "content (Path path) (lg_unix s) = content (Path path) w @ concat (map snd es)"
    using logs.trace_refines [OF assms] by (simp add: append_spec_run)
  have "list_all pc_records (lg_pcs s0)" using assms(1) by (auto simp: log_init_def list_all_iff)
  with log_run_records [OF assms(2)] show "\<forall>e \<in> set es. is_record (snd e)" by blast
  assume "\<forall>p \<in> set (lg_pcs s). holds p = None"
  moreover have "log_sys_inv path (\<lambda>fd. fd_get fd (pr_fds (ux_proc w))) s"
    by (rule logs.inv_run [OF assms(2) log_init_inv [OF assms(1)]])
  ultimately show "same_fds w (lg_unix s)" by (simp add: log_sys_inv_def same_fds_def)
qed

text \<open>Two threads open the file before either of them writes.\<close>

definition log_exec :: "string \<Rightarrow> nat \<times> int \<times> int \<times> string \<Rightarrow> log_sys \<Rightarrow> ((nat \<times> string) option \<times> log_sys) option" where
  "log_exec path = (\<lambda>(t, level, timestamp, msg) s.
     if length (lg_pcs s) \<le> t then None
     else (case lg_pcs s ! t of
        Lg_Idle \<Rightarrow>
          (case log_record level timestamp msg of
             None \<Rightarrow> None
           | Some r \<Rightarrow>
               let (fp, w) = run_state (fopen_a path) (lg_unix s) in
               Some (None, \<lparr>lg_unix = w, lg_pcs = (lg_pcs s)[t := if 0 \<le> fp then Lg_Write (nat fp) r else Lg_Undefined]\<rparr>))
      | Lg_Write fd r \<Rightarrow>
          Some (Some (t, r), \<lparr>lg_unix = after (sys_write fd r) (lg_unix s), lg_pcs = (lg_pcs s)[t := Lg_Close fd]\<rparr>)
      | Lg_Close fd \<Rightarrow>
          Some (None, \<lparr>lg_unix = after (sys_close (int fd)) (lg_unix s), lg_pcs = (lg_pcs s)[t := Lg_Idle]\<rparr>)
      | Lg_Undefined \<Rightarrow> None))"

lemma log_exec_step: "log_exec path c s = Some (l, s') \<Longrightarrow> log_step path s l s'"
proof (cases c)
  case (fields t level timestamp msg)
  assume e: "log_exec path c s = Some (l, s')"
  show ?thesis
  proof (cases "0 \<le> fst (run_state (fopen_a path) (lg_unix s))")
    case True
    with e fields show ?thesis
      by (auto simp: log_exec_def case_prod_beta Let_def not_le split: if_splits option.splits log_pc.splits
          intro!: log_step.opens log_step.writes log_step.closes prod_eqI)
  next
    case False
    with e fields show ?thesis
      by (auto simp: log_exec_def case_prod_beta Let_def not_le split: if_splits option.splits log_pc.splits
          intro!: log_step.open_fails log_step.writes log_step.closes prod_eqI)
  qed
qed

lemma log_schedule: "schedule (log_exec path) s cs = Some (es, s') \<Longrightarrow> Lts.run (log_step path) s es s'"
  by (rule schedule_run) (auto dest: log_exec_step)

lemma two_loggers:
  assumes "log_record 1 5 ''a'' = Some r1" and "log_record 3 5 ''b'' = Some r2"
  shows "\<exists>s. schedule (log_exec ''l'') \<lparr>lg_unix = on_terminal (\<lambda>_. None) [], lg_pcs = [Lg_Idle, Lg_Idle]\<rparr>
     [(0, 1, 5, ''a''), (1, 3, 5, ''b''), (1, 0, 0, []), (0, 0, 0, []), (0, 0, 0, []), (1, 0, 0, [])]
     = Some ([(1, r2), (0, r1)], s) \<and> lg_pcs s = [Lg_Idle, Lg_Idle]"
  using assms by (simp add: log_exec_def case_prod_beta fopen_result Let_def on_terminal_def with_fds_def)

theorem log_records_never_mix_witness:
  "\<exists>(s :: log_sys) r1 r2. content (Path ''l'') (lg_unix s) = r2 @ r1 \<and>
     log_record 1 5 ''a'' = Some r1 \<and> log_record 3 5 ''b'' = Some r2 \<and> same_fds (on_terminal (\<lambda>_. None) []) (lg_unix s)"
proof -
  let ?w = "on_terminal (\<lambda>_. None) []" and ?s0 = "\<lparr>lg_unix = on_terminal (\<lambda>_. None) [], lg_pcs = [Lg_Idle, Lg_Idle]\<rparr>"
  obtain r1 r2 where r: "log_record 1 5 ''a'' = Some r1" "log_record 3 5 ''b'' = Some r2"
    using std_buffer_None [of 1 5] std_buffer_None [of 3 5] by (auto simp: log_record_def split: option.splits)
  from two_loggers [OF r] obtain s where s: "Lts.run (log_step ''l'') ?s0 [(1, r2), (0, r1)] s"
    "lg_pcs s = [Lg_Idle, Lg_Idle]" using log_schedule by blast
  have "log_init ?w ?s0" by (simp add: log_init_def)
  from log_records_never_mix [OF this s(1)] s(2) r show ?thesis
    by (intro exI [of _ s] exI [of _ r1] exI [of _ r2]) (simp add: content_def on_terminal_def)
qed

end
