(* ===== verification/Pool_Log.thy ===== *)
theory Pool_Log
  imports Pool_Correct "HOL-Library.Multiset"
begin

text \<open>
  The test program of the thread pool as a whole (0208/ThreadPool and 0211, testMain.cc): the pool of
  three workers, the tasks \<open>main\<close> makes, and what the workers write into the log when they run them.
  That lines of different workers do not mix is shown in Log_Threads.
\<close>

text \<open>The calls of the tasks in the order in which they are run, each at its own time.\<close>

fun log_runs :: "(tid \<times> pool_task) list \<Rightarrow> int list \<Rightarrow> log_world \<Rightarrow> log_world option" where
  "log_runs ((t, tsk) # rs) (now # ts) w =
     (case pool_Task_call tsk (thread_name (ThreadPool_threads g_thread_num ! t)) now w of
        None \<Rightarrow> None
      | Some w' \<Rightarrow> log_runs rs ts w')"
| "log_runs _ _ w = Some w"

lemma count_of_worker: "count (mset xs) (w, x) = count (mset (of_worker w xs)) x"
proof (induction xs)
  case (Cons p xs)
  then show ?case by (cases p; cases "fst p = w") (simp_all add: of_worker_Cons)
qed simp

lemma mset_of_workers: "(\<And>w. of_worker w xs = of_worker w ys) \<Longrightarrow> mset xs = mset ys"
  by (rule multiset_eqI) (auto simp: count_of_worker)

lemma of_worker_mem: "x \<in> set (of_worker w xs) \<longleftrightarrow> (w, x) \<in> set xs"
  by (force simp: of_worker_def)

lemma taken_snoc: "taken (es @ [e]) = taken es @ taken [e]"
  by (induction es rule: taken.induct) auto

text \<open>Only workers take tasks.\<close>

lemma taken_by_workers:
  assumes "Lts.run (pool_step n mk) s0 es s" and "worker_roles n (tp_pcs s0)"
  shows "\<forall>(t, x) \<in> set (taken es). t < n"
  using assms
proof (induction rule: run.induct)
  case (run_vis s es s' e s'')
  have roles: "worker_roles n (tp_pcs s')" by (rule poolr.inv_run [OF run_vis.hyps(1) run_vis.prems])
  have "\<forall>(t, x) \<in> set (taken [e]). t < n"
  proof (cases e)
    case (Taken t x)
    with run_vis.hyps(2) have "t < length (tp_pcs s')" "tp_pcs s' ! t = Wk_Take"
      by (auto simp: pool_step_def elim: routine_step.cases pushTask_step.cases)
    with roles have "t < n" by (auto simp: worker_roles_def)
    with Taken show ?thesis by simp
  qed simp_all
  with run_vis show ?case by (auto simp: taken_snoc [of es])
qed simp_all

lemma log_runs_lines:
  assumes "\<forall>(t, tsk) \<in> set rs. t < 3 \<and> made_by_main tsk" and "\<forall>now \<in> set ts. \<bar>now\<bar> < 2 ^ 63"
    and "length ts = length rs" and "log_opens w"
  shows "log_runs rs ts w =
     Some (w\<lparr>logfile := logfile w @ concat (map2 (\<lambda>(t, tsk) now. task_line t tsk now) rs ts)\<rparr>)"
  using assms
proof (induction rs ts w rule: log_runs.induct)
  case (1 t tsk rs now ts w)
  then have "made_by_main tsk" "t < 3" "\<bar>now\<bar> < 2 ^ 63" "log_opens w" by auto
  from task_call_logs [OF this] 1 show ?case by simp
qed auto

text \<open>
  C13. The log of the test program: whatever the schedule, the calls append one whole line for each task
  run, in the order of the runs, with the worker's name and the sum of the task's numbers. When the
  queue is empty and no worker holds a task, the tasks in these lines are exactly the tasks that \<open>main\<close>
  pushed, each as often as it was pushed.
\<close>

theorem pool_log_complete:
  assumes "pool_init 3 0 s0" and "Lts.run (pool_step 3 made_by_main) s0 es s"
    and "\<forall>now \<in> set ts. \<bar>now\<bar> < 2 ^ 63" and "length ts = length (ran es)" and "log_opens w"
  shows "log_runs (ran es) ts w =
       Some (w\<lparr>logfile := logfile w @ concat (map2 (\<lambda>(t, tsk) now. task_line t tsk now) (ran es) ts)\<rparr>) \<and>
     (tp_queue s = [] \<and> (\<forall>t. pool_pendings (tp_pcs s) t = None) \<longrightarrow>
       mset (map snd (ran es)) = mset (pushed es))"
proof -
  note ord = pool_runs_in_order [OF assms(1,2)]
  have "t < 3 \<and> made_by_main tsk" if "(t, tsk) \<in> set (ran es)" for t tsk
  proof -
    have "tsk \<in> set (of_worker t (ran es))" using that by (simp add: of_worker_mem)
    then have "tsk \<in> set (of_worker t (taken es))" using ord by simp
    then have tk: "(t, tsk) \<in> set (taken es)" by (simp add: of_worker_mem)
    with taken_by_workers [OF assms(2) worker_roles_init [OF assms(1)]] have "t < 3" by blast
    with pool_taken_made [OF assms(1,2) conjunct1 [OF ord] tk] show ?thesis by simp
  qed
  then have "\<forall>(t, tsk) \<in> set (ran es). t < 3 \<and> made_by_main tsk" by blast
  note lines = log_runs_lines [OF this assms(3,4,5)]
  have "mset (map snd (ran es)) = mset (pushed es)"
    if "tp_queue s = []" "\<forall>t. pool_pendings (tp_pcs s) t = None"
  proof -
    have "of_worker t (taken es) = of_worker t (ran es)" for t using ord that(2) by (simp add: opt_list_def)
    then have "mset (taken es) = mset (ran es)" by (rule mset_of_workers)
    then have "image_mset snd (mset (taken es)) = image_mset snd (mset (ran es))" by simp
    then show ?thesis using ord that(1) by simp
  qed
  with lines show ?thesis by blast
qed

text \<open>One task, from \<open>main\<close> to the log.\<close>

lemma log_demo_run:
  "\<exists>s0 s. pool_init 3 0 s0 \<and>
     Lts.run (pool_step 3 made_by_main) s0 [Pushed (main_task 5 7), Taken 0 (main_task 5 7), Ran 0 (main_task 5 7)] s \<and>
     tp_queue s = [] \<and> tp_pcs s = [Wk_Lock, Wk_New, Wk_Lock, Ps_Make]"
proof -
  define x where "x = main_task 5 7"
  let ?s0 = "\<lparr>tp_queue = [], tp_lock = None, tp_pcs = [Wk_New, Wk_New, Wk_New, Mn_Run 0]\<rparr>"
  let ?cs = "[(3, x, 1), (3, x, 0), (3, x, 1), (3, x, 0), (3, x, 0), (3, x, 0), (3, x, 0),
              (3, x, 0), (3, x, 0), (0, x, 0), (0, x, 0), (0, x, 0), (0, x, 0), (0, x, 0)]"
  have "\<exists>s. schedule (pool_exec 3) ?s0 ?cs = Some ([Pushed x, Taken 0 x, Ran 0 x], s) \<and>
     tp_queue s = [] \<and> tp_pcs s = [Wk_Lock, Wk_New, Wk_Lock, Ps_Make]"
    by (simp add: pool_exec_def Let_def tq_isEmpty_def tq_push_def tq_getTask_def
        signal_choice_def lockGuard_ctor_def lockGuard_dtor_def Mutex_lock_def Mutex_unlock_def
        pthread_mutex_lock_def pthread_mutex_unlock_def)
  then obtain s where sch: "schedule (pool_exec 3) ?s0 ?cs = Some ([Pushed x, Taken 0 x, Ran 0 x], s)"
    and p: "tp_queue s = []" "tp_pcs s = [Wk_Lock, Wk_New, Wk_Lock, Ps_Make]" by blast
  have "Lts.run (pool_step 3 made_by_main) ?s0 [Pushed x, Taken 0 x, Ran 0 x] s"
    by (rule pool_schedule_run [OF sch]) (auto simp: made_by_main_def x_def)
  moreover have "pool_init 3 0 ?s0" by (simp add: pool_init_def numeral_3_eq_3)
  ultimately show ?thesis using p unfolding x_def by blast
qed

theorem pool_log_complete_witness:
  "log_runs [(0, main_task 5 7)] [9] \<lparr>logfile = [], log_opens = True, stdout = []\<rparr> =
     Some \<lparr>logfile = task_line 0 (main_task 5 7) 9, log_opens = True, stdout = []\<rparr>"
proof -
  obtain s0 s where i: "pool_init 3 0 s0" and r: "Lts.run (pool_step 3 made_by_main) s0
      [Pushed (main_task 5 7), Taken 0 (main_task 5 7), Ran 0 (main_task 5 7)] s"
    using log_demo_run by blast
  from pool_log_complete [OF i r, of "[9]" "\<lparr>logfile = [], log_opens = True, stdout = []\<rparr>"] show ?thesis by simp
qed

end
