(* ===== verification/Sig_Faults.thy ===== *)
theory Sig_Faults
  imports Sig_Handlers Lts
begin

text \<open>
  The programs of 0104 that send a signal to themselves: signal.cc and signal1.cc divide by zero (what
  the processor makes of it, signal 8, is the documented behaviour of Linux on x86; C++ leaves it
  undefined), myraise.cc raises, the first program of signal3.cc aborts, and the second one counts until
  its alarm goes off, again and again.
\<close>

section \<open>Faults\<close>

text \<open>
  A program is a list of statements and, if it does not return after them, the body of its endless loop.
  A handler that returns from a fault goes back to the instruction that made it.
\<close>

datatype stmt = Say string | Catch nat | Divide_by_zero | Raise nat | Abort | Sleep

type_synonym fault_state = "stmt list \<times> sig_state"

fun fault_step :: "(nat \<Rightarrow> string) \<Rightarrow> stmt list option \<Rightarrow> fault_state \<Rightarrow> fault_state part" where
  "fault_step h body ([], p) = (case body of None \<Rightarrow> ([], ([], p), Returned) | Some b \<Rightarrow> ([], (b, p), Running))"
| "fault_step h body (Say l # r, p) = ([l], (r, p), Running)"
| "fault_step h body (Sleep # r, p) = ([], (r, p), Running)"
| "fault_step h body (Catch sig # r, p) = ([], (r, set_signal sig Sig_catch p), Running)"
| "fault_step h body (Divide_by_zero # r, p) =
     (case react 8 p of
        (p', True, f) \<Rightarrow> ([h 8], (Divide_by_zero # r, p'), f)
      | (p', False, f) \<Rightarrow> ([], (r, p'), Ended))"
| "fault_step h body (Raise sig # r, p) =
     (case react sig p of (p', caught, f) \<Rightarrow> (if caught then [h sig] else [], (r, p'), f))"
| "fault_step h body (Abort # r, p) =
     (case react 6 p of (p', caught, f) \<Rightarrow> (if caught then [h 6] else [], (r, p'), Ended))"

fun fault_run :: "nat \<Rightarrow> (nat \<Rightarrow> string) \<Rightarrow> stmt list option \<Rightarrow> fault_state \<Rightarrow> fault_state part" where
  "fault_run 0 h body s = ([], s, Running)"
| "fault_run (Suc n) h body s = and_then (fault_step h body s) (fault_run n h body)"

definition signal_main :: "stmt list" where
  "signal_main = [Catch 8, Divide_by_zero]"

definition signal_loop :: "stmt list" where
  "signal_loop = [Sleep]"

definition running_text :: "int \<Rightarrow> string" where
  "running_text pid =
     utf8 [0xE6, 0x88, 0x91, 0xE6, 0x98, 0xAF, 0xE4, 0xB8, 0x80, 0xE4, 0xB8, 0xAA, 0xE8, 0xBF, 0x9B, 0xE7, 0xA8, 0x8B,
       0xEF, 0xBC, 0x8C, 0xE6, 0x88, 0x91, 0xE6, 0xAD, 0xA3, 0xE5, 0x9C, 0xA8, 0xE8, 0xBF, 0x90, 0xE8, 0xA1, 0x8C] @
     ''..., pid: '' @ show_int pid @ [CHR 0x0A]"

definition signal1_loop :: "int \<Rightarrow> stmt list" where
  "signal1_loop pid = [Say (running_text pid), Divide_by_zero, Say (''run here ... '' @ [CHR 0x0A])]"

definition started_text :: string where
  "started_text = utf8 [0xE6, 0x88, 0x91, 0xE5, 0xBC, 0x80, 0xE5, 0xA7, 0x8B, 0xE8, 0xBF, 0x90, 0xE8, 0xA1, 0x8C,
     0xE4, 0xBA, 0x86] @ [CHR 0x0A]"

definition myraise_main :: "stmt list" where
  "myraise_main = [Say started_text, Sleep, Raise 8]"

definition abort_text :: string where
  "abort_text = utf8 [0xE6, 0x88, 0x91, 0xE6, 0xAD, 0xA3, 0xE5, 0x9C, 0xA8, 0xE8, 0xBF, 0x90, 0xE8, 0xA1, 0x8C] @
     [CHR 0x0A]"

definition abort_main :: "stmt list" where
  "abort_main = [Say abort_text, Sleep, Abort]"

lemma fresh_fatal: "react 8 fresh = (fresh, False, Ended)" "react 6 fresh = (fresh, False, Ended)"
  by (simp_all add: react_def sig_arrive_def fresh_def default_fate_def)

lemma caught_8:
  "react 8 (set_signal 8 Sig_catch fresh) = (set_signal 8 Sig_catch fresh, True, Running)"
  by (simp add: react_def sig_arrive_def fresh_def set_signal_def SIGKILL_def SIGSTOP_def)

lemma fault_again:
  "fault_run n h body (Divide_by_zero # r, set_signal 8 Sig_catch fresh) =
     (replicate n (h 8), (Divide_by_zero # r, set_signal 8 Sig_catch fresh), Running)"
  by (induction n) (simp_all add: caught_8 and_then_def)

text \<open>
  With a handler for signal 8 the program neither ends nor goes on after its division: every further
  step is another call of the handler. Without one it dies at the first division, after one line and
  before \<open>run here\<close>; \<open>raise\<close> and \<open>abort\<close> end their programs after their one line.
\<close>

theorem faults_end_or_repeat:
  "fault_run (Suc n) catch_text (Some signal_loop) (signal_main, fresh) =
     (replicate n (catch_text 8), ([Divide_by_zero], set_signal 8 Sig_catch fresh), Running) \<and>
   (\<exists>s. fault_run (n + 3) h (Some (signal1_loop pid)) ([], fresh) = ([running_text pid], s, Ended)) \<and>
   (\<exists>s. fault_run (n + 3) h None (myraise_main, fresh) = ([started_text], s, Ended)) \<and>
   (\<exists>s. fault_run (n + 3) h None (abort_main, fresh) = ([abort_text], s, Ended))"
  by (simp add: signal_main_def signal1_loop_def myraise_main_def abort_main_def and_then_def fault_again
      fresh_fatal numeral_3_eq_3)

section \<open>The alarm\<close>

datatype alarm_pc = Al_alarm | Al_signal | Al_loop

text \<open>\<open>al_count\<close> is an \<open>int\<close>; an overflow is undefined behaviour.\<close>

record alarm_sys =
  al_pc :: alarm_pc
  al_count :: int
  al_armed :: bool
  al_sig :: sig_state
  al_fate :: fate
  al_defined :: bool

definition alarm_init :: alarm_sys where
  "alarm_init = \<lparr>al_pc = Al_alarm, al_count = 0, al_armed = False, al_sig = fresh, al_fate = Running, al_defined = True\<rparr>"

text \<open>
  A visible step is a call of the handler, which prints the count and sets the alarm again. An
  alarm is used up when it goes off; when that happens is not fixed.
\<close>

inductive alarm_step :: "alarm_sys \<Rightarrow> int option \<Rightarrow> alarm_sys \<Rightarrow> bool" where
  sets_alarm: "al_fate s = Running \<Longrightarrow> al_defined s \<Longrightarrow> al_pc s = Al_alarm \<Longrightarrow>
    alarm_step s None (s\<lparr>al_armed := True, al_pc := Al_signal\<rparr>)"
| sets_handler: "al_fate s = Running \<Longrightarrow> al_defined s \<Longrightarrow> al_pc s = Al_signal \<Longrightarrow>
    alarm_step s None (s\<lparr>al_sig := set_signal 14 Sig_catch (al_sig s), al_pc := Al_loop\<rparr>)"
| counts: "al_fate s = Running \<Longrightarrow> al_defined s \<Longrightarrow> al_pc s = Al_loop \<Longrightarrow> al_count s < 2 ^ 31 - 1 \<Longrightarrow>
    alarm_step s None (s\<lparr>al_count := al_count s + 1\<rparr>)"
| overflows: "al_fate s = Running \<Longrightarrow> al_defined s \<Longrightarrow> al_pc s = Al_loop \<Longrightarrow> al_count s = 2 ^ 31 - 1 \<Longrightarrow>
    alarm_step s None (s\<lparr>al_defined := False\<rparr>)"
| rings: "al_fate s = Running \<Longrightarrow> al_defined s \<Longrightarrow> al_armed s \<Longrightarrow> react 14 (al_sig s) = (p, True, f) \<Longrightarrow>
    alarm_step s (Some (al_count s)) (s\<lparr>al_sig := p, al_fate := f, al_armed := True\<rparr>)"
| unheard: "al_fate s = Running \<Longrightarrow> al_defined s \<Longrightarrow> al_armed s \<Longrightarrow> react 14 (al_sig s) = (p, False, f) \<Longrightarrow>
    alarm_step s None (s\<lparr>al_sig := p, al_fate := f, al_armed := False\<rparr>)"

inductive_cases alarm_cases: "alarm_step s l s'"

definition heard :: sig_state where
  "heard = set_signal 14 Sig_catch fresh"

lemma react_14: "react 14 fresh = (fresh, False, Ended)" "react 14 heard = (heard, True, Running)"
  by (simp_all add: heard_def react_def sig_arrive_def fresh_def default_fate_def set_signal_def SIGKILL_def SIGSTOP_def)

definition alarm_inv :: "alarm_sys \<Rightarrow> bool" where
  "alarm_inv s \<longleftrightarrow>
     (if al_pc s = Al_loop then al_sig s = heard \<and> al_fate s = Running \<and> al_armed s
      else al_sig s = fresh \<and> al_fate s \<in> {Running, Ended} \<and> al_defined s \<and> al_count s = 0 \<and>
        (if al_fate s = Running then al_armed s = (al_pc s = Al_signal) else al_pc s = Al_signal)) \<and>
     (\<not> al_defined s \<longrightarrow> al_count s = 2 ^ 31 - 1) \<and>
     0 \<le> al_count s \<and> al_count s \<le> 2 ^ 31 - 1"

lemma alarm_inv_step:
  assumes "alarm_inv s" and "alarm_step s l s'"
  shows "alarm_inv s'"
  using assms(2,1)
proof cases
  case (rings p f)
  then show ?thesis using assms(1) by (auto simp: alarm_inv_def react_14 split: if_splits)
next
  case (unheard p f)
  then show ?thesis using assms(1) by (auto simp: alarm_inv_def react_14 split: if_splits)
qed (auto simp: alarm_inv_def heard_def split: if_splits)

interpretation alarm: inductive_invariant "\<lambda>s. s = alarm_init" alarm_step alarm_inv
  by unfold_locales (simp add: alarm_init_def alarm_inv_def, rule alarm_inv_step)

lemma alarm_step_trace:
  assumes "alarm_inv s" and "alarm_step s l s'"
  shows "al_count s \<le> al_count s'" and "l = Some c \<Longrightarrow> c = al_count s \<and> al_pc s' = Al_loop"
    and "al_pc s = Al_loop \<Longrightarrow> al_pc s' = Al_loop"
  using assms(2,1) by (cases; auto simp: alarm_inv_def react_14 split: if_splits)+

lemma alarm_run_trace:
  "Lts.run alarm_step s0 es s \<Longrightarrow> s0 = alarm_init \<Longrightarrow>
   sorted es \<and> (\<forall>c \<in> set es. 0 \<le> c \<and> c \<le> al_count s) \<and> (es \<noteq> [] \<longrightarrow> al_pc s = Al_loop)"
proof (induction rule: run.induct)
  case (run_tau s es s' s'')
  then have inv: "alarm_inv s'" using alarm.inv_run alarm.inv_init by blast
  from alarm_step_trace(1,3) [OF inv run_tau.hyps(2)] run_tau.IH [OF run_tau.prems] show ?case by fastforce
next
  case (run_vis s es s' c s'')
  then have inv: "alarm_inv s'" using alarm.inv_run alarm.inv_init by blast
  from alarm_step_trace(1) [OF inv run_vis.hyps(2)] alarm_step_trace(2) [OF inv run_vis.hyps(2) refl]
    run_vis.IH [OF run_vis.prems] inv show ?case by (auto simp: sorted_append alarm_inv_def)
qed simp

text \<open>
  The counts printed never go down. Once the handler is in place the alarm is always set, so another
  line can always come until the counter overflows; an alarm before that ends the program without a
  line, and it cannot end in any other way.
\<close>

theorem alarm_counts:
  assumes "Lts.run alarm_step alarm_init es s"
  shows "sorted es \<and> (\<forall>c \<in> set es. 0 \<le> c \<and> c \<le> al_count s) \<and>
     (al_pc s = Al_loop \<and> al_defined s \<longrightarrow> (\<exists>s'. alarm_step s (Some (al_count s)) s')) \<and>
     (al_fate s \<noteq> Running \<longrightarrow> es = [] \<and> al_pc s = Al_signal) \<and>
     (\<not> al_defined s \<longrightarrow> al_count s = 2 ^ 31 - 1)"
proof -
  have inv: "alarm_inv s" using alarm.inv_run [OF assms] alarm.inv_init by blast
  note tr = alarm_run_trace [OF assms refl]
  have "\<exists>s'. alarm_step s (Some (al_count s)) s'" if "al_pc s = Al_loop" "al_defined s"
    using inv that alarm_step.rings [of s heard Running] by (auto simp: alarm_inv_def react_14)
  moreover have "es = [] \<and> al_pc s = Al_signal" if "al_fate s \<noteq> Running"
    using inv that tr by (auto simp: alarm_inv_def split: if_splits)
  moreover have "\<not> al_defined s \<longrightarrow> al_count s = 2 ^ 31 - 1" using inv by (simp add: alarm_inv_def)
  ultimately show ?thesis using tr by blast
qed

text \<open>One line, and the program that is killed before it has a handler.\<close>

lemma alarm_demo: "\<exists>s. Lts.run alarm_step alarm_init [0] s"
proof -
  let ?a = "alarm_init\<lparr>al_armed := True, al_pc := Al_signal\<rparr>"
  let ?b = "?a\<lparr>al_sig := heard, al_pc := Al_loop\<rparr>"
  have "alarm_step alarm_init None ?a" by (rule alarm_step.sets_alarm) (simp_all add: alarm_init_def)
  then have "Lts.run alarm_step alarm_init [] ?a" by (rule run_one_tau)
  moreover have "alarm_step ?a None ?b"
    using alarm_step.sets_handler [of ?a] by (simp add: alarm_init_def heard_def)
  ultimately have "Lts.run alarm_step alarm_init [] ?b" by (rule run_tau)
  moreover have "alarm_step ?b (Some 0) (?b\<lparr>al_sig := heard, al_fate := Running, al_armed := True\<rparr>)"
    using alarm_step.rings [of ?b heard Running] by (simp add: alarm_init_def react_14)
  ultimately have "Lts.run alarm_step alarm_init ([] @ [0]) (?b\<lparr>al_sig := heard, al_fate := Running, al_armed := True\<rparr>)"
    by (rule run_vis)
  then show ?thesis by auto
qed

theorem alarm_counts_witness:
  "\<exists>s. Lts.run alarm_step alarm_init [0] s \<and> al_fate s = Running"
proof -
  from alarm_demo obtain s where s: "Lts.run alarm_step alarm_init [0] s" ..
  from alarm_counts [OF s] have "al_fate s = Running" by auto
  with s show ?thesis by blast
qed

end
