(* ===== verification/Ref_Race.thy ===== *)
theory Ref_Race
  imports Lts
begin

text \<open>
  The program of xjh_multi_thread/test1.cc that passes a local variable to a thread with
  \<open>std::ref\<close>: the thread adds 10 to it while \<open>main\<close> prints it, before the \<open>join\<close>. C++ leaves this race undefined; here a
  read and a write of an \<open>int\<close> are single steps.
\<close>

datatype ref_child = Rf_load | Rf_store int | Rf_done

datatype ref_main = Rf_start | Rf_print | Rf_join | Rf_end

record ref_sys =
  rf_x :: int
  rf_child :: ref_child
  rf_main :: ref_main

definition ref_init :: "ref_sys \<Rightarrow> bool" where
  "ref_init s \<longleftrightarrow> s = \<lparr>rf_x = 0, rf_child = Rf_load, rf_main = Rf_start\<rparr>"

text \<open>The visible step is the line printed. The thread runs once it was constructed.\<close>

inductive ref_step :: "ref_sys \<Rightarrow> int option \<Rightarrow> ref_sys \<Rightarrow> bool" where
  constructs: "rf_main s = Rf_start \<Longrightarrow> ref_step s None (s\<lparr>rf_main := Rf_print\<rparr>)"
| loads: "rf_main s \<noteq> Rf_start \<Longrightarrow> rf_child s = Rf_load \<Longrightarrow> ref_step s None (s\<lparr>rf_child := Rf_store (rf_x s + 10)\<rparr>)"
| stores: "rf_child s = Rf_store v \<Longrightarrow> ref_step s None (s\<lparr>rf_x := v, rf_child := Rf_done\<rparr>)"
| prints: "rf_main s = Rf_print \<Longrightarrow> ref_step s (Some (rf_x s)) (s\<lparr>rf_main := Rf_join\<rparr>)"
| joins: "rf_main s = Rf_join \<Longrightarrow> rf_child s = Rf_done \<Longrightarrow> ref_step s None (s\<lparr>rf_main := Rf_end\<rparr>)"

definition ref_inv :: "ref_sys \<Rightarrow> bool" where
  "ref_inv s \<longleftrightarrow>
     (case rf_child s of Rf_load \<Rightarrow> rf_x s = 0 | Rf_store v \<Rightarrow> rf_x s = 0 \<and> v = 10 | Rf_done \<Rightarrow> rf_x s = 10) \<and>
     (rf_main s = Rf_end \<longrightarrow> rf_child s = Rf_done)"

lemma ref_inv_step: "ref_inv s \<Longrightarrow> ref_step s l s' \<Longrightarrow> ref_inv s'"
  by (erule ref_step.cases) (auto simp: ref_inv_def split: ref_child.split)

interpretation refr: inductive_invariant ref_init ref_step ref_inv
  by unfold_locales (simp add: ref_init_def ref_inv_def, rule ref_inv_step)

lemma ref_trace:
  "Lts.run ref_step s0 es s \<Longrightarrow> ref_init s0 \<Longrightarrow>
   (if rf_main s \<in> {Rf_start, Rf_print} then es = [] else es = [0] \<or> es = [10])"
proof (induction rule: run.induct)
  case (run_nil s)
  then show ?case by (simp add: ref_init_def)
next
  case (run_tau s es s' s'')
  from run_tau.hyps(2) run_tau.IH [OF run_tau.prems] show ?case by cases (auto split: if_splits)
next
  case (run_vis s es s' e s'')
  have "ref_inv s'" using refr.inv_run [OF run_vis.hyps(1)] refr.inv_init [OF run_vis.prems] by blast
  with run_vis.hyps(2) run_vis.IH [OF run_vis.prems] show ?case
    by cases (auto simp: ref_inv_def split: ref_child.splits if_splits)
qed

text \<open>The steps as a function: of \<open>main\<close>, or of the thread.\<close>

definition ref_exec :: "bool \<Rightarrow> ref_sys \<Rightarrow> (int option \<times> ref_sys) option" where
  "ref_exec main s =
     (if main then
        (case rf_main s of
           Rf_start \<Rightarrow> Some (None, s\<lparr>rf_main := Rf_print\<rparr>)
         | Rf_print \<Rightarrow> Some (Some (rf_x s), s\<lparr>rf_main := Rf_join\<rparr>)
         | Rf_join \<Rightarrow> if rf_child s = Rf_done then Some (None, s\<lparr>rf_main := Rf_end\<rparr>) else None
         | Rf_end \<Rightarrow> None)
      else if rf_main s = Rf_start then None
      else
        (case rf_child s of
           Rf_load \<Rightarrow> Some (None, s\<lparr>rf_child := Rf_store (rf_x s + 10)\<rparr>)
         | Rf_store v \<Rightarrow> Some (None, s\<lparr>rf_x := v, rf_child := Rf_done\<rparr>)
         | Rf_done \<Rightarrow> None))"

lemma ref_exec_step: "ref_exec c s = Some (l, s') \<Longrightarrow> ref_step s l s'"
  by (auto simp: ref_exec_def split: if_splits ref_main.splits ref_child.splits intro: ref_step.intros)

lemma ref_runs:
  assumes "schedule ref_exec \<lparr>rf_x = 0, rf_child = Rf_load, rf_main = Rf_start\<rparr> cs = Some (es, s)"
  shows "\<exists>s0. ref_init s0 \<and> Lts.run ref_step s0 es s"
proof -
  have "Lts.run ref_step \<lparr>rf_x = 0, rf_child = Rf_load, rf_main = Rf_start\<rparr> es s"
    by (rule schedule_run [OF assms]) (rule ref_exec_step)
  then show ?thesis by (intro exI conjI) (simp_all add: ref_init_def)
qed

text \<open>
  The program prints one line, 0 or 10, and both happen: the read in \<open>main\<close> races with the thread's
  write. Only after the \<open>join\<close> is the variable certain to be 10.
\<close>

theorem ref_prints_0_or_10:
  "{es. \<exists>s0 s. ref_init s0 \<and> Lts.run ref_step s0 es s \<and> rf_main s = Rf_end} = {[0], [10]} \<and>
   (\<forall>s. reachable ref_init ref_step s \<and> rf_main s = Rf_end \<longrightarrow> rf_x s = 10)"
proof (intro conjI equalityI subsetI allI impI)
  fix es assume "es \<in> {es. \<exists>s0 s. ref_init s0 \<and> Lts.run ref_step s0 es s \<and> rf_main s = Rf_end}"
  then show "es \<in> {[0], [10]}" using ref_trace by fastforce
next
  fix es :: "int list" assume "es \<in> {[0], [10]}"
  then consider "es = [0]" | "es = [10]" by blast
  then show "es \<in> {es. \<exists>s0 s. ref_init s0 \<and> Lts.run ref_step s0 es s \<and> rf_main s = Rf_end}"
  proof cases
    case 1
    have "schedule ref_exec \<lparr>rf_x = 0, rf_child = Rf_load, rf_main = Rf_start\<rparr> [True, True, False, False, True] =
        Some ([0], \<lparr>rf_x = 10, rf_child = Rf_done, rf_main = Rf_end\<rparr>)" by (simp add: ref_exec_def)
    from ref_runs [OF this] 1 show ?thesis by fastforce
  next
    case 2
    have "schedule ref_exec \<lparr>rf_x = 0, rf_child = Rf_load, rf_main = Rf_start\<rparr> [True, False, False, True, True] =
        Some ([10], \<lparr>rf_x = 10, rf_child = Rf_done, rf_main = Rf_end\<rparr>)" by (simp add: ref_exec_def)
    from ref_runs [OF this] 2 show ?thesis by fastforce
  qed
next
  fix s assume "reachable ref_init ref_step s \<and> rf_main s = Rf_end"
  then show "rf_x s = 10" using refr.inv_reachable by (fastforce simp: ref_inv_def)
qed

end
