(* ===== verification/Spec2Isabelle.thy ===== *)
theory Spec2Isabelle
  imports Con_Prod Ring_Queue_Conc Singleton Udp_Chat Tcp_Echo Tcp_Versions Process_Pool Pool_Menu Pipe_Ipc
    Shm_Ipc Shm_Life Tickets Cond_Control Signals Sig_Handlers My_File Shell Alternate Counters Counter_Lines
    Stdio_Read Exec_Env Thread_Names Thread_Local Sum_Lib Shell_Session Child_Life
    Udp_Network Log_Threads Pool_Log Sig_Faults Ref_Race
begin

text \<open>
  The repository is a course in Linux system and network programming: one directory per
  lesson, each with one or a few programs. This development models the programs that have
  logic of their own, lesson by lesson, from the sources under src/, and proves what makes
  them correct, or shows exactly where they are not.

  Foundations.
  \<^item> Prelude: C strings as byte lists ending at the first zero byte, \<open>snprintf\<close> into a buffer of
    a given size, decimal and hexadecimal output and \<open>atoi\<close> with their inverse laws, the
    four bytes of a 32-bit word, and threads as a list of program counters with counting lemmas.
  \<^item> Lts: labelled steps, runs, reachable states, schedules that execute them, and the locales
    \<open>inductive_invariant\<close>, \<open>trace_refinement\<close> (an abstract deterministic machine accepts every
    trace) and \<open>event_budget\<close> (a bound on the number of events).
  \<^item> Fifo_Spec: the abstract bounded or unbounded queue, and the locale \<open>fifo_container\<close>, which
    the containers of the blocking queue, the ring and the thread pool interpret.
  \<^item> Pthread: mutex with owner, condition variable (signal, broadcast), semaphore, and the
    wrappers of 0114/lockGuard.hpp and 0208/RingQueue/sem.hpp; the locale \<open>exclusive_lock\<close>.
  \<^item> Logging, Net: \<open>logMessage\<close> and \<open>Log\<close> (Log.hpp in its versions); socket addresses, byte
    order, \<open>inet_ntoa\<close>, port arguments and \<open>std::getline\<close>.

  Concurrent components. A step is one access to shared state (a test, a store, a lock
  operation); any number of threads is allowed unless the program fixes it, and spurious
  wake-ups are steps of their own. Each has an invariant proved step by step, interpreted in
  the locales of Lts; the theorems are about every run or every reachable state.
  \<^item> Block_Queue and Con_Prod: 0114/BlockQueue.hpp, ConProd.cc, Task.hpp. The queue is a bounded
    FIFO with mutual exclusion and without deadlock; the threshold in \<open>push\<close> can leave a
    consumer asleep on a non-empty queue.
  \<^item> Ring_Queue and Ring_Queue_Conc: 0208/RingQueue. The two semaphores and the two locks give a
    bounded FIFO, no race on a slot and no deadlock.
  \<^item> Thread_Pool and Pool_Correct: 0208/ThreadPool (and the same pool in 0211 and 0215/tcp). Tasks
    run once and in order, no wake-up is lost, and the workers of the test program log the sum.
    Pool_Log: the test program's log has one line for each task, and all of them when the pool is idle.
  \<^item> Singleton: the double-checked locking of 0211/threadPool.hpp, 0215 and
    xjh_multi_thread/test.cc: one object, one pointer, and the unsynchronised read.
  \<^item> Tickets: 0110/mythread.cc without a lock oversells, 0112/mythread1.cc with one does not.
  \<^item> Cond_Control: 0113/demo/mycond.cc, how often its threads run and how it can hang.
  \<^item> Alternate: the alternating printers at the end of xjh_multi_thread/test1.cc, by yielding
    and by a condition variable; both refine the same abstract turn-taking.
  \<^item> Counters and Counter_Lines: the counting programs in the first part of the same file, as
    statement lists with one interpreter; a typing of the lists is the locking discipline, and
    its soundness gives freedom from races, termination, the totals and the printed lines. The
    body with \<open>try\<close> and \<open>catch\<close> against the one with \<open>lock_guard\<close> when a statement throws.
    Ref_Race: the program with \<open>std::ref\<close> in that file, whose \<open>main\<close> prints what a thread changes.

  Network programs.
  \<^item> Udp_Chat: 0215/udp, the broadcast to all known peers, the key of a peer, the receiving
    client's buffer, the sending loop.
  \<^item> Udp_Network: the whole chat, with the server, any number of clients (\<open>main\<close> and its two threads)
    and a network that loses, repeats and reorders datagrams: what is shown was typed, under the
    sender's own address; every message can still arrive at whoever takes part; and a client that has
    quit never closes its socket.
  \<^item> Tcp_Echo: 0215/tcp, \<open>service\<close> on one connection, the accept loop of the main thread that takes
    connections one by one and pushes their tasks into the pool of Thread_Pool, the forking server of
    tcp_backup_1 with its descriptors, the client, and client and \<open>service\<close> over two byte streams
    that may cut and join what is written.
  \<^item> Tcp_Versions: the versions \<open>tcp_server.hpp\<close> keeps beside the pool (a process, a grandchild or
    a thread per connection): descriptors, blocking, and what ends the server.

  Processes and their communication.
  \<^item> Process_Pool and Pool_Menu: 1119/processPool, the task table, commands as 4 bytes on pipes,
    the child's loop, descriptors across \<open>fork\<close>, the menu with dispatching, the shutdown.
  \<^item> Pipe_Ipc: 1119/pipe and 1126/fifo, a byte stream between one writer and several readers.
  \<^item> Shm_Ipc and Shm_Life: 1126/shm, 1201/shm and 1201/shm_pipe, the protocol of segment and
    token, and how the pipe and the segment outlive the processes.
  \<^item> Signals: 0105, 0104, 0108 and 0919, blocked and pending signals, status words, polling.
  \<^item> Sig_Handlers: 0105 and 0108/mysignal.cc, programs that catch signals: every signal, one that
    was blocked (handled once however often it came), one that sets the flag of the main loop.
  \<^item> My_File: 1017/myfile.c, a buffered file that refines the written-and-pending file.
  \<^item> Sig_Faults: 0104, programs that signal themselves by a fault, \<open>raise\<close>, \<open>abort\<close> or an alarm.
  \<^item> Shell: 1017/shell and 1008/part1/shell, the line, its redirection, its words, what
    parent and child print, and the child's streams.
  \<^item> Shell_Session: the whole shell of 0921, from the typed input to the terminal.
  \<^item> Child_Life: 0914, 0919 (its blocking version), 0104/signal2.cc and 0108/mysignal.cc: the statements
    of a parent executed one by one, beside a child that is waited for, or whose \<open>SIGCHLD\<close> is
    caught or ignored.

  Files, output and programs of one process.
  \<^item> Unix_Files and Stdio: open files with offsets, the descriptor table, the system calls, and
    \<open>stdout\<close> with its buffer (line by line on a terminal, \<open>BUFSIZ\<close> bytes on a file), as state monad
    computations; what a program prints and writes is interleaved, never lost or doubled.
  \<^item> Log_Versions and Log_Threads: the four versions of \<open>logMessage\<close> over these descriptors and buffers
    refine Logging (locale \<open>logger\<close>, interpreted for each version); what a killed process leaves; and
    records of threads that log at the same time never mix, although \<open>logMessage\<close> takes no lock.
  \<^item> Stdio_Demos and Stdio_Read: the programs of 1010, 1012, 1017/myfile1.c, 1019 and three of 0914, on
    the order of buffered and direct output, \<open>fork\<close> with a full buffer, redirection, errors of
    \<open>open\<close>, \<open>fgets\<close> and \<open>read\<close> into 64 bytes.
  \<^item> Exec_Env: 0921/exec.c and mycmd.c, 0919/myproc2.cc: descriptors stay and the buffer goes with
    the image that \<open>exec\<close> replaces.
  \<^item> Thread_Names: 0109/mythread.cc, five threads named through one buffer. Thread_Local:
    0110/mythread1.cc, a counter of each thread's own, and \<open>exec\<close> in a thread.
  \<^item> Sum_Lib: 1031/part2/myLib, the sum of a range in \<open>int\<close> arithmetic.

  How the models correspond to the code. A class is a record with its fields, a function or
  method is a definition of its name (suffixed where HOL has the name), a thread's code is an
  inductive relation whose constructors follow the statements in order. Undefined behaviour
  (an access outside a buffer, a null pointer) is the value \<open>None\<close> or a constructor of its own,
  a blocking call has no step or is a constructor, \<open>exit\<close> and a failed assertion are values.
  Results of system calls (but for files, in Unix_Files), of \<open>rand\<close> and of the library functions
  that are not part of C and C++ are arguments. Integers are words where the program relies on
  their width (ports, addresses, commands); elsewhere the hypotheses give the range.

  Fuel and bounds. Endless loops are relations, or functions observed for a number of rounds
  (\<open>udpSend\<close>, \<open>fifo_client_loop\<close>, \<open>menu_rounds\<close>, \<open>show_loop\<close>, \<open>unblock_rounds\<close>,
  \<open>fault_run\<close>): the theorems hold for every number. \<open>father_loop\<close> is a partial function, and its
  theorem gives its ten results. \<open>child_loop\<close>, \<open>strtok_all\<close>, \<open>fgets_copy\<close> and \<open>shell_session\<close>
  terminate because they consume their input, \<open>sum_loop\<close> because it counts up. No other function
  has fuel.

  Not modelled: the memory model of the hardware (reads and writes are atomic and in program
  order; a data race is stated as a property instead), \<open>pthread_create\<close>'s attributes, sleeps,
  seeds, the destructors no program reaches, and the lessons that only call the kernel and
  print, or print addresses (listed with their reasons in PROJECT.json). Several lessons repeat a
  file without change (lockGuard.hpp, thread.hpp, Log.hpp, Task.hpp, the pool of 0211 and 0215, the
  client of tcp_backup_1, the pool of processes in ProcessPool.cc and .hpp); it is modelled once, and
  only what differs in a copy is modelled again. Such copies, comments, includes and the calls that
  only wait, seed or print are the lines without a definition.
\<close>

end
